(* ===== verification/Prelude.thy ===== *)
theory Prelude
  imports Main "HOL-Library.Word" "HOL-Library.Multiset" "HOL-Library.List_Lexorder" "HOL-Library.Char_ord"
begin

text \<open>
  Shared vocabulary of the development: how the C++ program fails, how a fallible
  operation returns, checked vector access, the byte-string functions of the standard
  library that the sources use, and the lemma collections the component theories extend.

  \<^item> A C++ exception is a value of \<open>cpp_error\<close>. \<open>Terminate\<close> is a call of
    \<open>std::terminate\<close>, which no handler catches. \<open>Undefined\<close> is not an exception: it
    marks the places where the sources leave the defined behaviour of the language
    (an index past the end of a vector, \<open>front()\<close> of an empty deque, a read past the end
    of a buffer), so that a theorem "the result is an \<open>Inr\<close>" also says that no such place
    is reached.
  \<^item> A \<open>std::string\<close> is a HOL \<open>string\<close>, a list of 8-bit characters; the terminating NUL
    that \<open>c_str()\<close> exposes is written out where the sources depend on it.
\<close>

named_theorems q_simps \<open>what the queue operations do to the contents\<close>
named_theorems dm_simps \<open>what the data manager operations do to its fields\<close>
named_theorems inv_intros \<open>every operation keeps the invariant of its component\<close>

section \<open>Failures and results\<close>

datatype ub =
    Index_out_of_range
  | Front_of_empty
  | Pop_of_empty
  | Read_past_end
  | Write_past_end
  | Null_dereference

datatype cpp_error =
    Runtime_error string
  | Invalid_argument string
  | Ptree_error string
  | System_error string
  | Terminate
  | Undefined ub

type_synonym 'a res = "cpp_error + 'a"

definition is_ok :: "'a res \<Rightarrow> bool" where
  "is_ok r = (case r of Inl _ \<Rightarrow> False | Inr _ \<Rightarrow> True)"

lemma is_ok_simps [simp]: "\<not> is_ok (Inl e)" "is_ok (Inr x)"
  by (simp_all add: is_ok_def)

lemma is_okE: "is_ok r \<Longrightarrow> (\<And>x. r = Inr x \<Longrightarrow> P) \<Longrightarrow> P"
  by (cases r) auto

section \<open>Vectors with unchecked subscripts\<close>

text \<open>
  \<open>v[i]\<close> of \<open>std::vector\<close> with an \<open>int\<close> subscript: a negative value converts to a huge
  \<open>size_type\<close>, so both ends of the range are out of bounds.
\<close>

definition in_range :: "'a list \<Rightarrow> int \<Rightarrow> bool" where
  "in_range xs i \<longleftrightarrow> 0 \<le> i \<and> i < int (length xs)"

definition vec_at :: "'a list \<Rightarrow> int \<Rightarrow> 'a res" where
  "vec_at xs i = (if in_range xs i then Inr (xs ! nat i) else Inl (Undefined Index_out_of_range))"

lemma in_range_int [simp]: "in_range xs (int i) \<longleftrightarrow> i < length xs"
  by (simp add: in_range_def)

lemma in_range_nat: "in_range xs i \<Longrightarrow> nat i < length xs"
  by (simp add: in_range_def nat_less_iff)

lemma in_range_nat_inj: "in_range xs i \<Longrightarrow> in_range ys j \<Longrightarrow> nat i = nat j \<longleftrightarrow> i = j"
  by (auto simp: in_range_def)

lemma in_range_list_update [simp]: "in_range (xs[k := x]) = in_range xs"
  by (simp add: in_range_def fun_eq_iff)

lemma in_range_append: "in_range xs i \<Longrightarrow> in_range (xs @ ys) i"
  by (simp add: in_range_def)

lemma in_range_cong: "length xs = length ys \<Longrightarrow> in_range xs i = in_range ys i"
  by (simp add: in_range_def)

lemma vec_at_ok [simp]: "in_range xs i \<Longrightarrow> vec_at xs i = Inr (xs ! nat i)"
  by (simp add: vec_at_def)

lemma vec_at_Inr: "vec_at xs i = Inr x \<longleftrightarrow> in_range xs i \<and> x = xs ! nat i"
  by (auto simp: vec_at_def)

section \<open>Bytes\<close>

abbreviation NUL :: char where "NUL \<equiv> CHR 0x00"
abbreviation newline :: char where "newline \<equiv> CHR 0x0A"

text \<open>\<open>std::tolower\<close> on one byte in the "C" locale.\<close>

definition tolower :: "char \<Rightarrow> char" where
  "tolower c =
     (let n = (of_char c :: nat) in if 65 \<le> n \<and> n \<le> 90 then char_of (n + 32) else c)"

text \<open>The \<open>std::string\<close> built from a NUL-terminated buffer: the bytes before the first NUL.\<close>

definition c_str_prefix :: "char list \<Rightarrow> string" where
  "c_str_prefix buf = takeWhile (\<lambda>c. c \<noteq> NUL) buf"

lemma tolower_idem: "tolower (tolower c) = tolower c"
proof (cases "65 \<le> (of_char c :: nat) \<and> (of_char c :: nat) \<le> 90")
  case True
  then have "(of_char (tolower c) :: nat) = of_char c + 32"
    by (simp add: tolower_def Let_def)
  with True show ?thesis
    by (simp add: tolower_def [of "tolower c"])
next
  case False
  then have "tolower c = c" by (auto simp: tolower_def Let_def)
  then show ?thesis by simp
qed

lemma filter_id: "(\<And>x. x \<in> set xs \<Longrightarrow> P x) \<Longrightarrow> filter P xs = xs"
  by (induction xs) auto

lemma takeWhile_append_stop: "(\<And>x. x \<in> set xs \<Longrightarrow> P x) \<Longrightarrow> \<not> P y \<Longrightarrow> takeWhile P (xs @ y # ys) = xs"
  by (induction xs) auto

lemma count_list_distinct: "distinct xs \<Longrightarrow> count_list xs x = (if x \<in> set xs then 1 else 0)"
  by (induction xs) auto

lemma count_list_update:
  "i < length xs \<Longrightarrow> count_list (xs[i := y]) x + (if xs ! i = x then 1 else 0)
     = count_list xs x + (if y = x then 1 else 0)"
proof (induction xs arbitrary: i)
  case (Cons z xs)
  show ?case
  proof (cases i)
    case (Suc k)
    with Cons.IH [of k] Cons.prems show ?thesis by (cases "y = x"; cases "xs ! k = x"; simp)
  qed simp
qed simp

lemma concat_map_update:
  "i < length xs \<Longrightarrow> mset (concat (map f (xs[i := y]))) + mset (f (xs ! i))
     = mset (concat (map f xs)) + mset (f y)"
proof (induction xs arbitrary: i)
  case (Cons z xs)
  then show ?case
  proof (cases i)
    case (Suc k)
    with Cons.IH [of k] Cons.prems show ?thesis by (simp add: ac_simps)
  qed (simp add: ac_simps)
qed simp

end
