(* ===== verification/Queue.thy ===== *)
theory Queue
  imports Prelude
begin

text \<open>
  The class \<open>Q<T>\<close> of include/queue.hpp and src/queue.cpp: a \<open>std::deque\<close> behind a mutex
  and a condition variable. This theory has the contents and the critical section of each
  operation, that is, what the operation does while it holds the mutex; who holds the
  mutex and who waits on the condition variable is the subject of Queue_Threads. The
  element type is a type variable, as in the template.

  Interfaces: \<open>fifo\<close> (put and take one element) and \<open>drain_fifo\<close> (take everything at
  once), which the data manager, the consumers and the thread pool rely on.
\<close>

section \<open>State and operations\<close>

record 'a Q =
  queue :: "'a list"

definition Q_new :: "'a Q" where
  "Q_new = \<lparr>queue = []\<rparr>"

text \<open>
  The move constructor takes the deque of the other object and leaves that one empty. The
  move assignment leaves the other deque valid but unspecified: \<open>rest\<close> stands for what the
  library leaves there. \<open>same\<close> is the self-assignment test of the code.
\<close>

definition Q_move_ctor :: "'a Q \<Rightarrow> 'a Q \<times> 'a Q" where
  "Q_move_ctor other = (\<lparr>queue = queue other\<rparr>, other\<lparr>queue := []\<rparr>)"

definition Q_move_assign :: "bool \<Rightarrow> 'a list \<Rightarrow> 'a Q \<Rightarrow> 'a Q \<Rightarrow> 'a Q \<times> 'a Q" where
  "Q_move_assign same rest this other =
     (if \<not> same then (this\<lparr>queue := queue other\<rparr>, other\<lparr>queue := rest\<rparr>) else (this, other))"

definition Q_push :: "'a \<Rightarrow> 'a Q \<Rightarrow> 'a Q" where
  "Q_push data q = q\<lparr>queue := queue q @ [data]\<rparr>"

text \<open>
  Both overloads of \<open>pop\<close>, from the point where the optional wait is over: neither tests
  whether the deque is empty.
\<close>

definition Q_pop_data :: "'a Q \<Rightarrow> ('a \<times> 'a Q) res" where
  "Q_pop_data q = (case queue q of
       [] \<Rightarrow> Inl (Undefined Front_of_empty)
     | x # xs \<Rightarrow> Inr (x, q\<lparr>queue := xs\<rparr>))"

definition Q_pop :: "'a Q \<Rightarrow> 'a Q res" where
  "Q_pop q = (case queue q of
       [] \<Rightarrow> Inl (Undefined Pop_of_empty)
     | x # xs \<Rightarrow> Inr (q\<lparr>queue := xs\<rparr>))"

definition Q_copy :: "'a Q \<Rightarrow> 'a Q \<Rightarrow> 'a Q" where
  "Q_copy q other = other\<lparr>queue := queue other @ queue q\<rparr>"

text \<open>The loop of the second \<open>copy\<close>: append to \<open>others[id]\<close> for every \<open>id\<close> of the list.\<close>

fun Q_copy_loop :: "'a Q \<Rightarrow> 'a Q list \<Rightarrow> int list \<Rightarrow> 'a Q list res" where
  "Q_copy_loop q others [] = Inr others"
| "Q_copy_loop q others (i # ids) =
     (case vec_at others i of
        Inl e \<Rightarrow> Inl e
      | Inr dst \<Rightarrow> Q_copy_loop q (others[nat i := Q_copy q dst]) ids)"

definition Q_copy_to :: "'a Q \<Rightarrow> 'a Q list \<Rightarrow> int list \<Rightarrow> ('a Q \<times> 'a Q list) res" where
  "Q_copy_to q others enableCopy =
     (case Q_copy_loop q others enableCopy of
        Inl e \<Rightarrow> Inl e
      | Inr others' \<Rightarrow> Inr (q\<lparr>queue := []\<rparr>, others'))"

definition Q_move :: "'a Q \<Rightarrow> 'a list \<Rightarrow> 'a Q \<times> 'a list" where
  "Q_move q other = (q\<lparr>queue := []\<rparr>, other @ queue q)"

definition Q_empty :: "'a Q \<Rightarrow> bool" where
  "Q_empty q \<longleftrightarrow> queue q = []"

definition Q_front :: "'a Q \<Rightarrow> 'a res" where
  "Q_front q = (case queue q of [] \<Rightarrow> Inl (Undefined Front_of_empty) | x # _ \<Rightarrow> Inr x)"

text \<open>\<open>restart\<close> empties the deque before it gives up the mutex that \<open>pause\<close> took.\<close>

definition Q_restart :: "'a Q \<Rightarrow> 'a Q" where
  "Q_restart q = q\<lparr>queue := []\<rparr>"

section \<open>Contents after each operation\<close>

lemma queue_new [simp, q_simps]: "queue Q_new = []"
  by (simp add: Q_new_def)

lemma queue_push [simp, q_simps]: "queue (Q_push x q) = queue q @ [x]"
  by (simp add: Q_push_def)

lemma queue_copy [simp, q_simps]: "queue (Q_copy q other) = queue other @ queue q"
  by (simp add: Q_copy_def)

lemma Q_eqI: "queue q = queue q' \<Longrightarrow> q = (q' :: 'a Q)"
  by simp

lemma queue_update_eq [simp]: "(q :: 'a Q)\<lparr>queue := xs\<rparr> = \<lparr>queue = xs\<rparr>"
  by (rule Q_eqI) simp

lemma queue_eta [simp]: "\<lparr>queue = queue q\<rparr> = (q :: 'a Q)"
  by (rule Q_eqI) simp

lemma Q_eq_new_iff: "q = Q_new \<longleftrightarrow> queue q = []"
  by (metis queue_eta queue_new)

lemma Q_copy_from_empty: "queue q = [] \<Longrightarrow> Q_copy q = (\<lambda>other. other)"
  by (simp add: Q_copy_def fun_eq_iff)

lemma Q_copy_eq: "Q_copy q other = \<lparr>queue = queue other @ queue q\<rparr>"
  by (simp add: Q_copy_def)

lemma Q_empty_iff [simp, q_simps]: "Q_empty q \<longleftrightarrow> queue q = []"
  by (simp add: Q_empty_def)

lemma queue_move [q_simps]: "Q_move q v = (q', v') \<Longrightarrow> queue q' = [] \<and> v' = v @ queue q"
  by (auto simp: Q_move_def)

lemma Q_pop_data_Cons [q_simps]: "queue q = x # xs \<Longrightarrow> Q_pop_data q = Inr (x, q\<lparr>queue := xs\<rparr>)"
  by (simp add: Q_pop_data_def)

text \<open>Reallocation of a vector of queues moves every element and loses nothing.\<close>

lemma Q_move_ctor_contents [simp]: "fst (Q_move_ctor q) = q" "queue (snd (Q_move_ctor q)) = []"
  by (simp_all add: Q_move_ctor_def)

lemma Q_reallocate: "map (fst \<circ> Q_move_ctor) qs = qs"
  by (simp add: comp_def)

section \<open>Copying to several queues\<close>

lemma Q_copy_loop_length: "Q_copy_loop q others ids = Inr others' \<Longrightarrow> length others' = length others"
  by (induction ids arbitrary: others) (auto split: sum.splits)

lemma Q_copy_loop_ok_iff:
  "is_ok (Q_copy_loop q others ids) \<longleftrightarrow> list_all (in_range others) ids"
  by (induction ids arbitrary: others) (simp_all add: vec_at_def)

text \<open>Queue \<open>j\<close> receives the contents once for every occurrence of \<open>j\<close> in the list.\<close>

lemma Q_copy_loop_nth:
  "Q_copy_loop q others ids = Inr others' \<Longrightarrow> j < length others \<Longrightarrow>
   queue (others' ! j) = queue (others ! j) @ concat (replicate (count_list ids (int j)) (queue q))"
proof (induction ids arbitrary: others)
  case Nil
  then show ?case by simp
next
  case (Cons i ids)
  from Cons.prems(1) have i: "in_range others i"
    and rest: "Q_copy_loop q (others[nat i := Q_copy q (others ! nat i)]) ids = Inr others'"
    by (auto simp: vec_at_def split: if_splits)
  from rest Cons.prems(2) have "queue (others' ! j) =
      queue (others[nat i := Q_copy q (others ! nat i)] ! j) @
      concat (replicate (count_list ids (int j)) (queue q))"
    by (intro Cons.IH) simp_all
  moreover have "nat i = j \<longleftrightarrow> i = int j" using i by (auto simp: in_range_def)
  ultimately show ?case using Cons.prems(2)
    by (simp add: nth_list_update)
qed

lemma Q_copy_loop_distinct:
  assumes "list_all (in_range others) ids" and "distinct ids"
  shows "Q_copy_loop q others ids =
    Inr (map (\<lambda>j. if int j \<in> set ids then Q_copy q (others ! j) else others ! j) [0..<length others])"
proof -
  from assms(1) obtain others' where ok: "Q_copy_loop q others ids = Inr others'"
    using Q_copy_loop_ok_iff [of q others ids] by (auto elim: is_okE)
  have "others' ! j = (if int j \<in> set ids then Q_copy q (others ! j) else others ! j)"
    if "j < length others" for j
    using Q_copy_loop_nth [OF ok that] assms(2)
    by (cases "int j \<in> set ids") (simp_all add: count_list_distinct)
  with Q_copy_loop_length [OF ok] ok show ?thesis
    by (auto intro!: nth_equalityI)
qed

section \<open>First-in first-out channels\<close>

text \<open>
  The contract a client of a queue relies on: what is put comes out in the order of the
  puts, and taking from an empty queue is refused. A run is a sequence of puts and takes;
  it fails at the first take from an empty queue.
\<close>

datatype 'a fifo_op = Put 'a | Take

fun puts :: "'a fifo_op list \<Rightarrow> 'a list" where
  "puts [] = []"
| "puts (Put x # ops) = x # puts ops"
| "puts (Take # ops) = puts ops"

fun fifo_run ::
  "('a \<Rightarrow> 'q \<Rightarrow> 'q) \<Rightarrow> ('q \<Rightarrow> ('a \<times> 'q) res) \<Rightarrow> 'a fifo_op list \<Rightarrow> 'q \<Rightarrow> ('a list \<times> 'q) res"
where
  "fifo_run put get [] q = Inr ([], q)"
| "fifo_run put get (Put x # ops) q = fifo_run put get ops (put x q)"
| "fifo_run put get (Take # ops) q =
     (case get q of
        Inl e \<Rightarrow> Inl e
      | Inr (x, q') \<Rightarrow>
          (case fifo_run put get ops q' of
             Inl e \<Rightarrow> Inl e
           | Inr (out, q'') \<Rightarrow> Inr (x # out, q'')))"

text \<open>Whether a run from \<open>n\<close> elements never takes from the empty queue.\<close>

fun never_empty_take :: "nat \<Rightarrow> 'a fifo_op list \<Rightarrow> bool" where
  "never_empty_take n [] = True"
| "never_empty_take n (Put x # ops) = never_empty_take (Suc n) ops"
| "never_empty_take n (Take # ops) = (0 < n \<and> never_empty_take (n - 1) ops)"

locale fifo =
  fixes contents :: "'q \<Rightarrow> 'a list"
    and put :: "'a \<Rightarrow> 'q \<Rightarrow> 'q"
    and get :: "'q \<Rightarrow> ('a \<times> 'q) res"
  assumes contents_put: "contents (put x q) = contents q @ [x]"
    and get_Nil: "contents q = [] \<Longrightarrow> \<not> is_ok (get q)"
    and get_Cons: "contents q = x # xs \<Longrightarrow> \<exists>q'. get q = Inr (x, q') \<and> contents q' = xs"
begin

lemma get_InrD: "get q = Inr (x, q') \<Longrightarrow> contents q = x # contents q'"
  using get_Nil [of q] get_Cons [of q] by (cases "contents q") fastforce+

lemma run_order:
  "fifo_run put get ops q = Inr (out, q') \<Longrightarrow> contents q @ puts ops = out @ contents q'"
proof (induction ops arbitrary: q out rule: puts.induct)
  case (3 ops)
  from "3.prems" obtain x p out' where t: "get q = Inr (x, p)"
    and r: "fifo_run put get ops p = Inr (out', q')" and out: "out = x # out'"
    by (auto split: sum.splits prod.splits)
  from "3.IH" [OF r] get_InrD [OF t] out show ?case by simp
next
  case (2 x ops)
  from "2.prems" have "fifo_run put get ops (put x q) = Inr (out, q')" by simp
  from "2.IH" [OF this] show ?case by (simp add: contents_put)
qed simp

lemma run_ok_iff: "is_ok (fifo_run put get ops q) \<longleftrightarrow> never_empty_take (length (contents q)) ops"
proof (induction ops arbitrary: q rule: puts.induct)
  case (3 ops)
  show ?case
  proof (cases "contents q")
    case Nil
    then show ?thesis using get_Nil [of q] by (auto split: sum.splits)
  next
    case (Cons x xs)
    then obtain p where "get q = Inr (x, p)" and "contents p = xs"
      using get_Cons by blast
    with "3.IH" [of p] Cons show ?thesis by (auto simp: is_ok_def split: sum.splits)
  qed
qed (auto simp: contents_put)

lemma run_take_all:
  "\<exists>q'. fifo_run put get (replicate (length (contents q)) Take) q = Inr (contents q, q')
     \<and> contents q' = []"
proof (induction "contents q" arbitrary: q)
  case Nil
  then show ?case by simp
next
  case (Cons x xs)
  then obtain p where t: "get q = Inr (x, p)" and p: "contents p = xs"
    using get_Cons by metis
  from Cons.hyps(1) [of p] p Cons.hyps(2) [symmetric] t show ?case by auto
qed

end

text \<open>A channel that can also be emptied in one operation.\<close>

locale drain_fifo = fifo +
  fixes drain :: "'q \<Rightarrow> 'q \<times> 'a list"
  assumes drain_all: "snd (drain q) = contents q"
    and drain_rest: "contents (fst (drain q)) = []"
begin

lemma drain_is_take_all:
  "\<exists>q'. fifo_run put get (replicate (length (contents q)) Take) q = Inr (snd (drain q), q')
     \<and> contents q' = contents (fst (drain q))"
  using run_take_all [of q] by (simp add: drain_all drain_rest)

end

interpretation qf: drain_fifo queue Q_push Q_pop_data "\<lambda>q. Q_move q []"
  by unfold_locales (auto simp: Q_pop_data_def Q_move_def)

section \<open>Properties of the queue\<close>

lemma Q_copy_loop_spec:
  "Q_copy_loop q others ids =
     (if list_all (in_range others) ids
      then Inr (map (\<lambda>j. \<lparr>queue = queue (others ! j) @
                   concat (replicate (count_list ids (int j)) (queue q))\<rparr>) [0..<length others])
      else Inl (Undefined Index_out_of_range))"
proof (cases "Q_copy_loop q others ids")
  case (Inl e)
  have "Q_copy_loop q others ids = Inl e \<Longrightarrow> e = Undefined Index_out_of_range"
    by (induction ids arbitrary: others) (auto simp: vec_at_def split: if_splits)
  with Inl show ?thesis using Q_copy_loop_ok_iff [of q others ids] by simp
next
  case (Inr others')
  then show ?thesis
    using Q_copy_loop_ok_iff [of q others ids] Q_copy_loop_length [OF Inr] Q_copy_loop_nth [OF Inr]
    by (auto intro!: nth_equalityI Q_eqI)
qed

text \<open>
  C18: a queue is first-in first-out. Any sequence of pushes and non-blocking pops on a new
  queue either pops from the empty queue at some point, and this is the only way it fails,
  or the popped elements followed by what is still queued are exactly the pushed elements
  in the order of the pushes.
\<close>

theorem Q_fifo:
  "case fifo_run Q_push Q_pop_data ops Q_new of
     Inl _ \<Rightarrow> \<not> never_empty_take 0 ops
   | Inr (out, q) \<Rightarrow> never_empty_take 0 ops \<and> out @ queue q = puts ops"
  using qf.run_ok_iff [of ops Q_new] qf.run_order [of ops Q_new]
  by (auto split: sum.split)

text \<open>
  C19: \<open>copy\<close> to several queues. It succeeds exactly when every listed index is inside the
  vector; then queue \<open>j\<close> has received the whole contents once per occurrence of \<open>j\<close> in the
  list, behind what it already held, every queue that is not listed is unchanged, and the
  source is empty. One index out of range is undefined behaviour.
\<close>

theorem Q_copy_to_spec:
  "Q_copy_to q others ids =
     (if list_all (in_range others) ids
      then Inr (Q_new,
             map (\<lambda>j. \<lparr>queue = queue (others ! j) @
                   concat (replicate (count_list ids (int j)) (queue q))\<rparr>) [0..<length others])
      else Inl (Undefined Index_out_of_range))"
  by (simp add: Q_copy_to_def Q_copy_loop_spec Q_new_def)

text \<open>
  Moving a queue to a vector is the same as popping until the queue is empty: the
  vector gains, behind its old elements, exactly the elements that pop by pop would have
  come out, in that order, and the queue is left as those pops would leave it.
\<close>

theorem Q_move_is_pop_all:
  "\<exists>out q'. fifo_run Q_push Q_pop_data (replicate (length (queue q)) Take) q = Inr (out, q')
     \<and> Q_move q v = (q', v @ out)"
  using qf.drain_is_take_all [of q] by (auto simp: Q_move_def)

end
