(* ===== verification/Queue_Threads.thy ===== *)
theory Queue_Threads
  imports Queue
begin

text \<open>
  The operations of \<open>Q<T>\<close> run by any number of threads on any number of queues: which
  mutex each operation takes and when, and the condition variable. Queues and threads are
  numbered.

  An access to a deque is not one step: a thread first reads the deque (\<open>Loaded\<close> and its
  like keep what it read) and writes in a later step what the definitions of theory Queue
  compute from that. Nothing but the mutexes keeps another thread from coming in between,
  so what the steps do to the contents depends on the locking being right.

  The code's details that matter are kept: \<open>pop(true)\<close> waits before it looks at the
  deque; \<open>stop\<close> notifies and \<open>front\<close> reads without the mutex; \<open>copy\<close> takes the mutex of
  the source and then that of the destination; \<open>pause\<close> returns with the mutex held.
\<close>

section \<open>Threads\<close>

text \<open>\<open>C_pop\<close> is \<open>pop(T &, bool)\<close> and \<open>C_drop\<close> is \<open>pop(bool)\<close>, both with the argument \<open>blocking\<close>.\<close>

datatype 'a qcall =
    C_push 'a
  | C_pop bool
  | C_drop bool
  | C_empty
  | C_move
  | C_copy nat
  | C_copy_to "nat list"
  | C_pause

text \<open>Calls that wait before they do anything, and calls that access one deque once.\<close>

fun blocking :: "'a qcall \<Rightarrow> bool" where
  "blocking (C_pop b) = b"
| "blocking (C_drop b) = b"
| "blocking _ = False"

fun single :: "'a qcall \<Rightarrow> bool" where
  "single (C_push x) = True"
| "single (C_pop b) = (\<not> b)"
| "single (C_drop b) = (\<not> b)"
| "single C_empty = True"
| "single C_move = True"
| "single _ = False"

text \<open>
  In the states of the second \<open>copy\<close>, \<open>bs\<close> is its list of destinations and \<open>k\<close> how many of
  them have been served.
\<close>

datatype 'a pc =
    Idle
  | Want "'a qcall" nat
  | Holds "'a qcall" nat
  | Waits "'a qcall" nat    \<comment> \<open>inside \<open>cv.wait\<close>, mutex released\<close>
  | Wakes "'a qcall" nat    \<comment> \<open>notified, about to take the mutex again\<close>
  | Resumed "'a qcall" nat  \<comment> \<open>\<open>cv.wait\<close> has returned\<close>
  | Loaded "'a qcall" nat "'a Q"
  | CopyWant nat nat
  | CopyHolds nat nat
  | CopyLoaded nat nat "'a Q" "'a Q"
  | CopyToNext nat "nat list" nat
  | CopyToHolds nat "nat list" nat
  | CopyToLoaded nat "nat list" nat "'a Q" "'a Q"
  | Fault ub
  | Relocked                \<comment> \<open>locked a mutex it already owns, or unlocked one it does not own\<close>

text \<open>
  What the callers see: the thread, the queue, and the data they passed or got. The second
  \<open>copy\<close> is an event for each destination and one for the final \<open>clear\<close>.
\<close>

datatype 'a qevent =
    E_push nat nat 'a
  | E_pop nat nat 'a
  | E_drop nat nat
  | E_empty nat nat bool
  | E_move nat nat "'a list"
  | E_copy nat nat nat "'a list"
  | E_append nat nat nat "'a list"
  | E_clear nat nat "nat list"
  | E_restart nat nat

record 'a world =
  qs :: "nat \<Rightarrow> 'a Q"
  owner :: "nat \<Rightarrow> nat option"
  pcs :: "nat \<Rightarrow> 'a pc"
  log :: "'a qevent list"

definition init_world :: "'a world" where
  "init_world = \<lparr>qs = (\<lambda>_. Q_new), owner = (\<lambda>_. None), pcs = (\<lambda>_. Idle), log = []\<rparr>"

definition goto :: "nat \<Rightarrow> 'a pc \<Rightarrow> 'a world \<Rightarrow> 'a world" where
  "goto t p w = w\<lparr>pcs := (pcs w)(t := p)\<rparr>"

definition lock :: "nat \<Rightarrow> nat \<Rightarrow> 'a world \<Rightarrow> 'a world" where
  "lock t a w = w\<lparr>owner := (owner w)(a := Some t)\<rparr>"

definition unlock :: "nat \<Rightarrow> 'a world \<Rightarrow> 'a world" where
  "unlock a w = w\<lparr>owner := (owner w)(a := None)\<rparr>"

definition store :: "nat \<Rightarrow> 'a Q \<Rightarrow> 'a qevent \<Rightarrow> 'a world \<Rightarrow> 'a world" where
  "store a q e w = w\<lparr>qs := (qs w)(a := q), log := log w @ [e]\<rparr>"

text \<open>\<open>cv.notify_all()\<close> of queue \<open>a\<close>.\<close>

fun notified :: "nat \<Rightarrow> 'a pc \<Rightarrow> 'a pc" where
  "notified a (Waits c b) = (if b = a then Wakes c b else Waits c b)"
| "notified a p = p"

definition notify_all :: "nat \<Rightarrow> 'a world \<Rightarrow> 'a world" where
  "notify_all a w = w\<lparr>pcs := (\<lambda>t. notified a (pcs w t))\<rparr>"

section \<open>Steps\<close>

text \<open>
  \<open>qstep w t w'\<close>: thread \<open>t\<close> moves. \<open>goto t Idle\<close> is the return of the call; the scoped
  lock is released at that point. \<open>front\<close> is a whole call in one step, since it takes no
  mutex and changes nothing.
\<close>

inductive qstep :: "'a world \<Rightarrow> nat \<Rightarrow> 'a world \<Rightarrow> bool" where
  call: "pcs w t = Idle \<Longrightarrow> qstep w t (goto t (Want c a) w)"
| acquire: "pcs w t = Want c a \<Longrightarrow> owner w a = None \<Longrightarrow>
    qstep w t (goto t (Holds c a) (lock t a w))"
| reacquire: "pcs w t = Want c a \<Longrightarrow> owner w a = Some t \<Longrightarrow> qstep w t (goto t Relocked w)"
| pop_wait: "pcs w t = Holds c a \<Longrightarrow> blocking c \<Longrightarrow> qstep w t (goto t (Waits c a) (unlock a w))"
| spurious: "pcs w t = Waits c a \<Longrightarrow> qstep w t (goto t (Wakes c a) w)"
| resume: "pcs w t = Wakes c a \<Longrightarrow> owner w a = None \<Longrightarrow> qstep w t (goto t (Resumed c a) (lock t a w))"
| load: "(pcs w t = Holds c a \<and> single c) \<or> pcs w t = Resumed c a \<Longrightarrow>
    qstep w t (goto t (Loaded c a (qs w a)) w)"
| push: "pcs w t = Loaded (C_push x) a q \<Longrightarrow>
    qstep w t (goto t Idle (unlock a (notify_all a (store a (Q_push x q) (E_push t a x) w))))"
| pop: "pcs w t = Loaded (C_pop b) a q \<Longrightarrow> Q_pop_data q = Inr (x, q') \<Longrightarrow>
    qstep w t (goto t Idle (unlock a (notify_all a (store a q' (E_pop t a x) w))))"
| pop_fault: "pcs w t = Loaded (C_pop b) a q \<Longrightarrow> Q_pop_data q = Inl (Undefined u) \<Longrightarrow>
    qstep w t (goto t (Fault u) w)"
| drop: "pcs w t = Loaded (C_drop b) a q \<Longrightarrow> Q_pop q = Inr q' \<Longrightarrow>
    qstep w t (goto t Idle (unlock a (notify_all a (store a q' (E_drop t a) w))))"
| drop_fault: "pcs w t = Loaded (C_drop b) a q \<Longrightarrow> Q_pop q = Inl (Undefined u) \<Longrightarrow>
    qstep w t (goto t (Fault u) w)"
| empty: "pcs w t = Loaded C_empty a q \<Longrightarrow>
    qstep w t (goto t Idle (unlock a (w\<lparr>log := log w @ [E_empty t a (Q_empty q)]\<rparr>)))"
| move: "pcs w t = Loaded C_move a q \<Longrightarrow> Q_move q [] = (q', xs) \<Longrightarrow>
    qstep w t (goto t Idle (unlock a (store a q' (E_move t a xs) w)))"
| copy_src: "pcs w t = Holds (C_copy b) a \<Longrightarrow> qstep w t (goto t (CopyWant a b) w)"
| copy_dst: "pcs w t = CopyWant a b \<Longrightarrow> owner w b = None \<Longrightarrow>
    qstep w t (goto t (CopyHolds a b) (lock t b w))"
| copy_self: "pcs w t = CopyWant a b \<Longrightarrow> owner w b = Some t \<Longrightarrow> qstep w t (goto t Relocked w)"
| copy_load: "pcs w t = CopyHolds a b \<Longrightarrow> qstep w t (goto t (CopyLoaded a b (qs w a) (qs w b)) w)"
| copy: "pcs w t = CopyLoaded a b src dst \<Longrightarrow>
    qstep w t (goto t Idle (unlock a (unlock b (notify_all b
      (store b (Q_copy src dst) (E_copy t a b (queue src)) w)))))"
| copy_to_start: "pcs w t = Holds (C_copy_to bs) a \<Longrightarrow> qstep w t (goto t (CopyToNext a bs 0) w)"
| copy_to_lock: "pcs w t = CopyToNext a bs k \<Longrightarrow> k < length bs \<Longrightarrow> owner w (bs ! k) = None \<Longrightarrow>
    qstep w t (goto t (CopyToHolds a bs k) (lock t (bs ! k) w))"
| copy_to_self: "pcs w t = CopyToNext a bs k \<Longrightarrow> k < length bs \<Longrightarrow> owner w (bs ! k) = Some t \<Longrightarrow>
    qstep w t (goto t Relocked w)"
| copy_to_load: "pcs w t = CopyToHolds a bs k \<Longrightarrow>
    qstep w t (goto t (CopyToLoaded a bs k (qs w a) (qs w (bs ! k))) w)"
| copy_to: "pcs w t = CopyToLoaded a bs k src dst \<Longrightarrow>
    qstep w t (goto t (CopyToNext a bs (Suc k)) (unlock (bs ! k) (notify_all (bs ! k)
      (store (bs ! k) (Q_copy src dst) (E_append t a (bs ! k) (queue src)) w))))"
| copy_to_end: "pcs w t = CopyToNext a bs k \<Longrightarrow> k = length bs \<Longrightarrow>
    qstep w t (goto t Idle (unlock a (store a ((qs w a)\<lparr>queue := []\<rparr>) (E_clear t a bs) w)))"
| pause: "pcs w t = Holds C_pause a \<Longrightarrow> qstep w t (goto t Idle w)"
| restart: "pcs w t = Idle \<Longrightarrow> owner w a = Some t \<Longrightarrow>
    qstep w t (unlock a (store a (Q_restart (qs w a)) (E_restart t a) w))"
| restart_unowned: "pcs w t = Idle \<Longrightarrow> owner w a \<noteq> Some t \<Longrightarrow> qstep w t (goto t Relocked w)"
| stop: "pcs w t = Idle \<Longrightarrow> qstep w t (notify_all a w)"
| front: "pcs w t = Idle \<Longrightarrow> Q_front (qs w a) = Inr x \<Longrightarrow> qstep w t w"
| front_fault: "pcs w t = Idle \<Longrightarrow> Q_front (qs w a) = Inl (Undefined u) \<Longrightarrow> qstep w t (goto t (Fault u) w)"

inductive q_reach :: "'a world \<Rightarrow> bool" where
  q_init: "q_reach init_world"
| q_next: "q_reach w \<Longrightarrow> qstep w t w' \<Longrightarrow> q_reach w'"

inductive qsteps :: "'a world \<Rightarrow> 'a world \<Rightarrow> bool" where
  qs_refl: "qsteps w w"
| qs_step: "qsteps w w' \<Longrightarrow> qstep w' t w'' \<Longrightarrow> qsteps w w''"

lemmas world_simps = goto_def lock_def unlock_def notify_all_def store_def

section \<open>Mutual exclusion\<close>

text \<open>The mutexes a thread holds inside its current call.\<close>

fun holds :: "'a pc \<Rightarrow> nat set" where
  "holds (Holds c a) = {a}"
| "holds (Resumed c a) = {a}"
| "holds (Loaded c a q) = {a}"
| "holds (CopyWant a b) = {a}"
| "holds (CopyHolds a b) = {a, b}"
| "holds (CopyLoaded a b src dst) = {a, b}"
| "holds (CopyToNext a bs k) = {a}"
| "holds (CopyToHolds a bs k) = {a, bs ! k}"
| "holds (CopyToLoaded a bs k src dst) = {a, bs ! k}"
| "holds _ = {}"

fun pc_ok :: "'a pc \<Rightarrow> bool" where
  "pc_ok (CopyHolds a b) = (a \<noteq> b)"
| "pc_ok (CopyLoaded a b src dst) = (a \<noteq> b)"
| "pc_ok (CopyToNext a bs k) = (k \<le> length bs)"
| "pc_ok (CopyToHolds a bs k) = (k < length bs \<and> a \<noteq> bs ! k)"
| "pc_ok (CopyToLoaded a bs k src dst) = (k < length bs \<and> a \<noteq> bs ! k)"
| "pc_ok _ = True"

definition lock_inv :: "'a world \<Rightarrow> bool" where
  "lock_inv w \<longleftrightarrow> (\<forall>t. pc_ok (pcs w t) \<and> (\<forall>a. a \<in> holds (pcs w t) \<longrightarrow> owner w a = Some t))"

lemma lock_invD: "lock_inv w \<Longrightarrow> a \<in> holds (pcs w t) \<Longrightarrow> owner w a = Some t"
  by (simp add: lock_inv_def)

lemma pc_okD: "lock_inv w \<Longrightarrow> pc_ok (pcs w t)"
  by (simp add: lock_inv_def)

lemma holds_owner: "lock_inv w \<Longrightarrow> a \<in> holds (pcs w t) \<Longrightarrow> a \<in> holds (pcs w u) \<Longrightarrow> t = u"
  by (metis lock_invD option.inject)

lemma owned:
  "lock_inv w \<Longrightarrow> pcs w t = Holds c a \<Longrightarrow> owner w a = Some t"
  "lock_inv w \<Longrightarrow> pcs w t = Resumed c a \<Longrightarrow> owner w a = Some t"
  "lock_inv w \<Longrightarrow> pcs w t = Loaded c a q \<Longrightarrow> owner w a = Some t"
  "lock_inv w \<Longrightarrow> pcs w t = CopyWant a b \<Longrightarrow> owner w a = Some t"
  "lock_inv w \<Longrightarrow> pcs w t = CopyHolds a b \<Longrightarrow> owner w a = Some t \<and> owner w b = Some t \<and> a \<noteq> b"
  "lock_inv w \<Longrightarrow> pcs w t = CopyLoaded a b src dst \<Longrightarrow> owner w a = Some t \<and> owner w b = Some t \<and> a \<noteq> b"
  "lock_inv w \<Longrightarrow> pcs w t = CopyToNext a bs k \<Longrightarrow> owner w a = Some t \<and> k \<le> length bs"
  "lock_inv w \<Longrightarrow> pcs w t = CopyToHolds a bs k \<Longrightarrow>
     owner w a = Some t \<and> owner w (bs ! k) = Some t \<and> k < length bs \<and> a \<noteq> bs ! k"
  "lock_inv w \<Longrightarrow> pcs w t = CopyToLoaded a bs k src dst \<Longrightarrow>
     owner w a = Some t \<and> owner w (bs ! k) = Some t \<and> k < length bs \<and> a \<noteq> bs ! k"
  unfolding lock_inv_def by (drule spec [of _ t]; simp)+

lemma notified_cases: "notified a p = p \<or> (\<exists>c. p = Waits c a \<and> notified a p = Wakes c a)"
  by (cases p) auto

lemma notified_inert [simp]: "holds (notified a p) = holds p" "pc_ok (notified a p) = pc_ok p"
  by (cases p; simp)+

text \<open>What a step of one thread does to the others, to the owners and to itself.\<close>

lemma qstep_other:
  "qstep w t w' \<Longrightarrow> u \<noteq> t \<Longrightarrow> pcs w' u = pcs w u \<or> (\<exists>c a. pcs w u = Waits c a \<and> pcs w' u = Wakes c a)"
  by (induction rule: qstep.induct) (use notified_cases in \<open>fastforce simp: world_simps\<close>)+

lemma qstep_other_holds: "qstep w t w' \<Longrightarrow> u \<noteq> t \<Longrightarrow> holds (pcs w' u) = holds (pcs w u)"
  using qstep_other [of w t w' u] by auto

lemma qstep_owner:
  "qstep w t w' \<Longrightarrow> lock_inv w \<Longrightarrow> owner w' a \<noteq> owner w a \<Longrightarrow> owner w a = None \<or> owner w a = Some t"
  by (induction rule: qstep.induct) (auto simp: world_simps dest: owned split: if_splits)

lemma qstep_self:
  "qstep w t w' \<Longrightarrow> lock_inv w \<Longrightarrow>
   pc_ok (pcs w' t) \<and> (\<forall>a. a \<in> holds (pcs w' t) \<longrightarrow> owner w' a = Some t)"
  by (induction rule: qstep.induct) (auto simp: world_simps dest: owned split: if_splits)

lemma qstep_lock_inv:
  assumes "qstep w t w'" and "lock_inv w" shows "lock_inv w'"
  unfolding lock_inv_def
proof (intro allI)
  fix u
  show "pc_ok (pcs w' u) \<and> (\<forall>a. a \<in> holds (pcs w' u) \<longrightarrow> owner w' a = Some u)"
  proof (cases "u = t")
    case True
    with assms show ?thesis by (simp add: qstep_self)
  next
    case False
    have "pc_ok (pcs w u)" using assms(2) by (simp add: lock_inv_def)
    then have "pc_ok (pcs w' u)" using qstep_other [OF assms(1) False] by auto
    moreover have "owner w' a = Some u" if "a \<in> holds (pcs w' u)" for a
    proof -
      from that have "a \<in> holds (pcs w u)" using assms(1) False by (simp add: qstep_other_holds)
      then have "owner w a = Some u" using assms(2) by (rule lock_invD [rotated])
      with False qstep_owner [OF assms, of a] show ?thesis by auto
    qed
    ultimately show ?thesis by blast
  qed
qed

lemma q_reach_lock_inv: "q_reach w \<Longrightarrow> lock_inv w"
proof (induction rule: q_reach.induct)
  case q_init
  show ?case by (simp add: init_world_def lock_inv_def)
qed (rule qstep_lock_inv)

section \<open>What a thread has read is what the deque holds\<close>

fun view_ok :: "(nat \<Rightarrow> 'a Q) \<Rightarrow> 'a pc \<Rightarrow> bool" where
  "view_ok f (Loaded c a q) = (q = f a)"
| "view_ok f (CopyLoaded a b src dst) = (src = f a \<and> dst = f b)"
| "view_ok f (CopyToLoaded a bs k src dst) = (src = f a \<and> dst = f (bs ! k))"
| "view_ok f _ = True"

definition view_inv :: "'a world \<Rightarrow> bool" where
  "view_inv w \<longleftrightarrow> (\<forall>t. view_ok (qs w) (pcs w t))"

lemma view_invD:
  assumes "view_inv w"
  shows "pcs w t = Loaded c a q \<Longrightarrow> q = qs w a"
    and "pcs w t = CopyLoaded a b src dst \<Longrightarrow> src = qs w a \<and> dst = qs w b"
    and "pcs w t = CopyToLoaded a bs k src dst \<Longrightarrow> src = qs w a \<and> dst = qs w (bs ! k)"
  using assms unfolding view_inv_def by (auto dest: spec [of _ t])

lemma view_ok_notified [simp]: "view_ok f (notified a p) = view_ok f p"
  by (cases p) simp_all

lemma view_ok_cong: "(\<And>a. a \<in> holds p \<Longrightarrow> f a = g a) \<Longrightarrow> view_ok f p = view_ok g p"
  by (cases p) auto

text \<open>Only the owner of a mutex writes to its deque.\<close>

lemma qstep_qs:
  "qstep w t w' \<Longrightarrow> lock_inv w \<Longrightarrow> qs w' a \<noteq> qs w a \<Longrightarrow> owner w a = Some t"
  by (induction rule: qstep.induct) (auto simp: world_simps dest: owned split: if_splits)

lemma qstep_other_qs:
  assumes "qstep w t w'" and "lock_inv w" and "u \<noteq> t" and "a \<in> holds (pcs w u)"
  shows "qs w' a = qs w a"
proof (rule ccontr)
  assume "qs w' a \<noteq> qs w a"
  with qstep_qs [OF assms(1,2)] have "owner w a = Some t" by simp
  with lock_invD [OF assms(2,4)] assms(3) show False by simp
qed

lemma qstep_view_self: "qstep w t w' \<Longrightarrow> view_ok (qs w') (pcs w' t)"
  by (induction rule: qstep.induct) (auto simp: world_simps)

lemma qstep_view_inv:
  assumes "qstep w t w'" and "lock_inv w" and "view_inv w" shows "view_inv w'"
  unfolding view_inv_def
proof
  fix u
  show "view_ok (qs w') (pcs w' u)"
  proof (cases "u = t")
    case True
    with assms(1) show ?thesis by (simp add: qstep_view_self)
  next
    case False
    have "view_ok (qs w') (pcs w u) = view_ok (qs w) (pcs w u)"
      by (rule view_ok_cong) (rule qstep_other_qs [OF assms(1,2) False])
    then have "view_ok (qs w') (pcs w u)" using assms(3) by (simp add: view_inv_def)
    with qstep_other [OF assms(1) False] show ?thesis by auto
  qed
qed

lemma q_reach_view_inv: "q_reach w \<Longrightarrow> view_inv w"
proof (induction rule: q_reach.induct)
  case q_init
  show ?case by (simp add: init_world_def view_inv_def)
next
  case (q_next w t w')
  then show ?case by (blast intro: qstep_view_inv q_reach_lock_inv)
qed

section \<open>Replaying the calls one after the other\<close>

text \<open>
  The sequential meaning of what the callers saw: plain lists, no threads, no mutexes.
  \<open>deliv t\<close> is what the second \<open>copy\<close> of thread \<open>t\<close> has appended so far. A replay is refused
  where an event does not fit: a popped element that was not the first one, a wrong answer
  of \<open>empty\<close>, a \<open>clear\<close> of elements that were not delivered to every destination.
\<close>

record 'a seq =
  conts :: "nat \<Rightarrow> 'a list"
  deliv :: "nat \<Rightarrow> (nat \<times> 'a list) list"

definition seq_init :: "'a seq" where
  "seq_init = \<lparr>conts = (\<lambda>_. []), deliv = (\<lambda>_. [])\<rparr>"

fun seq_step :: "'a qevent \<Rightarrow> 'a seq \<Rightarrow> 'a seq option" where
  "seq_step (E_push t a x) s = Some (s\<lparr>conts := (conts s)(a := conts s a @ [x])\<rparr>)"
| "seq_step (E_pop t a x) s =
     (case conts s a of
        [] \<Rightarrow> None
      | y # ys \<Rightarrow> if y = x then Some (s\<lparr>conts := (conts s)(a := ys)\<rparr>) else None)"
| "seq_step (E_drop t a) s =
     (case conts s a of [] \<Rightarrow> None | y # ys \<Rightarrow> Some (s\<lparr>conts := (conts s)(a := ys)\<rparr>))"
| "seq_step (E_empty t a b) s = (if b = (conts s a = []) then Some s else None)"
| "seq_step (E_move t a xs) s =
     (if xs = conts s a then Some (s\<lparr>conts := (conts s)(a := [])\<rparr>) else None)"
| "seq_step (E_copy t a b xs) s =
     (if xs = conts s a then Some (s\<lparr>conts := (conts s)(b := conts s b @ xs)\<rparr>) else None)"
| "seq_step (E_append t a b xs) s =
     (if xs = conts s a
      then Some \<lparr>conts = (conts s)(b := conts s b @ xs), deliv = (deliv s)(t := deliv s t @ [(b, xs)])\<rparr>
      else None)"
| "seq_step (E_clear t a bs) s =
     (if deliv s t = map (\<lambda>b. (b, conts s a)) bs
      then Some \<lparr>conts = (conts s)(a := []), deliv = (deliv s)(t := [])\<rparr>
      else None)"
| "seq_step (E_restart t a) s = Some (s\<lparr>conts := (conts s)(a := [])\<rparr>)"

fun seq_run :: "'a qevent list \<Rightarrow> 'a seq \<Rightarrow> 'a seq option" where
  "seq_run [] s = Some s"
| "seq_run (e # es) s = (case seq_step e s of None \<Rightarrow> None | Some s' \<Rightarrow> seq_run es s')"

lemma seq_run_append:
  "seq_run (es @ fs) s = (case seq_run es s of None \<Rightarrow> None | Some s' \<Rightarrow> seq_run fs s')"
  by (induction es arbitrary: s) (auto split: option.split)

text \<open>What the replay of a thread's own \<open>copy\<close> has recorded, at each point of the call.\<close>

fun deliv_ok :: "(nat \<Rightarrow> 'a Q) \<Rightarrow> (nat \<times> 'a list) list \<Rightarrow> 'a pc \<Rightarrow> bool" where
  "deliv_ok f ds (CopyToNext a bs k) = (ds = map (\<lambda>b. (b, queue (f a))) (take k bs))"
| "deliv_ok f ds (CopyToHolds a bs k) = (ds = map (\<lambda>b. (b, queue (f a))) (take k bs))"
| "deliv_ok f ds (CopyToLoaded a bs k src dst) = (ds = map (\<lambda>b. (b, queue (f a))) (take k bs))"
| "deliv_ok f ds Relocked = True"
| "deliv_ok f ds (Fault u) = True"
| "deliv_ok f ds _ = (ds = [])"

lemma deliv_ok_notified [simp]: "deliv_ok f ds (notified a p) = deliv_ok f ds p"
  by (cases p) simp_all

lemma deliv_ok_cong: "(\<And>a. a \<in> holds p \<Longrightarrow> f a = g a) \<Longrightarrow> deliv_ok f ds p = deliv_ok g ds p"
  by (cases p) auto

definition replays :: "'a world \<Rightarrow> 'a seq \<Rightarrow> bool" where
  "replays w s \<longleftrightarrow> seq_run (log w) seq_init = Some s \<and> conts s = (\<lambda>a. queue (qs w a))
     \<and> (\<forall>t. deliv_ok (qs w) (deliv s t) (pcs w t))"

lemma deliv_okD:
  assumes "replays w s"
  shows "pcs w t = Idle \<Longrightarrow> deliv s t = []" "pcs w t = Want c a \<Longrightarrow> deliv s t = []"
    "pcs w t = Holds c a \<Longrightarrow> deliv s t = []" "pcs w t = Waits c a \<Longrightarrow> deliv s t = []"
    "pcs w t = Wakes c a \<Longrightarrow> deliv s t = []" "pcs w t = Resumed c a \<Longrightarrow> deliv s t = []"
    "pcs w t = Loaded c a q \<Longrightarrow> deliv s t = []" "pcs w t = CopyWant a b \<Longrightarrow> deliv s t = []"
    "pcs w t = CopyHolds a b \<Longrightarrow> deliv s t = []" "pcs w t = CopyLoaded a b src dst \<Longrightarrow> deliv s t = []"
    "pcs w t = CopyToNext a bs k \<Longrightarrow> deliv s t = map (\<lambda>b. (b, queue (qs w a))) (take k bs)"
    "pcs w t = CopyToHolds a bs k \<Longrightarrow> deliv s t = map (\<lambda>b. (b, queue (qs w a))) (take k bs)"
    "pcs w t = CopyToLoaded a bs k src dst \<Longrightarrow> deliv s t = map (\<lambda>b. (b, queue (qs w a))) (take k bs)"
  using assms unfolding replays_def by (auto dest: spec [of _ t])

text \<open>A step of a thread writes nothing, or it writes one event that the replay accepts.\<close>

definition accepts :: "'a world \<Rightarrow> nat \<Rightarrow> 'a world \<Rightarrow> 'a seq \<Rightarrow> 'a seq \<Rightarrow> bool" where
  "accepts w t w' s s' \<longleftrightarrow>
     (log w' = log w \<and> s' = s \<or> (\<exists>e. log w' = log w @ [e] \<and> seq_step e s = Some s'))
     \<and> conts s' = (\<lambda>a. queue (qs w' a)) \<and> (\<forall>u. u \<noteq> t \<longrightarrow> deliv s' u = deliv s u)
     \<and> deliv_ok (qs w') (deliv s' t) (pcs w' t)"

lemma accepts_silent:
  "replays w s \<Longrightarrow> log w' = log w \<Longrightarrow> qs w' = qs w \<Longrightarrow> deliv_ok (qs w') (deliv s t) (pcs w' t) \<Longrightarrow>
   accepts w t w' s s"
  by (simp add: accepts_def replays_def)

lemma accepts_event:
  "log w' = log w @ [e] \<Longrightarrow> seq_step e s = Some s' \<Longrightarrow> conts s' = (\<lambda>a. queue (qs w' a)) \<Longrightarrow>
   (\<And>u. u \<noteq> t \<Longrightarrow> deliv s' u = deliv s u) \<Longrightarrow> deliv_ok (qs w') (deliv s' t) (pcs w' t) \<Longrightarrow>
   accepts w t w' s s'"
  by (simp add: accepts_def)

lemma qstep_accepts:
  assumes "qstep w t w'" and "lock_inv w" and "view_inv w" and "replays w s"
  shows "\<exists>s'. accepts w t w' s s'"
proof -
  have cont [simp]: "conts s = (\<lambda>a. queue (qs w a))" using assms(4) by (simp add: replays_def)
  note D = deliv_okD [OF assms(4)] and V = view_invD [OF assms(3)] and O = owned [OF assms(2)]
  note S = world_simps
  show ?thesis
    using assms(1)
  proof (cases rule: qstep.cases)
    case (push x a q)
    with D(7) V(1) show ?thesis
      by (intro exI) (rule accepts_event, simp add: S, simp, auto simp: S)
  next
    case (pop b a q x q')
    with V(1) have "queue (qs w a) = x # queue q'"
      by (auto simp: Q_pop_data_def split: list.splits)
    with pop D(7) show ?thesis
      by (intro exI) (rule accepts_event, simp add: S, simp, auto simp: S)
  next
    case (drop b a q q')
    with V(1) obtain x where "queue (qs w a) = x # queue q'"
      by (auto simp: Q_pop_def split: list.splits)
    with drop D(7) show ?thesis
      by (intro exI) (rule accepts_event, simp add: S, simp, auto simp: S)
  next
    case (empty a q)
    with D(7) V(1) show ?thesis
      by (intro exI) (rule accepts_event, simp add: S, simp, auto simp: S)
  next
    case (move a q q' xs)
    then have "queue q' = [] \<and> xs = queue (qs w a)" using V(1) by (auto simp: Q_move_def)
    with move D(7) show ?thesis
      by (intro exI) (rule accepts_event, simp add: S, simp, auto simp: S)
  next
    case (copy a b src dst)
    with D(10) V(2) show ?thesis
      by (intro exI) (rule accepts_event, simp add: S, simp, auto simp: S)
  next
    case (copy_to a bs k src dst)
    with D(13) V(3) O(9) show ?thesis
      by (intro exI) (rule accepts_event, simp add: S, simp, auto simp: S take_Suc_conv_app_nth)
  next
    case (copy_to_end a bs k)
    with D(11) show ?thesis
      by (intro exI) (rule accepts_event, simp add: S, simp, auto simp: S)
  next
    case (restart a)
    with D(1) show ?thesis
      by (intro exI) (rule accepts_event, simp add: S, simp, auto simp: S Q_restart_def)
  qed (auto intro!: exI [of _ s] accepts_silent [OF assms(4)] simp: S D)
qed

lemma qstep_replays:
  assumes "qstep w t w'" and "lock_inv w" and "view_inv w" and "replays w s"
  shows "\<exists>s'. replays w' s'"
proof -
  from qstep_accepts [OF assms] obtain s' where acc: "accepts w t w' s s'" by blast
  have "seq_run (log w) seq_init = Some s" using assms(4) by (simp add: replays_def)
  with acc have run: "seq_run (log w') seq_init = Some s'"
    by (auto simp: accepts_def seq_run_append)
  have "deliv_ok (qs w') (deliv s' u) (pcs w' u)" for u
  proof (cases "u = t")
    case True
    with acc show ?thesis by (simp add: accepts_def)
  next
    case False
    have "deliv_ok (qs w') (deliv s u) (pcs w u) = deliv_ok (qs w) (deliv s u) (pcs w u)"
      by (rule deliv_ok_cong) (rule qstep_other_qs [OF assms(1,2) False])
    then have "deliv_ok (qs w') (deliv s u) (pcs w u)" using assms(4) by (simp add: replays_def)
    moreover have "deliv s' u = deliv s u" using acc False by (simp add: accepts_def)
    ultimately show ?thesis using qstep_other [OF assms(1) False] by auto
  qed
  with run acc show ?thesis by (auto simp: replays_def accepts_def)
qed

lemma q_reach_replays: "q_reach w \<Longrightarrow> \<exists>s. replays w s"
proof (induction rule: q_reach.induct)
  case q_init
  show ?case by (simp add: replays_def init_world_def seq_init_def)
next
  case (q_next w t w')
  then show ?case by (blast intro: qstep_replays q_reach_lock_inv q_reach_view_inv)
qed

lemma qsteps_reach: "qsteps w w' \<Longrightarrow> q_reach w \<Longrightarrow> q_reach w'"
  by (induction rule: qsteps.induct) (auto intro: q_next)

section \<open>Single steps of the calls the properties are about\<close>

inductive_cases qstepE: "qstep w t w'"

lemma qstep_from_copy_want:
  "qstep w t w' \<Longrightarrow> pcs w t = CopyWant a b \<Longrightarrow> owner w b = None \<or> owner w b = Some t"
  by (auto elim: qstepE)

lemma qstep_from_blocking:
  "qstep w t w' \<Longrightarrow> pcs w t = Holds c a \<Longrightarrow> blocking c \<Longrightarrow> w' = goto t (Waits c a) (unlock a w)"
  by (cases c) (auto elim: qstepE)

lemma qstep_from_waits:
  "qstep w t w' \<Longrightarrow> pcs w t = Waits c a \<Longrightarrow> w' = goto t (Wakes c a) w"
  by (auto elim: qstepE)

text \<open>The threads whose next step may be a \<open>notify_all\<close> of queue \<open>a\<close>.\<close>

fun may_notify :: "nat \<Rightarrow> 'a pc \<Rightarrow> bool" where
  "may_notify a Idle = True"
| "may_notify a (Loaded (C_push x) b q) = (b = a)"
| "may_notify a (Loaded (C_pop bl) b q) = (b = a)"
| "may_notify a (Loaded (C_drop bl) b q) = (b = a)"
| "may_notify a (CopyLoaded b c src dst) = (c = a)"
| "may_notify a (CopyToLoaded b bs k src dst) = (bs ! k = a)"
| "may_notify a _ = False"

lemma qstep_notifies:
  "qstep w u w' \<Longrightarrow> u \<noteq> t \<Longrightarrow> pcs w t = Waits c a \<Longrightarrow> pcs w' t \<noteq> Waits c a \<Longrightarrow> may_notify a (pcs w u)"
  by (induction rule: qstep.induct) (auto simp: world_simps split: if_splits)

lemma may_notify_cases:
  "may_notify a p \<Longrightarrow> p = Idle \<or> (\<exists>x q. p = Loaded (C_push x) a q)
     \<or> (\<exists>bl q. p = Loaded (C_pop bl) a q \<or> p = Loaded (C_drop bl) a q)
     \<or> (\<exists>b src dst. p = CopyLoaded b a src dst)
     \<or> (\<exists>b bs k src dst. p = CopyToLoaded b bs k src dst \<and> bs ! k = a)"
  by (induction a p rule: may_notify.induct) auto

section \<open>Properties\<close>

text \<open>
  C7: the queues are linearisable, whatever the interleaving of any number of threads. Two
  threads are never inside critical sections of the same queue at once; and what the calls
  did and returned, in the order in which they wrote, is accepted by the replay that runs
  them one after the other on plain lists, and the deques hold what that replay leaves. So
  every element popped was the first one, no push is lost under another thread's write,
  and what the \<open>clear\<close> of a \<open>copy\<close> to several queues drops is exactly what that \<open>copy\<close> has
  appended to each of its destinations. Only \<open>restart\<close> discards elements.
\<close>

theorem Q_interleaved:
  assumes "q_reach w"
  shows "(a \<in> holds (pcs w t) \<and> a \<in> holds (pcs w u) \<longrightarrow> t = u)
    \<and> (\<exists>d. seq_run (log w) seq_init = Some \<lparr>conts = (\<lambda>b. queue (qs w b)), deliv = d\<rparr>)"
proof -
  from q_reach_replays [OF assms] obtain s where "replays w s" by blast
  then have "seq_run (log w) seq_init = Some \<lparr>conts = (\<lambda>b. queue (qs w b)), deliv = deliv s\<rparr>"
    by (simp add: replays_def)
  with holds_owner [OF q_reach_lock_inv [OF assms]] show ?thesis by blast
qed

text \<open>
  A run to apply the properties to: thread 0 pushes one message to queue 0, with the states
  it goes through.
\<close>

definition world_pushing :: "string world" where
  "world_pushing = goto 0 (Loaded (C_push ''m'') 0 Q_new)
     (goto 0 (Holds (C_push ''m'') 0) (lock 0 0 (goto 0 (Want (C_push ''m'') 0) init_world)))"

definition world_push :: "string world" where
  "world_push = goto 0 Idle (unlock 0 (notify_all 0
     (store 0 (Q_push ''m'' Q_new) (E_push 0 0 ''m'') world_pushing)))"

lemma world_push_reach: "q_reach world_push"
proof -
  let ?w1 = "goto 0 (Want (C_push ''m'') 0) init_world"
  let ?w2 = "goto 0 (Holds (C_push ''m'') 0) (lock 0 0 ?w1)"
  have "q_reach ?w1" by (rule q_next [OF q_init qstep.call]) (simp add: init_world_def)
  then have 2: "q_reach ?w2" by (rule q_next [OF _ qstep.acquire]) (simp_all add: init_world_def world_simps)
  have "qstep ?w2 0 world_pushing"
    using qstep.load [of ?w2 0 "C_push ''m''" 0] by (simp add: world_pushing_def init_world_def world_simps)
  with 2 have 3: "q_reach world_pushing" by (rule q_next)
  have "pcs world_pushing 0 = Loaded (C_push ''m'') 0 Q_new" by (simp add: world_pushing_def world_simps)
  from q_next [OF 3 qstep.push [OF this]] show ?thesis by (simp add: world_push_def)
qed

lemma world_push_eqs:
  "pcs world_push = (\<lambda>_. Idle)" "owner world_push = (\<lambda>_. None)" "queue (qs world_push 0) = [''m'']"
  "log world_push = [E_push 0 0 ''m'']"
  by (auto simp: world_push_def world_pushing_def init_world_def world_simps)

theorem Q_interleaved_witness:
  "\<exists>d. seq_run [E_push 0 0 ''m''] seq_init = Some \<lparr>conts = (\<lambda>b. queue (qs world_push b)), deliv = d\<rparr>
     \<and> queue (qs world_push 0) = [''m'']"
  using Q_interleaved [OF world_push_reach] by (simp add: world_push_eqs)

text \<open>
  C36: two \<open>copy\<close> calls in opposite directions can block each other for ever. Once one
  thread holds the mutex of \<open>a\<close> and wants that of \<open>b\<close> while another holds that of \<open>b\<close> and
  wants that of \<open>a\<close>, no continuation of any length, by these or any other threads, lets
  either of them take another step.
\<close>

theorem Q_copy_deadlock:
  assumes "q_reach w" and "pcs w t = CopyWant a b" and "pcs w u = CopyWant b a" and "t \<noteq> u"
    and "qsteps w w'"
  shows "pcs w' t = CopyWant a b \<and> pcs w' u = CopyWant b a"
  using assms(5,1-4)
proof (induction rule: qsteps.induct)
  case (qs_step w w' v w'')
  then have pc: "pcs w' t = CopyWant a b" "pcs w' u = CopyWant b a" by simp_all
  have "lock_inv w'" using qs_step.hyps(1) qs_step.prems(1) by (blast intro: qsteps_reach q_reach_lock_inv)
  with pc have "owner w' a = Some t" "owner w' b = Some u" by (blast dest: owned)+
  with pc qs_step.hyps(2) \<open>t \<noteq> u\<close> have "v \<noteq> t" "v \<noteq> u"
    by (auto dest: qstep_from_copy_want)
  with pc qstep_other [OF qs_step.hyps(2), of t] qstep_other [OF qs_step.hyps(2), of u] show ?case
    by auto
qed simp

theorem Q_copy_deadlock_witness:
  "\<exists>w. q_reach w \<and> (\<forall>w'. qsteps w w' \<longrightarrow> pcs w' 0 = CopyWant 0 1 \<and> pcs w' 1 = CopyWant 1 0)"
proof -
  let ?w1 = "goto 0 (Want (C_copy 1) 0) init_world"
  let ?w2 = "goto 0 (Holds (C_copy 1) 0) (lock 0 0 ?w1)"
  let ?w3 = "goto 0 (CopyWant 0 1) ?w2"
  let ?w4 = "goto 1 (Want (C_copy 0) 1) ?w3"
  let ?w5 = "goto 1 (Holds (C_copy 0) 1) (lock 1 1 ?w4)"
  let ?w6 = "goto 1 (CopyWant 1 0) ?w5"
  have "q_reach ?w1" by (rule q_next [OF q_init qstep.call]) (simp add: init_world_def)
  then have "q_reach ?w2" by (rule q_next [OF _ qstep.acquire]) (simp_all add: init_world_def world_simps)
  then have "q_reach ?w3" by (rule q_next [OF _ qstep.copy_src]) (simp add: init_world_def world_simps)
  then have "q_reach ?w4" by (rule q_next [OF _ qstep.call]) (simp add: init_world_def world_simps)
  then have "q_reach ?w5" by (rule q_next [OF _ qstep.acquire]) (simp_all add: init_world_def world_simps)
  then have reach: "q_reach ?w6" by (rule q_next [OF _ qstep.copy_src]) (simp add: init_world_def world_simps)
  have "pcs ?w6 0 = CopyWant 0 1" "pcs ?w6 1 = CopyWant 1 0" by (simp_all add: world_simps)
  with Q_copy_deadlock [OF reach, of 0 0 1 1] reach show ?thesis by auto
qed

text \<open>
  C37: a blocking \<open>pop\<close>, of either overload, waits even when the queue is not empty. From
  inside the call the only step of the thread is to release the mutex and wait, with the
  contents untouched; and from then on it leaves the wait only by a spurious wake-up of its
  own or when another thread, at that moment, pushes to, pops from or copies into this
  queue, or makes a new call (\<open>stop\<close>). If no such call comes, the element stays in the queue
  and the popper waits.
\<close>

theorem Q_blocking_pop_waits:
  assumes "pcs w t = Holds c a" and "c = C_pop True \<or> c = C_drop True" and "qstep w t w1"
  shows "pcs w1 t = Waits c a \<and> qs w1 = qs w
    \<and> (\<forall>u w2. qstep w1 u w2 \<and> pcs w2 t \<noteq> Waits c a \<longrightarrow>
         u = t \<and> pcs w2 t = Wakes c a
       \<or> pcs w1 u = Idle \<or> (\<exists>x q. pcs w1 u = Loaded (C_push x) a q)
       \<or> (\<exists>bl q. pcs w1 u = Loaded (C_pop bl) a q \<or> pcs w1 u = Loaded (C_drop bl) a q)
       \<or> (\<exists>b src dst. pcs w1 u = CopyLoaded b a src dst)
       \<or> (\<exists>b bs k src dst. pcs w1 u = CopyToLoaded b bs k src dst \<and> bs ! k = a))"
proof -
  have w1: "w1 = goto t (Waits c a) (unlock a w)"
    using assms by (auto dest: qstep_from_blocking)
  then have wait: "pcs w1 t = Waits c a" by (simp add: world_simps)
  have "u = t \<and> pcs w2 t = Wakes c a \<or> may_notify a (pcs w1 u)"
    if "qstep w1 u w2" and "pcs w2 t \<noteq> Waits c a" for u w2
  proof (cases "u = t")
    case True
    with that wait show ?thesis by (auto dest!: qstep_from_waits simp: world_simps)
  qed (use qstep_notifies [OF that(1) _ wait that(2)] in blast)
  then have wakes: "qstep w1 u w2 \<and> pcs w2 t \<noteq> Waits c a \<Longrightarrow>
      u = t \<and> pcs w2 t = Wakes c a \<or> may_notify a (pcs w1 u)" for u w2 by blast
  show ?thesis
  proof (intro conjI allI impI)
    show "pcs w1 t = Waits c a" by (rule wait)
    show "qs w1 = qs w" using w1 by (simp add: world_simps)
  next
    fix u w2
    assume "qstep w1 u w2 \<and> pcs w2 t \<noteq> Waits c a"
    from wakes [OF this] show "u = t \<and> pcs w2 t = Wakes c a
       \<or> pcs w1 u = Idle \<or> (\<exists>x q. pcs w1 u = Loaded (C_push x) a q)
       \<or> (\<exists>bl q. pcs w1 u = Loaded (C_pop bl) a q \<or> pcs w1 u = Loaded (C_drop bl) a q)
       \<or> (\<exists>b src dst. pcs w1 u = CopyLoaded b a src dst)
       \<or> (\<exists>b bs k src dst. pcs w1 u = CopyToLoaded b bs k src dst \<and> bs ! k = a)"
      by (rule disj_forward) (simp, rule may_notify_cases)
  qed
qed

theorem Q_blocking_pop_waits_witness:
  "\<exists>w w1. q_reach w \<and> queue (qs w 0) = [''m''] \<and> pcs w 1 = Holds (C_pop True) 0
     \<and> qstep w 1 w1 \<and> pcs w1 1 = Waits (C_pop True) 0 \<and> qs w1 = qs w"
proof -
  let ?w1 = "goto 1 (Want (C_pop True) 0) world_push"
  let ?w2 = "goto 1 (Holds (C_pop True) 0) (lock 1 0 ?w1)"
  have "q_reach ?w1" by (rule q_next [OF world_push_reach qstep.call]) (simp add: world_push_eqs)
  then have reach: "q_reach ?w2"
    by (rule q_next [OF _ qstep.acquire]) (simp_all add: world_push_eqs world_simps)
  have pc: "pcs ?w2 1 = Holds (C_pop True) 0" by (simp add: world_simps)
  have step: "qstep ?w2 1 (goto 1 (Waits (C_pop True) 0) (unlock 0 ?w2))"
    by (rule qstep.pop_wait [OF pc]) simp
  have "queue (qs ?w2 0) = [''m'']" by (simp add: world_simps world_push_eqs)
  with Q_blocking_pop_waits [OF pc _ step] reach pc step show ?thesis by blast
qed

text \<open>
  C38: \<open>stop\<close> drives a waiting popper into undefined behaviour. In any reachable state where
  a thread waits in \<open>pop(data, true)\<close> or \<open>pop(true)\<close> on an empty queue whose mutex is free
  and another thread is about to make a call, that thread can call \<open>stop\<close>, and the woken
  popper then takes \<open>front()\<close> of the empty deque, or removes the first element of it.
\<close>

theorem Q_stop_faults_waiting_pop:
  assumes "pcs w t = Waits c a" and "c = C_pop True \<or> c = C_drop True"
    and "pcs w u = Idle" and "owner w a = None" and "queue (qs w a) = []"
  shows "\<exists>w'. qsteps w w' \<and> pcs w' t = Fault (if c = C_pop True then Front_of_empty else Pop_of_empty)"
proof -
  let ?w1 = "notify_all a w"
  let ?w2 = "goto t (Resumed c a) (lock t a ?w1)"
  let ?w3 = "goto t (Loaded c a (qs w a)) ?w2"
  let ?f = "if c = C_pop True then Front_of_empty else Pop_of_empty"
  have 1: "qstep w u ?w1" using assms(3) by (rule qstep.stop)
  have 2: "qstep ?w1 t ?w2" using assms by (intro qstep.resume) (simp_all add: world_simps)
  have 3: "qstep ?w2 t ?w3" using qstep.load [of ?w2 t c a] by (simp add: world_simps)
  have pc: "pcs ?w3 t = Loaded c a (qs w a)" by (simp add: world_simps)
  have 4: "qstep ?w3 t (goto t (Fault ?f) ?w3)"
    using assms(2)
  proof
    assume c: "c = C_pop True"
    have "Q_pop_data (qs w a) = Inl (Undefined Front_of_empty)" using assms(5) by (simp add: Q_pop_data_def)
    from qstep.pop_fault [OF _ this, of ?w3 t True] pc c show ?thesis by simp
  next
    assume c: "c = C_drop True"
    have "Q_pop (qs w a) = Inl (Undefined Pop_of_empty)" using assms(5) by (simp add: Q_pop_def)
    from qstep.drop_fault [OF _ this, of ?w3 t True] pc c show ?thesis by simp
  qed
  have "qsteps w (goto t (Fault ?f) ?w3)"
    by (rule qs_step [OF qs_step [OF qs_step [OF qs_step [OF qs_refl 1] 2] 3] 4])
  moreover have "pcs (goto t (Fault ?f) ?w3) t = Fault ?f" by (simp add: goto_def)
  ultimately show ?thesis by blast
qed

theorem Q_stop_faults_waiting_pop_witness:
  "\<exists>w w'. q_reach w \<and> qsteps w w' \<and> pcs w' 1 = Fault Front_of_empty"
proof -
  let ?w1 = "goto 1 (Want (C_pop True) 0) init_world"
  let ?w2 = "goto 1 (Holds (C_pop True) 0) (lock 1 0 ?w1)"
  let ?w3 = "goto 1 (Waits (C_pop True) 0) (unlock 0 ?w2)"
  have "q_reach ?w1" by (rule q_next [OF q_init qstep.call]) (simp add: init_world_def)
  then have "q_reach ?w2" by (rule q_next [OF _ qstep.acquire]) (simp_all add: init_world_def world_simps)
  then have reach: "q_reach ?w3" by (rule q_next [OF _ qstep.pop_wait]) (simp_all add: world_simps)
  have "pcs ?w3 1 = Waits (C_pop True) 0" "C_pop True = C_pop True \<or> C_pop True = C_drop True"
    "pcs ?w3 0 = Idle" "owner ?w3 0 = None" "queue (qs ?w3 0) = []"
    by (simp_all add: init_world_def world_simps)
  from Q_stop_faults_waiting_pop [OF this] reach show ?thesis by auto
qed

end
