(* ===== verification/Ordered_Map.thy ===== *)
theory Ordered_Map
  imports Prelude
begin

text \<open>
  \<open>std::map\<close> with the operations the sources call (\<open>count\<close>, \<open>find\<close>, \<open>operator[]\<close> on a
  key that is present, \<open>emplace\<close>, \<open>erase\<close>, \<open>size\<close>): the list of its entries in iteration
  order, keys strictly increasing. For \<open>std::string\<close> keys the order is the lexicographic
  order on bytes, which is the order of HOL-Library's list and character order.

  The interface is the locale \<open>finite_map\<close>; its clients use only the laws stated there,
  and the interpretation \<open>om\<close> at the end discharges them for the list of entries.
\<close>

section \<open>Entries in key order\<close>

type_synonym ('k, 'v) omap = "('k \<times> 'v) list"

definition om_inv :: "('k::linorder, 'v) omap \<Rightarrow> bool" where
  "om_inv m \<longleftrightarrow> sorted_wrt (<) (map fst m)"

fun om_emplace :: "'k::linorder \<Rightarrow> 'v \<Rightarrow> ('k, 'v) omap \<Rightarrow> ('k, 'v) omap" where
  "om_emplace k v [] = [(k, v)]"
| "om_emplace k v ((k', v') # m) =
     (if k < k' then (k, v) # (k', v') # m
      else if k = k' then (k', v') # m
      else (k', v') # om_emplace k v m)"

definition om_erase :: "'k \<Rightarrow> ('k, 'v) omap \<Rightarrow> ('k, 'v) omap" where
  "om_erase k m = filter (\<lambda>e. fst e \<noteq> k) m"

definition om_count :: "('k, 'v) omap \<Rightarrow> 'k \<Rightarrow> nat" where
  "om_count m k = (case map_of m k of None \<Rightarrow> 0 | Some _ \<Rightarrow> 1)"

lemma om_count_0 [simp]: "om_count m k = 0 \<longleftrightarrow> map_of m k = None"
  by (simp add: om_count_def split: option.splits)

lemma om_inv_Nil [simp, intro]: "om_inv []"
  by (simp add: om_inv_def)

lemma om_inv_Cons: "om_inv ((k, v) # m) \<longleftrightarrow> (\<forall>k' \<in> fst ` set m. k < k') \<and> om_inv m"
  by (simp add: om_inv_def)

lemma om_inv_distinct: "om_inv m \<Longrightarrow> distinct (map fst m)"
  unfolding om_inv_def using strict_sorted_iff by blast

lemma fst_set_om_emplace: "fst ` set (om_emplace k v m) = insert k (fst ` set m)"
proof (induction m)
  case (Cons e m)
  obtain k' v' where "e = (k', v')" by (cases e)
  with Cons show ?case by (auto simp del: split_paired_Ex)
qed simp

lemma om_inv_emplace: "om_inv m \<Longrightarrow> om_inv (om_emplace k v m)"
proof (induction m)
  case (Cons e m)
  obtain k' v' where e: "e = (k', v')" by (cases e)
  consider "k < k'" | "k = k'" | "k' < k" by (rule linorder_cases)
  then show ?case
  proof cases
    case 1
    with Cons.prems show ?thesis by (fastforce simp: e om_inv_Cons)
  next
    case 2
    with Cons.prems show ?thesis by (simp add: e)
  next
    case 3
    with Cons show ?thesis by (auto simp: e om_inv_Cons fst_set_om_emplace)
  qed
qed (simp add: om_inv_def)

lemma om_inv_erase: "om_inv m \<Longrightarrow> om_inv (om_erase k m)"
  by (induction m) (auto simp: om_inv_Cons om_erase_def)

lemma map_of_Cons_less: "om_inv ((k', v') # m) \<Longrightarrow> k < k' \<Longrightarrow> map_of ((k', v') # m) k = None"
  by (auto simp: om_inv_Cons map_of_eq_None_iff)

lemma map_of_om_emplace:
  "om_inv m \<Longrightarrow>
   map_of (om_emplace k v m) = (if map_of m k = None then (map_of m)(k \<mapsto> v) else map_of m)"
proof (induction m)
  case Nil
  then show ?case by simp
next
  case (Cons e m)
  obtain k' v' where e: "e = (k', v')" by (cases e)
  consider "k < k'" | "k = k'" | "k' < k" by (rule linorder_cases)
  then show ?case
  proof cases
    case 1
    with Cons.prems have "map_of (e # m) k = None" unfolding e by (rule map_of_Cons_less)
    with 1 show ?thesis by (auto simp: e)
  next
    case 2
    then show ?thesis by (simp add: e)
  next
    case 3
    from Cons.prems have "om_inv m" by (simp add: e om_inv_Cons)
    with 3 Cons.IH show ?thesis by (auto simp: e fun_eq_iff)
  qed
qed

lemma map_of_om_erase: "map_of (om_erase k m) = (map_of m)(k := None)"
  by (induction m) (auto simp: om_erase_def fun_eq_iff)

lemma length_om_card: "om_inv m \<Longrightarrow> length m = card (dom (map_of m))"
  using distinct_card [OF om_inv_distinct [of m]] by (simp add: dom_map_of_conv_image_fst)

section \<open>The interface\<close>

locale finite_map =
  fixes empty :: "'m"
    and look :: "'m \<Rightarrow> 'k \<Rightarrow> 'v option"
    and emplace :: "'k \<Rightarrow> 'v \<Rightarrow> 'm \<Rightarrow> 'm"
    and erase :: "'k \<Rightarrow> 'm \<Rightarrow> 'm"
    and size :: "'m \<Rightarrow> nat"
    and inv :: "'m \<Rightarrow> bool"
  assumes look_empty: "look empty k = None"
    and inv_empty: "inv empty"
    and look_emplace: "inv m \<Longrightarrow>
      look (emplace k v m) = (if look m k = None then (look m)(k \<mapsto> v) else look m)"
    and inv_emplace: "inv m \<Longrightarrow> inv (emplace k v m)"
    and look_erase: "inv m \<Longrightarrow> look (erase k m) = (look m)(k := None)"
    and inv_erase: "inv m \<Longrightarrow> inv (erase k m)"
    and size_card: "inv m \<Longrightarrow> size m = card (dom (look m))"
    and finite_dom: "inv m \<Longrightarrow> finite (dom (look m))"
begin

lemma size_empty: "size empty = 0"
  by (simp add: size_card inv_empty look_empty dom_def)

lemma size_emplace_new: "inv m \<Longrightarrow> look m k = None \<Longrightarrow> size (emplace k v m) = Suc (size m)"
  by (simp add: size_card inv_emplace look_emplace finite_dom domIff)

lemma size_emplace_old: "inv m \<Longrightarrow> look m k \<noteq> None \<Longrightarrow> size (emplace k v m) = size m"
  by (auto simp: size_card inv_emplace look_emplace)

lemma size_erase_old: "inv m \<Longrightarrow> look m k \<noteq> None \<Longrightarrow> Suc (size (erase k m)) = size m"
  by (simp add: size_card inv_erase look_erase finite_dom domIff card_gt_0_iff) 
    (metis card_gt_0_iff domI empty_iff finite_dom Suc_pred)

lemma size_erase_le: "inv m \<Longrightarrow> size (erase k m) \<le> size m"
  by (simp add: size_card inv_erase look_erase finite_dom card_mono)

lemma size_pos: "inv m \<Longrightarrow> look m k \<noteq> None \<Longrightarrow> 0 < size m"
  by (metis size_erase_old zero_less_Suc)

text \<open>Renaming a key, as the registration code does with the slot of a key that is given up.\<close>

lemma size_rename:
  assumes "inv m" and "look m k = None" and "look m k' = Some w"
  shows "size (erase k' (emplace k v m)) = size m"
proof -
  have "look (emplace k v m) k' \<noteq> None" using assms by (auto simp: look_emplace)
  then have "Suc (size (erase k' (emplace k v m))) = size (emplace k v m)"
    using assms by (intro size_erase_old inv_emplace) auto
  then show ?thesis using assms by (simp add: size_emplace_new)
qed

lemma look_rename:
  assumes "inv m" and "look m k = None"
  shows "look (erase k' (emplace k v m)) = (look m)(k \<mapsto> v, k' := None)"
  using assms by (simp add: look_erase inv_emplace look_emplace)

end

interpretation om: finite_map "[] :: ('k::linorder, 'v) omap" map_of om_emplace om_erase length om_inv
  by unfold_locales
    (simp_all add: map_of_om_emplace om_inv_emplace map_of_om_erase om_inv_erase
      length_om_card finite_dom_map_of)

end
