(* ===== verification/Data_Manager.thy ===== *)
theory Data_Manager
  imports Queue Ordered_Map
begin

text \<open>
  The class \<open>DataManager<T>\<close> of include/dataManager.hpp and src/dataManager.cpp: a vector
  of input queues and a vector of output queues, two maps from application names to
  indices into them, and the loop that moves what the feeders pushed to the consumers.

  Every operation is one definition over the record \<open>DataManager\<close>. Operations that index
  a vector return \<open>res\<close>. Logging has no effect on the state and is left out.
\<close>

section \<open>Configuration and state\<close>

datatype MODE = BROADCAST | MAP

text \<open>
  The macro \<open>STRING_TO_CONF\<close>: the text is lower-cased first, and the lower-cased text is
  what the exception shows.
\<close>

definition STRING_TO_CONF :: "string \<Rightarrow> MODE res" where
  "STRING_TO_CONF str =
     (let input = map tolower str in
      if input = ''broadcast'' then Inr BROADCAST
      else if input = ''map'' then Inr MAP
      else Inl (Invalid_argument (''Invalid mode: '' @ input)))"

record DataManagerConf =
  conf_name :: string
  conf_maxFeeders :: "8 word"
  conf_maxConsumers :: "8 word"
  conf_mode :: MODE

record 'a DataManager =
  m_Name :: string
  m_maxNbInQueues :: "8 word"
  m_maxNbOutQueues :: "8 word"
  m_mode :: MODE
  isRunning :: bool
  m_inQueues :: "'a Q list"
  m_outQueues :: "'a Q list"
  m_inQueuesIds :: "(string, int) omap"
  m_outQueuesIds :: "(string, int) omap"

text \<open>The constructor leaves \<open>isRunning\<close> uninitialised: \<open>junk\<close> is whatever is there.\<close>

definition DataManager_ctor :: "bool \<Rightarrow> DataManagerConf \<Rightarrow> 'a DataManager" where
  "DataManager_ctor junk conf =
     \<lparr>m_Name = conf_name conf, m_maxNbInQueues = conf_maxFeeders conf,
      m_maxNbOutQueues = conf_maxConsumers conf, m_mode = conf_mode conf,
      isRunning = junk, m_inQueues = [], m_outQueues = [],
      m_inQueuesIds = [], m_outQueuesIds = []\<rparr>"

section \<open>The singleton\<close>

text \<open>The static pointer \<open>m_Pinstance\<close>, with the object it points to.\<close>

definition getInstance ::
  "bool \<Rightarrow> DataManagerConf \<Rightarrow> 'a DataManager option \<Rightarrow> 'a DataManager \<times> 'a DataManager option"
where
  "getInstance junk conf m_Pinstance =
     (case m_Pinstance of
        None \<Rightarrow> (let p = DataManager_ctor junk conf in (p, Some p))
      | Some p \<Rightarrow> (p, Some p))"

definition deleteInstance :: "'a DataManager option \<Rightarrow> 'a DataManager option" where
  "deleteInstance m_Pinstance = None"

section \<open>Operations\<close>

definition getConf :: "'a DataManager \<Rightarrow> (string, int) omap \<times> (string, int) omap" where
  "getConf dm = (m_inQueuesIds dm, m_outQueuesIds dm)"

definition getName :: "'a DataManager \<Rightarrow> string" where
  "getName dm = m_Name dm"

definition DM_reset :: "'a DataManager \<Rightarrow> 'a DataManager" where
  "DM_reset dm = dm\<lparr>m_inQueues := [], m_outQueues := [], m_inQueuesIds := [], m_outQueuesIds := []\<rparr>"

text \<open>
  Registration. The index of a new entry is the size of the map, and a new queue is
  appended to the vector; when the map is full the entry of the name "empty", if there is
  one, is handed over.
\<close>

definition setFeeder :: "string \<Rightarrow> 'a DataManager \<Rightarrow> bool \<times> 'a DataManager" where
  "setFeeder appId dm =
     (if om_count (m_inQueuesIds dm) appId = 0 then
        if length (m_inQueuesIds dm) < unat (m_maxNbInQueues dm) then
          (True, dm\<lparr>m_inQueuesIds := om_emplace appId (int (length (m_inQueuesIds dm))) (m_inQueuesIds dm),
                    m_inQueues := m_inQueues dm @ [Q_new]\<rparr>)
        else
          (case map_of (m_inQueuesIds dm) ''empty'' of
             Some f \<Rightarrow> (True, dm\<lparr>m_inQueuesIds := om_erase ''empty'' (om_emplace appId f (m_inQueuesIds dm))\<rparr>)
           | None \<Rightarrow> (False, dm))
      else (False, dm))"

definition remFeeder :: "string \<Rightarrow> 'a DataManager \<Rightarrow> bool \<times> 'a DataManager" where
  "remFeeder appId dm =
     (if om_count (m_inQueuesIds dm) appId = 0 then (False, dm)
      else (True, dm\<lparr>m_inQueuesIds := om_erase appId (m_inQueuesIds dm)\<rparr>))"

definition setConsumer :: "string \<Rightarrow> 'a DataManager \<Rightarrow> bool \<times> 'a DataManager" where
  "setConsumer appId dm =
     (if om_count (m_outQueuesIds dm) appId = 0 then
        if length (m_outQueuesIds dm) < unat (m_maxNbOutQueues dm) then
          (True, dm\<lparr>m_outQueuesIds := om_emplace appId (int (length (m_outQueuesIds dm))) (m_outQueuesIds dm),
                    m_outQueues := m_outQueues dm @ [Q_new]\<rparr>)
        else
          (case map_of (m_outQueuesIds dm) ''empty'' of
             Some f \<Rightarrow> (True, dm\<lparr>m_outQueuesIds := om_erase ''empty'' (om_emplace appId f (m_outQueuesIds dm))\<rparr>)
           | None \<Rightarrow> (False, dm))
      else (False, dm))"

text \<open>\<open>push\<close>: data for a name that is not registered is dropped with a log message.\<close>

definition DM_push :: "'a \<Rightarrow> string \<Rightarrow> 'a DataManager \<Rightarrow> 'a DataManager res" where
  "DM_push data pushId dm =
     (case map_of (m_inQueuesIds dm) pushId of
        None \<Rightarrow> Inr dm
      | Some i \<Rightarrow>
          (case vec_at (m_inQueues dm) i of
             Inl e \<Rightarrow> Inl e
           | Inr q \<Rightarrow> Inr (dm\<lparr>m_inQueues := (m_inQueues dm)[nat i := Q_push data q]\<rparr>)))"

definition DM_pop :: "string \<Rightarrow> 'a list \<Rightarrow> 'a DataManager \<Rightarrow> (bool \<times> 'a list \<times> 'a DataManager) res" where
  "DM_pop popId data dm =
     (case map_of (m_outQueuesIds dm) popId of
        None \<Rightarrow> Inr (False, data, dm)
      | Some i \<Rightarrow>
          (case vec_at (m_outQueues dm) i of
             Inl e \<Rightarrow> Inl e
           | Inr q \<Rightarrow>
               if \<not> Q_empty q then
                 (case Q_move q data of
                    (q', data') \<Rightarrow> Inr (True, data', dm\<lparr>m_outQueues := (m_outQueues dm)[nat i := q']\<rparr>))
               else Inr (False, data, dm)))"

text \<open>
  One pass of the broadcast: the loop over the input queues, with the list of all output
  indices. \<open>broadcast_loop\<close> returns the input queues it went over and the output queues.
\<close>

fun broadcast_loop :: "int list \<Rightarrow> 'a Q list \<Rightarrow> 'a Q list \<Rightarrow> ('a Q list \<times> 'a Q list) res" where
  "broadcast_loop ids [] outs = Inr ([], outs)"
| "broadcast_loop ids (it # ins) outs =
     (case (if \<not> Q_empty it \<and> length ids > 0 then Q_copy_to it outs ids else Inr (it, outs)) of
        Inl e \<Rightarrow> Inl e
      | Inr (it', outs') \<Rightarrow>
          (case broadcast_loop ids ins outs' of
             Inl e \<Rightarrow> Inl e
           | Inr (ins', outs'') \<Rightarrow> Inr (it' # ins', outs'')))"

definition manageBroadcast :: "'a DataManager \<Rightarrow> 'a DataManager res" where
  "manageBroadcast dm =
     (let broadCastList = map int [0..<length (m_outQueues dm)] in
      case broadcast_loop broadCastList (m_inQueues dm) (m_outQueues dm) of
        Inl e \<Rightarrow> Inl e
      | Inr (ins, outs) \<Rightarrow> Inr (dm\<lparr>m_inQueues := ins, m_outQueues := outs\<rparr>))"

definition manageMap :: "'a DataManager \<Rightarrow> 'a DataManager" where
  "manageMap dm = dm"

definition DM_pass :: "'a DataManager \<Rightarrow> 'a DataManager res" where
  "DM_pass dm = (if m_mode dm = BROADCAST then manageBroadcast dm else Inr (manageMap dm))"

text \<open>
  \<open>run\<close> is a do-while loop on a flag that other threads write. The list says what the rest
  of the program does to the data manager between one pass and the test of the flag;
  \<open>None\<close> is "still in the loop when the list is used up".
\<close>

fun DM_run_loop :: "('a DataManager \<Rightarrow> 'a DataManager) list \<Rightarrow> 'a DataManager \<Rightarrow> 'a DataManager res option" where
  "DM_run_loop [] dm = None"
| "DM_run_loop (env # envs) dm =
     (case DM_pass dm of
        Inl e \<Rightarrow> Some (Inl e)
      | Inr dm' \<Rightarrow>
          (let dm'' = env dm' in
           if isRunning dm'' then DM_run_loop envs dm'' else Some (Inr dm'')))"

definition DM_run :: "('a DataManager \<Rightarrow> 'a DataManager) list \<Rightarrow> 'a DataManager \<Rightarrow> 'a DataManager res option" where
  "DM_run envs dm = DM_run_loop envs (dm\<lparr>isRunning := True\<rparr>)"

text \<open>\<open>stop\<close> also notifies the condition variable of every queue, which leaves the contents.\<close>

definition DM_stop :: "'a DataManager \<Rightarrow> bool \<times> 'a DataManager" where
  "DM_stop dm = (True, dm\<lparr>isRunning := False\<rparr>)"

section \<open>Slot tables\<close>

text \<open>
  What registration keeps true of a map from names to queue indices, proved from the laws
  of \<open>finite_map\<close> alone. \<open>weak_slots\<close>: every name has an existing queue. \<open>strong_slots\<close>:
  moreover the names and the queues are in bijection.
\<close>

context finite_map
begin

lemma ran_emplace_new:
  "inv m \<Longrightarrow> look m k = None \<Longrightarrow> ran (look (emplace k v m)) = insert v (ran (look m))"
  by (simp add: look_emplace)

lemma inj_emplace_new:
  assumes "inv m" and "look m k = None" and "v \<notin> ran (look m)"
    and "inj_on (look m) (dom (look m))"
  shows "inj_on (look (emplace k v m)) (dom (look (emplace k v m)))"
  using assms by (auto simp: look_emplace inj_on_def ran_def)

lemma ran_erase: "inv m \<Longrightarrow> ran (look (erase k m)) \<subseteq> ran (look m)"
  by (auto simp: look_erase ran_def)

lemma ran_rename:
  assumes "inv m" and "look m k = None" and "look m k' = Some w"
  shows "ran (look (erase k' (emplace k w m))) \<subseteq> ran (look m)"
  using assms by (auto simp: look_rename ran_def split: if_splits)

lemma ran_rename_inj:
  assumes "inv m" and "look m k = None" and "look m k' = Some w"
  shows "ran (look (erase k' (emplace k w m))) = ran (look m)"
proof -
  have "k \<noteq> k'" using assms by auto
  have "x \<in> ran (look (erase k' (emplace k w m)))" if "x \<in> ran (look m)" for x
  proof (cases "x = w")
    case True
    with assms \<open>k \<noteq> k'\<close> show ?thesis by (auto simp: look_rename ran_def intro!: exI [of _ k])
  next
    case False
    from that obtain j where j: "look m j = Some x" by (auto simp: ran_def)
    with False assms have "j \<noteq> k'" and "j \<noteq> k" by auto
    with j assms show ?thesis by (auto simp: look_rename ran_def intro!: exI [of _ j])
  qed
  with ran_rename [OF assms] show ?thesis by blast
qed

lemma inj_rename:
  assumes "inv m" and "look m k = None" and "look m k' = Some w"
    and "inj_on (look m) (dom (look m))"
  shows "inj_on (look (erase k' (emplace k w m))) (dom (look (erase k' (emplace k w m))))"
  using assms by (auto simp: look_rename inj_on_def dom_def split: if_splits)

end

definition weak_slots :: "(string, int) omap \<Rightarrow> 'q list \<Rightarrow> bool" where
  "weak_slots ids qs \<longleftrightarrow> om_inv ids \<and> ran (map_of ids) \<subseteq> int ` {..<length qs}"

definition strong_slots :: "(string, int) omap \<Rightarrow> 'q list \<Rightarrow> bool" where
  "strong_slots ids qs \<longleftrightarrow> om_inv ids \<and> length qs = length ids
     \<and> ran (map_of ids) = int ` {..<length qs} \<and> inj_on (map_of ids) (dom (map_of ids))"

lemma strong_weak: "strong_slots ids qs \<Longrightarrow> weak_slots ids qs"
  by (simp add: strong_slots_def weak_slots_def)

lemma weak_slots_in_range: "weak_slots ids qs \<Longrightarrow> map_of ids k = Some i \<Longrightarrow> in_range qs i"
  by (force simp: weak_slots_def in_range_def ran_def)

lemma strong_slots_inj:
  "strong_slots ids qs \<Longrightarrow> map_of ids k = Some i \<Longrightarrow> map_of ids k' = Some i \<Longrightarrow> k = k'"
  unfolding strong_slots_def inj_on_def by (metis domI)

lemma slots_length_cong:
  "length qs = length qs' \<Longrightarrow> weak_slots ids qs = weak_slots ids qs'"
  "length qs = length qs' \<Longrightarrow> strong_slots ids qs = strong_slots ids qs'"
  by (simp_all add: weak_slots_def strong_slots_def)

lemma weak_slots_emplace:
  assumes "weak_slots ids qs" and "map_of ids k = None" and "length ids \<le> length qs"
  shows "weak_slots (om_emplace k (int (length ids)) ids) (qs @ [q])"
  using assms by (auto simp: weak_slots_def om.ran_emplace_new om_inv_emplace)

lemma strong_slots_emplace:
  assumes "strong_slots ids qs" and "map_of ids k = None"
  shows "strong_slots (om_emplace k (int (length ids)) ids) (qs @ [q])"
proof -
  have "int (length ids) \<notin> ran (map_of ids)" using assms by (auto simp: strong_slots_def)
  with assms show ?thesis
    by (auto simp: strong_slots_def om.ran_emplace_new om_inv_emplace om.inj_emplace_new
        om.size_emplace_new lessThan_Suc)
qed

lemma weak_slots_rename:
  assumes "weak_slots ids qs" and "map_of ids k = None" and "map_of ids k' = Some w"
  shows "weak_slots (om_erase k' (om_emplace k w ids)) qs"
  using assms om.ran_rename [of ids k k' w]
  by (auto simp: weak_slots_def om_inv_erase om_inv_emplace)

lemma strong_slots_rename:
  assumes "strong_slots ids qs" and "map_of ids k = None" and "map_of ids k' = Some w"
  shows "strong_slots (om_erase k' (om_emplace k w ids)) qs"
  using assms
  by (simp add: strong_slots_def om_inv_erase om_inv_emplace om.ran_rename_inj om.inj_rename
      om.size_rename)

lemma weak_slots_erase: "weak_slots ids qs \<Longrightarrow> weak_slots (om_erase k ids) qs"
  using om.ran_erase [of ids k] by (auto simp: weak_slots_def om_inv_erase)

lemma slots_Nil [simp]: "weak_slots [] qs" "strong_slots [] []"
  by (simp_all add: weak_slots_def strong_slots_def)

section \<open>The invariant of the data manager\<close>

text \<open>
  On the consumer side names and queues are in bijection. On the feeder side
  \<open>remFeeder\<close> breaks the bijection, and only \<open>weak_slots\<close> survives.
\<close>

definition in_inv :: "'a DataManager \<Rightarrow> bool" where
  "in_inv dm \<longleftrightarrow> weak_slots (m_inQueuesIds dm) (m_inQueues dm)
     \<and> length (m_inQueuesIds dm) \<le> length (m_inQueues dm)
     \<and> length (m_inQueuesIds dm) \<le> unat (m_maxNbInQueues dm)"

definition out_inv :: "'a DataManager \<Rightarrow> bool" where
  "out_inv dm \<longleftrightarrow> strong_slots (m_outQueuesIds dm) (m_outQueues dm)
     \<and> length (m_outQueuesIds dm) \<le> unat (m_maxNbOutQueues dm)"

definition dm_inv :: "'a DataManager \<Rightarrow> bool" where
  "dm_inv dm \<longleftrightarrow> in_inv dm \<and> out_inv dm"

lemma dm_inv_ctor [inv_intros]: "dm_inv (DataManager_ctor junk conf)"
  by (simp add: dm_inv_def in_inv_def out_inv_def DataManager_ctor_def)

lemma dm_inv_reset [inv_intros]: "dm_inv (DM_reset dm)"
  by (simp add: dm_inv_def in_inv_def out_inv_def DM_reset_def)

lemma dm_inv_stop [inv_intros]: "dm_inv dm \<Longrightarrow> dm_inv (snd (DM_stop dm))"
  by (simp add: dm_inv_def in_inv_def out_inv_def DM_stop_def)

lemma dm_inv_setRunning [inv_intros]: "dm_inv dm \<Longrightarrow> dm_inv (dm\<lparr>isRunning := b\<rparr>)"
  by (simp add: dm_inv_def in_inv_def out_inv_def)

lemma dm_inv_setFeeder [inv_intros]:
  assumes "dm_inv dm" shows "dm_inv (snd (setFeeder appId dm))"
  using assms
  by (auto simp: dm_inv_def in_inv_def out_inv_def setFeeder_def weak_slots_emplace
      weak_slots_rename om.size_emplace_new om.size_rename weak_slots_def [of "m_inQueuesIds dm"]
      split: option.splits)

lemma dm_inv_remFeeder [inv_intros]:
  assumes "dm_inv dm" shows "dm_inv (snd (remFeeder appId dm))"
proof -
  have "length (om_erase appId (m_inQueuesIds dm)) \<le> length (m_inQueuesIds dm)"
    by (simp add: om_erase_def)
  with assms show ?thesis
    by (auto simp: dm_inv_def in_inv_def out_inv_def remFeeder_def weak_slots_erase)
qed

lemma dm_inv_setConsumer [inv_intros]:
  assumes "dm_inv dm" shows "dm_inv (snd (setConsumer appId dm))"
  using assms
  by (auto simp: dm_inv_def in_inv_def out_inv_def setConsumer_def strong_slots_emplace
      strong_slots_rename om.size_emplace_new om.size_rename strong_slots_def [of "m_outQueuesIds dm"]
      split: option.splits)

text \<open>The operations that move data only replace queues in place.\<close>

lemma dm_inv_queues [inv_intros]:
  "dm_inv dm \<Longrightarrow> length ins = length (m_inQueues dm) \<Longrightarrow> length outs = length (m_outQueues dm) \<Longrightarrow>
   dm_inv (dm\<lparr>m_inQueues := ins, m_outQueues := outs\<rparr>)"
  using slots_length_cong [of ins "m_inQueues dm"] slots_length_cong [of outs "m_outQueues dm"]
  by (simp add: dm_inv_def in_inv_def out_inv_def)

lemma in_slot: "dm_inv dm \<Longrightarrow> map_of (m_inQueuesIds dm) k = Some i \<Longrightarrow> in_range (m_inQueues dm) i"
  unfolding dm_inv_def in_inv_def using weak_slots_in_range by blast

lemma out_slot: "dm_inv dm \<Longrightarrow> map_of (m_outQueuesIds dm) k = Some i \<Longrightarrow> in_range (m_outQueues dm) i"
  unfolding dm_inv_def out_inv_def using weak_slots_in_range strong_weak by blast

lemma out_slot_inj:
  "dm_inv dm \<Longrightarrow> map_of (m_outQueuesIds dm) k = Some i \<Longrightarrow>
   map_of (m_outQueuesIds dm) k' = Some i \<Longrightarrow> k = k'"
  unfolding dm_inv_def out_inv_def using strong_slots_inj by blast

lemma DM_push_ok:
  assumes "dm_inv dm"
  shows "DM_push x f dm = Inr (case map_of (m_inQueuesIds dm) f of
      None \<Rightarrow> dm
    | Some i \<Rightarrow> dm\<lparr>m_inQueues := (m_inQueues dm)[nat i := Q_push x (m_inQueues dm ! nat i)]\<rparr>)"
  using in_slot [OF assms] by (auto simp: DM_push_def split: option.split)

lemma dm_inv_push [inv_intros]: "dm_inv dm \<Longrightarrow> DM_push x f dm = Inr dm' \<Longrightarrow> dm_inv dm'"
  using dm_inv_queues [of dm _ "m_outQueues dm"]
  by (auto simp: DM_push_ok split: option.splits)

lemma DM_pop_ok:
  assumes "dm_inv dm"
  shows "DM_pop c data dm = Inr (case map_of (m_outQueuesIds dm) c of
      None \<Rightarrow> (False, data, dm)
    | Some i \<Rightarrow>
        (let q = m_outQueues dm ! nat i in
         if queue q = [] then (False, data, dm)
         else (True, data @ queue q, dm\<lparr>m_outQueues := (m_outQueues dm)[nat i := Q_new]\<rparr>)))"
  using out_slot [OF assms]
  by (auto simp: DM_pop_def Q_move_def Q_new_def Let_def split: option.split)

lemma DM_pop_slot:
  assumes "dm_inv dm" and "map_of (m_outQueuesIds dm) c = Some i"
  shows "DM_pop c data dm = Inr (queue (m_outQueues dm ! nat i) \<noteq> [],
      data @ queue (m_outQueues dm ! nat i), dm\<lparr>m_outQueues := (m_outQueues dm)[nat i := Q_new]\<rparr>)"
proof -
  have "(m_outQueues dm)[nat i := Q_new] = m_outQueues dm" if "queue (m_outQueues dm ! nat i) = []"
    using that by (metis Q_eq_new_iff list_update_id)
  with assms show ?thesis by (simp add: DM_pop_ok Let_def)
qed

lemma dm_inv_pop [inv_intros]: "dm_inv dm \<Longrightarrow> DM_pop c data dm = Inr (b, data', dm') \<Longrightarrow> dm_inv dm'"
  using dm_inv_queues [of dm "m_inQueues dm"]
  by (auto simp: DM_pop_ok Let_def split: option.splits if_splits)

section \<open>One pass\<close>

lemma Q_copy_to_all:
  "Q_copy_to q outs (map int [0..<length outs]) = Inr (Q_new, map (Q_copy q) outs)"
proof -
  have "list_all (in_range outs) (map int [0..<length outs])"
    and "distinct (map int [0..<length outs])"
    by (simp_all add: list_all_iff distinct_map)
  note loop = Q_copy_loop_distinct [OF this, of q]
  have "map (\<lambda>j. if int j \<in> set (map int [0..<length outs]) then Q_copy q (outs ! j) else outs ! j)
      [0..<length outs] = map (Q_copy q) outs"
    by (rule nth_equalityI) auto
  with loop show ?thesis by (simp add: Q_copy_to_def Q_new_def)
qed

lemma broadcast_loop_spec:
  "outs \<noteq> [] \<Longrightarrow> broadcast_loop (map int [0..<length outs]) ins outs =
   Inr (map (\<lambda>_. Q_new) ins, map (\<lambda>q. \<lparr>queue = queue q @ concat (map queue ins)\<rparr>) outs)"
proof (induction ins arbitrary: outs)
  case Nil
  then show ?case by simp
next
  case (Cons it ins)
  let ?outs = "map (Q_copy it) outs"
  have step: "(if \<not> Q_empty it \<and> length (map int [0..<length outs]) > 0
      then Q_copy_to it outs (map int [0..<length outs]) else Inr (it, outs)) = Inr (Q_new, ?outs)"
    using Cons.prems by (auto simp: Q_copy_to_all Q_eq_new_iff Q_copy_from_empty)
  have "broadcast_loop (map int [0..<length outs]) ins ?outs =
      Inr (map (\<lambda>_. Q_new) ins, map (\<lambda>q. \<lparr>queue = queue q @ concat (map queue ins)\<rparr>) ?outs)"
    using Cons.IH [of ?outs] Cons.prems by simp
  with step show ?case by (simp add: comp_def Q_copy_eq)
qed

lemma broadcast_loop_no_outs: "broadcast_loop [] ins outs = Inr (ins, outs)"
  by (induction ins) simp_all

lemma manageBroadcast_eq:
  "manageBroadcast dm = Inr (if m_outQueues dm = [] then dm else
     dm\<lparr>m_inQueues := map (\<lambda>_. Q_new) (m_inQueues dm),
        m_outQueues := map (\<lambda>q. \<lparr>queue = queue q @ concat (map queue (m_inQueues dm))\<rparr>) (m_outQueues dm)\<rparr>)"
  by (simp add: manageBroadcast_def broadcast_loop_spec broadcast_loop_no_outs)

lemma DM_pass_ok: "is_ok (DM_pass dm)"
  by (simp add: DM_pass_def manageBroadcast_eq)

lemma dm_inv_pass [inv_intros]: "dm_inv dm \<Longrightarrow> DM_pass dm = Inr dm' \<Longrightarrow> dm_inv dm'"
  by (auto simp: DM_pass_def manageMap_def manageBroadcast_eq intro: dm_inv_queues split: if_splits)

section \<open>Reachable data managers\<close>

text \<open>Any sequence of calls, in any order, from a new object.\<close>

inductive dm_step :: "'a DataManager \<Rightarrow> 'a DataManager \<Rightarrow> bool" where
  step_setFeeder: "dm_step dm (snd (setFeeder appId dm))"
| step_remFeeder: "dm_step dm (snd (remFeeder appId dm))"
| step_setConsumer: "dm_step dm (snd (setConsumer appId dm))"
| step_push: "DM_push data pushId dm = Inr dm' \<Longrightarrow> dm_step dm dm'"
| step_pop: "DM_pop popId data dm = Inr (b, data', dm') \<Longrightarrow> dm_step dm dm'"
| step_start: "dm_step dm (dm\<lparr>isRunning := True\<rparr>)"
| step_pass: "DM_pass dm = Inr dm' \<Longrightarrow> dm_step dm dm'"
| step_stop: "dm_step dm (snd (DM_stop dm))"
| step_reset: "dm_step dm (DM_reset dm)"

inductive dm_reachable :: "'a DataManager \<Rightarrow> bool" where
  reach_ctor: "dm_reachable (DataManager_ctor junk conf)"
| reach_step: "dm_reachable dm \<Longrightarrow> dm_step dm dm' \<Longrightarrow> dm_reachable dm'"

lemma dm_step_inv: "dm_step dm dm' \<Longrightarrow> dm_inv dm \<Longrightarrow> dm_inv dm'"
  by (induction rule: dm_step.induct) (blast intro: inv_intros)+

lemma dm_reachable_inv: "dm_reachable dm \<Longrightarrow> dm_inv dm"
  by (induction rule: dm_reachable.induct) (blast intro: inv_intros dm_step_inv)+

text \<open>The configuration is constant.\<close>

lemma DM_frame [dm_simps]:
  "m_mode (snd (setFeeder a dm)) = m_mode dm"
  "m_mode (snd (remFeeder a dm)) = m_mode dm"
  "m_mode (snd (setConsumer a dm)) = m_mode dm"
  "m_mode (snd (DM_stop dm)) = m_mode dm"
  "m_mode (DM_reset dm) = m_mode dm"
  by (auto simp: setFeeder_def remFeeder_def setConsumer_def DM_stop_def DM_reset_def
      split: option.split)

lemma DM_push_mode: "DM_push x f dm = Inr dm' \<Longrightarrow> m_mode dm' = m_mode dm"
  by (auto simp: DM_push_def split: option.splits sum.splits)

lemma DM_pop_mode: "DM_pop c data dm = Inr (b, data', dm') \<Longrightarrow> m_mode dm' = m_mode dm"
  by (auto simp: DM_pop_def split: option.splits sum.splits if_splits prod.splits)

lemma DM_pass_mode: "DM_pass dm = Inr dm' \<Longrightarrow> m_mode dm' = m_mode dm"
  by (auto simp: DM_pass_def manageMap_def manageBroadcast_eq split: if_splits)

section \<open>The interface of the data manager to its clients\<close>

text \<open>
  What a feeder and a consumer rely on. \<open>pending d f\<close>: what feeder \<open>f\<close> pushed and is
  not broadcast yet; \<open>ready d c\<close>: what consumer \<open>c\<close> can pop; both \<open>None\<close> for a name
  that is not registered.
\<close>

fun push_all :: "('a \<Rightarrow> string \<Rightarrow> 'd \<Rightarrow> 'd res) \<Rightarrow> 'a list \<Rightarrow> string \<Rightarrow> 'd \<Rightarrow> 'd res" where
  "push_all push [] f d = Inr d"
| "push_all push (x # xs) f d =
     (case push x f d of Inl e \<Rightarrow> Inl e | Inr d' \<Rightarrow> push_all push xs f d')"

locale data_handler =
  fixes inv :: "'d \<Rightarrow> bool"
    and pending :: "'d \<Rightarrow> string \<Rightarrow> 'a list option"
    and ready :: "'d \<Rightarrow> string \<Rightarrow> 'a list option"
    and push :: "'a \<Rightarrow> string \<Rightarrow> 'd \<Rightarrow> 'd res"
    and pop :: "string \<Rightarrow> 'a list \<Rightarrow> 'd \<Rightarrow> (bool \<times> 'a list \<times> 'd) res"
  assumes push_known: "inv d \<Longrightarrow> pending d f = Some xs \<Longrightarrow>
      \<exists>d'. push x f d = Inr d' \<and> inv d' \<and> pending d' f = Some (xs @ [x]) \<and> ready d' = ready d"
    and push_unknown: "inv d \<Longrightarrow> pending d f = None \<Longrightarrow> push x f d = Inr d"
    and pop_known: "inv d \<Longrightarrow> ready d c = Some xs \<Longrightarrow>
      \<exists>d'. pop c data d = Inr (xs \<noteq> [], data @ xs, d') \<and> inv d'
        \<and> ready d' = (ready d)(c \<mapsto> []) \<and> pending d' = pending d"
    and pop_unknown: "inv d \<Longrightarrow> ready d c = None \<Longrightarrow> pop c data d = Inr (False, data, d)"
begin

lemma push_all_known:
  "inv d \<Longrightarrow> pending d f = Some ys \<Longrightarrow>
   \<exists>d'. push_all push xs f d = Inr d' \<and> inv d' \<and> pending d' f = Some (ys @ xs) \<and> ready d' = ready d"
proof (induction xs arbitrary: d ys)
  case Nil
  then show ?case by simp
next
  case (Cons x xs)
  from push_known [OF Cons.prems] obtain d1 where d1: "push x f d = Inr d1" "inv d1"
    "pending d1 f = Some (ys @ [x])" "ready d1 = ready d" by blast
  from Cons.IH [OF d1(2,3)] d1 show ?case by auto
qed

lemma push_all_unknown: "inv d \<Longrightarrow> pending d f = None \<Longrightarrow> push_all push xs f d = Inr d"
  by (induction xs) (simp_all add: push_unknown)

lemma push_ok: "inv d \<Longrightarrow> is_ok (push x f d)"
  using push_known push_unknown by (cases "pending d f") (metis is_ok_simps(2))+

lemma push_all_ok:
  assumes "inv d" shows "is_ok (push_all push xs f d)"
proof (cases "pending d f")
  case None
  with assms show ?thesis by (simp add: push_all_unknown)
next
  case (Some ys)
  from push_all_known [OF assms Some] show ?thesis by (metis is_ok_simps(2))
qed

lemma pop_ok: "inv d \<Longrightarrow> is_ok (pop c data d)"
  using pop_known pop_unknown by (cases "ready d c") (metis is_ok_simps(2))+

text \<open>A second \<open>pop\<close> with nothing in between finds nothing: no element is popped twice.\<close>

lemma pop_once:
  assumes "inv d" and "ready d c = Some xs"
  shows "\<exists>d'. pop c data d = Inr (xs \<noteq> [], data @ xs, d') \<and>
    (\<exists>d''. pop c data2 d' = Inr (False, data2, d''))"
proof -
  from pop_known [OF assms] obtain d' where d': "pop c data d = Inr (xs \<noteq> [], data @ xs, d')"
    "inv d'" "ready d' = (ready d)(c \<mapsto> [])" by blast
  from d' have "ready d' c = Some []" by simp
  from pop_known [OF d'(2) this] d'(1) show ?thesis by fastforce
qed

end

definition dm_pending :: "'a DataManager \<Rightarrow> string \<Rightarrow> 'a list option" where
  "dm_pending dm f = map_option (\<lambda>i. queue (m_inQueues dm ! nat i)) (map_of (m_inQueuesIds dm) f)"

definition dm_ready :: "'a DataManager \<Rightarrow> string \<Rightarrow> 'a list option" where
  "dm_ready dm c = map_option (\<lambda>i. queue (m_outQueues dm ! nat i)) (map_of (m_outQueuesIds dm) c)"

lemma dm_views_frame [simp]:
  "dm_ready (dm\<lparr>m_inQueues := ins\<rparr>) = dm_ready dm"
  "dm_ready (dm\<lparr>isRunning := b\<rparr>) = dm_ready dm"
  "dm_pending (dm\<lparr>m_outQueues := outs\<rparr>) = dm_pending dm"
  "dm_pending (dm\<lparr>isRunning := b\<rparr>) = dm_pending dm"
  by (simp_all add: dm_ready_def dm_pending_def fun_eq_iff)

lemma dm_push_known:
  assumes "dm_inv dm" and "dm_pending dm f = Some xs"
  shows "\<exists>dm'. DM_push x f dm = Inr dm' \<and> dm_inv dm' \<and> dm_pending dm' f = Some (xs @ [x])
    \<and> dm_ready dm' = dm_ready dm"
proof -
  from assms(2) obtain i where i: "map_of (m_inQueuesIds dm) f = Some i"
    and xs: "queue (m_inQueues dm ! nat i) = xs" by (auto simp: dm_pending_def)
  let ?dm = "dm\<lparr>m_inQueues := (m_inQueues dm)[nat i := Q_push x (m_inQueues dm ! nat i)]\<rparr>"
  have push: "DM_push x f dm = Inr ?dm" using assms(1) i by (simp add: DM_push_ok)
  moreover have "dm_pending ?dm f = Some (xs @ [x])"
    using i xs in_slot [OF assms(1) i] by (simp add: dm_pending_def in_range_nat)
  ultimately show ?thesis using dm_inv_push [OF assms(1) push] by simp
qed

lemma dm_pop_known:
  assumes "dm_inv dm" and "dm_ready dm c = Some xs"
  shows "\<exists>dm'. DM_pop c data dm = Inr (xs \<noteq> [], data @ xs, dm') \<and> dm_inv dm'
    \<and> dm_ready dm' = (dm_ready dm)(c \<mapsto> []) \<and> dm_pending dm' = dm_pending dm"
proof -
  from assms(2) obtain i where i: "map_of (m_outQueuesIds dm) c = Some i"
    and xs: "queue (m_outQueues dm ! nat i) = xs" by (auto simp: dm_ready_def)
  let ?dm = "dm\<lparr>m_outQueues := (m_outQueues dm)[nat i := Q_new]\<rparr>"
  have slot: "nat i < length (m_outQueues dm)" using out_slot [OF assms(1) i] by (rule in_range_nat)
  have pop: "DM_pop c data dm = Inr (xs \<noteq> [], data @ xs, ?dm)"
    using DM_pop_slot [OF assms(1) i] xs by simp
  have "dm_ready ?dm = (dm_ready dm)(c \<mapsto> [])"
  proof
    fix c'
    show "dm_ready ?dm c' = ((dm_ready dm)(c \<mapsto> [])) c'"
    proof (cases "map_of (m_outQueuesIds dm) c'")
      case None
      with i show ?thesis by (auto simp: dm_ready_def)
    next
      case (Some j)
      then have "nat i = nat j \<longleftrightarrow> c' = c"
        using in_range_nat_inj [OF out_slot [OF assms(1) i] out_slot [OF assms(1) Some]]
          out_slot_inj [OF assms(1) i, of c'] i by auto
      with Some i slot show ?thesis by (auto simp: dm_ready_def nth_list_update)
    qed
  qed
  with pop dm_inv_pop [OF assms(1) pop] show ?thesis by simp
qed

interpretation dm: data_handler dm_inv dm_pending dm_ready DM_push DM_pop
proof unfold_locales
  show "DM_push x f d = Inr d" if "dm_inv d" and "dm_pending d f = None" for d f and x :: 'a
    using that by (simp add: DM_push_def dm_pending_def)
  show "DM_pop c data d = Inr (False, data, d)" if "dm_inv d" and "dm_ready d c = None"
    for d c and data :: "'a list"
    using that by (simp add: DM_pop_def dm_ready_def)
qed (fact dm_push_known dm_pop_known)+

end
