(* ===== verification/Data_Manager_Spec.thy ===== *)
theory Data_Manager_Spec
  imports Data_Manager
begin

text \<open>
  What the data manager promises: the abstract hub it implements, and the properties of
  registration, of one broadcast pass, of the mode \<open>MAP\<close> and of the \<open>run\<close> loop, each for
  every data manager that any sequence of calls can produce.
\<close>

section \<open>The abstract hub\<close>

text \<open>
  A hub has numbered inboxes, a route from feeder names to inbox numbers and one outbox
  per consumer name. No indices on the consumer side: two consumers cannot interfere.
\<close>

record 'a hub =
  inboxes :: "'a list list"
  route :: "string \<rightharpoonup> nat"
  outboxes :: "string \<rightharpoonup> 'a list"

definition hub_push :: "'a \<Rightarrow> string \<Rightarrow> 'a hub \<Rightarrow> 'a hub" where
  "hub_push x f h = (case route h f of
       None \<Rightarrow> h
     | Some i \<Rightarrow> h\<lparr>inboxes := (inboxes h)[i := inboxes h ! i @ [x]]\<rparr>)"

definition hub_broadcast :: "'a hub \<Rightarrow> 'a hub" where
  "hub_broadcast h =
     (if outboxes h = Map.empty then h
      else h\<lparr>inboxes := map (\<lambda>_. []) (inboxes h),
             outboxes := (\<lambda>c. map_option (\<lambda>b. b @ concat (inboxes h)) (outboxes h c))\<rparr>)"

definition hub_pop :: "string \<Rightarrow> 'a hub \<Rightarrow> 'a list \<times> 'a hub" where
  "hub_pop c h = (case outboxes h c of
       None \<Rightarrow> ([], h)
     | Some b \<Rightarrow> (b, h\<lparr>outboxes := (outboxes h)(c \<mapsto> [])\<rparr>))"

definition hub_of :: "'a DataManager \<Rightarrow> 'a hub" where
  "hub_of dm =
     \<lparr>inboxes = map queue (m_inQueues dm),
      route = (\<lambda>f. map_option nat (map_of (m_inQueuesIds dm) f)),
      outboxes = dm_ready dm\<rparr>"

lemma hub_of_push:
  assumes "dm_inv dm" shows "\<exists>dm'. DM_push x f dm = Inr dm' \<and> hub_of dm' = hub_push x f (hub_of dm)"
proof (cases "map_of (m_inQueuesIds dm) f")
  case None
  with assms show ?thesis by (simp add: DM_push_ok hub_of_def hub_push_def)
next
  case (Some i)
  with assms in_range_nat [OF in_slot [OF assms Some]] show ?thesis
    by (simp add: DM_push_ok hub_of_def hub_push_def map_update dm_ready_def)
qed

lemma no_consumers_iff: "dm_inv dm \<Longrightarrow> dm_ready dm = Map.empty \<longleftrightarrow> m_outQueues dm = []"
  by (auto simp: dm_inv_def out_inv_def strong_slots_def dm_ready_def fun_eq_iff)
    (metis length_0_conv list.exhaust map_of_eq_None_iff list.set_intros(1) imageI)

lemma dm_ready_broadcast:
  assumes "dm_inv dm" and "manageBroadcast dm = Inr dm'" and "m_outQueues dm \<noteq> []"
  shows "dm_ready dm' c = map_option (\<lambda>b. b @ concat (map queue (m_inQueues dm))) (dm_ready dm c)"
proof (cases "map_of (m_outQueuesIds dm) c")
  case None
  with assms show ?thesis by (auto simp: dm_ready_def manageBroadcast_eq)
next
  case (Some i)
  with assms in_range_nat [OF out_slot [OF assms(1) Some]] show ?thesis
    by (auto simp: dm_ready_def manageBroadcast_eq)
qed

lemma hub_of_broadcast:
  assumes "dm_inv dm"
  shows "\<exists>dm'. manageBroadcast dm = Inr dm' \<and> hub_of dm' = hub_broadcast (hub_of dm)"
proof (cases "m_outQueues dm = []")
  case True
  then have "dm_ready dm = Map.empty" using no_consumers_iff [OF assms] by simp
  with True show ?thesis by (simp add: manageBroadcast_eq hub_of_def hub_broadcast_def)
next
  case False
  obtain dm' where dm': "manageBroadcast dm = Inr dm'" by (simp add: manageBroadcast_eq)
  have "dm_ready dm \<noteq> Map.empty" using False no_consumers_iff [OF assms] by simp
  moreover have "hub_of dm' = \<lparr>inboxes = map (\<lambda>_. []) (m_inQueues dm), route = route (hub_of dm),
      outboxes = (\<lambda>c. map_option (\<lambda>b. b @ concat (map queue (m_inQueues dm))) (dm_ready dm c))\<rparr>"
    using dm' False dm_ready_broadcast [OF assms dm' False]
    by (auto simp: manageBroadcast_eq hub_of_def comp_def)
  ultimately show ?thesis using dm' by (simp add: hub_of_def hub_broadcast_def comp_def)
qed

lemma hub_of_pop:
  assumes "dm_inv dm"
  shows "\<exists>dm'. DM_pop c data dm =
      Inr (fst (hub_pop c (hub_of dm)) \<noteq> [], data @ fst (hub_pop c (hub_of dm)), dm')
    \<and> hub_of dm' = snd (hub_pop c (hub_of dm))"
proof (cases "dm_ready dm c")
  case None
  with dm.pop_unknown [OF assms None] show ?thesis by (simp add: hub_pop_def hub_of_def)
next
  case (Some xs)
  from dm.pop_known [OF assms Some, of data] obtain dm' where
    pop: "DM_pop c data dm = Inr (xs \<noteq> [], data @ xs, dm')" and
    ready: "dm_ready dm' = (dm_ready dm)(c \<mapsto> [])" by blast
  have "m_inQueues dm' = m_inQueues dm \<and> m_inQueuesIds dm' = m_inQueuesIds dm"
    using pop by (auto simp: DM_pop_def split: option.splits sum.splits if_splits prod.splits)
  with Some pop ready show ?thesis by (simp add: hub_pop_def hub_of_def)
qed

definition hub_pass :: "MODE \<Rightarrow> 'a hub \<Rightarrow> 'a hub" where
  "hub_pass mode h = (if mode = BROADCAST then hub_broadcast h else h)"

lemma hub_of_pass:
  "dm_inv dm \<Longrightarrow> \<exists>dm'. DM_pass dm = Inr dm' \<and> hub_of dm' = hub_pass (m_mode dm) (hub_of dm)"
  using hub_of_broadcast [of dm] by (simp add: DM_pass_def hub_pass_def manageMap_def)

section \<open>A data manager to apply the properties to\<close>

text \<open>The configuration of unit/test_data_manager.cpp: two feeders and one consumer.\<close>

definition conf22 :: DataManagerConf where
  "conf22 = \<lparr>conf_name = ''testDataManager'', conf_maxFeeders = 2, conf_maxConsumers = 2,
     conf_mode = BROADCAST\<rparr>"

definition dm_example :: "string DataManager" where
  "dm_example = snd (setConsumer ''Consumer1'' (snd (setFeeder ''Feeder1''
     (snd (setFeeder ''Feeder0'' (DataManager_ctor False conf22))))))"

lemma dm_example_reachable: "dm_reachable dm_example"
  unfolding dm_example_def
  by (intro dm_reachable.reach_step [OF _ step_setConsumer] dm_reachable.reach_step [OF _ step_setFeeder]
      reach_ctor)

lemma dm_example_eq:
  "dm_example = \<lparr>m_Name = ''testDataManager'', m_maxNbInQueues = 2, m_maxNbOutQueues = 2,
     m_mode = BROADCAST, isRunning = False, m_inQueues = [Q_new, Q_new], m_outQueues = [Q_new],
     m_inQueuesIds = [(''Feeder0'', 0), (''Feeder1'', 1)], m_outQueuesIds = [(''Consumer1'', 0)]\<rparr>"
  by (simp add: dm_example_def setConsumer_def setFeeder_def DataManager_ctor_def conf22_def
      om_count_def less_char_def)

text \<open>The same in mode MAP, with one message pushed.\<close>

definition dm_map_example :: "string DataManager" where
  "dm_map_example = projr (DM_push ''Hello'' ''Feeder0'' (snd (setConsumer ''Consumer1''
     (snd (setFeeder ''Feeder0'' (DataManager_ctor False (conf22\<lparr>conf_mode := MAP\<rparr>)))))))"

lemma dm_map_example_reachable: "dm_reachable dm_map_example"
proof -
  let ?dm = "snd (setConsumer ''Consumer1''
     (snd (setFeeder ''Feeder0'' (DataManager_ctor False (conf22\<lparr>conf_mode := MAP\<rparr>)))))
     :: string DataManager"
  have reach: "dm_reachable ?dm"
    by (intro dm_reachable.reach_step [OF _ step_setConsumer]
        dm_reachable.reach_step [OF _ step_setFeeder] reach_ctor)
  have "DM_push ''Hello'' ''Feeder0'' ?dm = Inr dm_map_example"
    using DM_push_ok [OF dm_reachable_inv [OF reach]] by (simp add: dm_map_example_def)
  from dm_reachable.reach_step [OF reach step_push [OF this]] show ?thesis .
qed

lemma dm_map_example_mode: "m_mode dm_map_example = MAP"
  by (simp add: dm_map_example_def DM_push_def setConsumer_def setFeeder_def DataManager_ctor_def
      conf22_def om_count_def vec_at_def in_range_def)

section \<open>Properties\<close>

text \<open>
  C2: the data manager implements the hub. In every reachable data manager \<open>push\<close>, one
  pass of \<open>run\<close> and \<open>pop\<close> return without undefined behaviour, and the new state is
  the one the hub's operation gives; \<open>pop\<close> hands over exactly the hub's outbox of that
  consumer, behind what the caller's vector already held, and says whether there was any.
\<close>

theorem DM_refines_hub:
  assumes "dm_reachable dm"
  shows "(\<exists>dm'. DM_push x f dm = Inr dm' \<and> hub_of dm' = hub_push x f (hub_of dm))
    \<and> (\<exists>dm'. DM_pass dm = Inr dm' \<and> hub_of dm' = hub_pass (m_mode dm) (hub_of dm))
    \<and> (\<exists>dm'. DM_pop c data dm =
          Inr (fst (hub_pop c (hub_of dm)) \<noteq> [], data @ fst (hub_pop c (hub_of dm)), dm')
        \<and> hub_of dm' = snd (hub_pop c (hub_of dm)))"
  by (intro conjI hub_of_push hub_of_pass hub_of_pop dm_reachable_inv [OF assms])

theorem DM_refines_hub_witness:
  "\<exists>dm'. DM_push ''hello'' ''Feeder0'' dm_example = Inr dm'
     \<and> hub_of dm' = hub_push ''hello'' ''Feeder0'' (hub_of dm_example)"
  using DM_refines_hub [OF dm_example_reachable, of "''hello''" "''Feeder0''"] by blast

lemma slots_bij:
  assumes "strong_slots ids qs"
  shows "bij_betw (\<lambda>c. nat (the (map_of ids c))) (dom (map_of ids)) {..<length qs}"
proof (rule bij_betw_imageI)
  have ran: "ran (map_of ids) = int ` {..<length qs}" and inj: "inj_on (map_of ids) (dom (map_of ids))"
    using assms by (simp_all add: strong_slots_def)
  have range: "\<exists>j < length qs. map_of ids c = Some (int j)" if "c \<in> dom (map_of ids)" for c
    using that ran by (metis domD image_iff lessThan_iff ranI)
  show "inj_on (\<lambda>c. nat (the (map_of ids c))) (dom (map_of ids))"
    using inj range unfolding inj_on_def by (metis nat_int option.sel)
  have "(\<lambda>c. nat (the (map_of ids c))) ` dom (map_of ids) = nat ` ran (map_of ids)"
    by (force simp: ran_def dom_def image_iff)
  also have "\<dots> = {..<length qs}" by (simp add: ran image_image)
  finally show "(\<lambda>c. nat (the (map_of ids c))) ` dom (map_of ids) = {..<length qs}" .
qed

text \<open>
  C6: consumers never share a queue. In every reachable data manager the registered
  consumer names and the output queues are in bijection, there are at most
  \<open>m_maxNbOutQueues\<close> of them, and every registered feeder name has an existing input queue.
\<close>

theorem DM_consumer_slots:
  assumes "dm_reachable dm"
  shows "bij_betw (\<lambda>c. nat (the (map_of (m_outQueuesIds dm) c)))
      (dom (map_of (m_outQueuesIds dm))) {..<length (m_outQueues dm)}
    \<and> length (m_outQueues dm) \<le> unat (m_maxNbOutQueues dm)
    \<and> ran (map_of (m_inQueuesIds dm)) \<subseteq> int ` {..<length (m_inQueues dm)}"
  using dm_reachable_inv [OF assms] slots_bij
  by (auto simp: dm_inv_def out_inv_def in_inv_def weak_slots_def)
    (metis strong_slots_def)

theorem DM_consumer_slots_witness:
  "bij_betw (\<lambda>c. nat (the (map_of (m_outQueuesIds dm_example) c)))
      (dom (map_of (m_outQueuesIds dm_example))) {..<length (m_outQueues dm_example)}"
  using DM_consumer_slots [OF dm_example_reachable] by blast

section \<open>Delivery\<close>

lemma push_all_inQueues:
  "dm_inv dm \<Longrightarrow> map_of (m_inQueuesIds dm) f = Some i \<Longrightarrow> push_all DM_push msgs f dm =
   Inr (dm\<lparr>m_inQueues := (m_inQueues dm)[nat i := \<lparr>queue = queue (m_inQueues dm ! nat i) @ msgs\<rparr>]\<rparr>)"
proof (induction msgs arbitrary: dm)
  case Nil
  then show ?case by simp
next
  case (Cons x xs)
  let ?dm = "dm\<lparr>m_inQueues := (m_inQueues dm)[nat i := Q_push x (m_inQueues dm ! nat i)]\<rparr>"
  have push: "DM_push x f dm = Inr ?dm" using Cons.prems by (simp add: DM_push_ok)
  have slot: "nat i < length (m_inQueues dm)" using in_slot Cons.prems by (blast intro: in_range_nat)
  have "push_all DM_push xs f ?dm = Inr (?dm\<lparr>m_inQueues :=
      (m_inQueues ?dm)[nat i := \<lparr>queue = queue (m_inQueues ?dm ! nat i) @ xs\<rparr>]\<rparr>)"
    using Cons.prems dm_inv_push [OF _ push] by (intro Cons.IH) simp_all
  with push slot show ?case by simp
qed

text \<open>
  C5: end-to-end delivery. Let feeder \<open>f\<close> own input queue \<open>i\<close> of a reachable data manager
  in mode BROADCAST and let consumer \<open>c\<close> have \<open>zs\<close> waiting. When \<open>f\<close> pushes \<open>msgs\<close>, one
  pass runs and \<open>c\<close> pops, then \<open>c\<close> receives, in this order and once: \<open>zs\<close>, everything in
  the input queues before \<open>i\<close>, the backlog of \<open>i\<close>, \<open>msgs\<close>, and everything in the input
  queues after \<open>i\<close>. All input queues are empty afterwards.
\<close>

theorem DM_end_to_end:
  assumes "dm_reachable dm" and "m_mode dm = BROADCAST"
    and "map_of (m_inQueuesIds dm) f = Some i" and "dm_ready dm c = Some zs"
  shows "\<exists>dm1 dm2 dm3 b. push_all DM_push msgs f dm = Inr dm1 \<and> DM_pass dm1 = Inr dm2
    \<and> DM_pop c [] dm2 = Inr (b,
        zs @ concat (map queue (take (nat i) (m_inQueues dm))) @ queue (m_inQueues dm ! nat i) @ msgs
          @ concat (map queue (drop (Suc (nat i)) (m_inQueues dm))), dm3)
    \<and> list_all Q_empty (m_inQueues dm3)"
proof -
  have inv: "dm_inv dm" using assms(1) by (rule dm_reachable_inv)
  have slot: "nat i < length (m_inQueues dm)" using in_slot [OF inv assms(3)] by (rule in_range_nat)
  obtain dm1 where push: "push_all DM_push msgs f dm = Inr dm1" and
    dm1: "dm1 = dm\<lparr>m_inQueues := (m_inQueues dm)[nat i := \<lparr>queue = queue (m_inQueues dm ! nat i) @ msgs\<rparr>]\<rparr>"
    using push_all_inQueues [OF inv assms(3)] by simp
  have inv1: "dm_inv dm1" unfolding dm1 using dm_inv_queues [OF inv, of _ "m_outQueues dm"] by simp
  have outs: "m_outQueues dm1 \<noteq> []" and ready1: "dm_ready dm1 = dm_ready dm"
    using assms(4) no_consumers_iff [OF inv1] by (auto simp: dm1)
  obtain dm2 where pass: "DM_pass dm1 = Inr dm2" "manageBroadcast dm1 = Inr dm2"
    using assms(2) by (auto simp: DM_pass_def dm1 manageBroadcast_eq)
  have "concat (map queue (m_inQueues dm1)) = concat (map queue (take (nat i) (m_inQueues dm)))
      @ queue (m_inQueues dm ! nat i) @ msgs @ concat (map queue (drop (Suc (nat i)) (m_inQueues dm)))"
    using slot by (simp add: dm1 upd_conv_take_nth_drop)
  with dm_ready_broadcast [OF inv1 pass(2) outs, of c] ready1 assms(4)
  have ready2: "dm_ready dm2 c = Some (zs @ concat (map queue (take (nat i) (m_inQueues dm)))
      @ queue (m_inQueues dm ! nat i) @ msgs @ concat (map queue (drop (Suc (nat i)) (m_inQueues dm))))"
    by simp
  from dm.pop_known [OF dm_inv_pass [OF inv1 pass(1)] ready2, of "[]"] obtain b dm3 where
    pop: "DM_pop c [] dm2 = Inr (b, zs @ concat (map queue (take (nat i) (m_inQueues dm)))
      @ queue (m_inQueues dm ! nat i) @ msgs @ concat (map queue (drop (Suc (nat i)) (m_inQueues dm))), dm3)"
    by auto
  have "m_inQueues dm3 = m_inQueues dm2"
    using pop by (auto simp: DM_pop_def split: option.splits sum.splits if_splits prod.splits)
  with pass(2) outs have "list_all Q_empty (m_inQueues dm3)"
    by (auto simp: manageBroadcast_eq list_all_iff)
  with push pass(1) pop show ?thesis by blast
qed

theorem DM_end_to_end_witness:
  "\<exists>dm1 dm2 dm3 b. push_all DM_push [''Hello'', ''World''] ''Feeder1'' dm_example = Inr dm1
     \<and> DM_pass dm1 = Inr dm2 \<and> DM_pop ''Consumer1'' [] dm2 = Inr (b, [''Hello'', ''World''], dm3)"
  using DM_end_to_end [OF dm_example_reachable, of "''Feeder1''" 1 "''Consumer1''" "[]"
      "[''Hello'', ''World'']"]
  by (auto simp: dm_example_eq dm_ready_def)

section \<open>Registration\<close>

fun setFeeders :: "string list \<Rightarrow> 'a DataManager \<Rightarrow> bool list \<times> 'a DataManager" where
  "setFeeders [] dm = ([], dm)"
| "setFeeders (n # ns) dm =
     (case setFeeder n dm of (b, dm1) \<Rightarrow> (case setFeeders ns dm1 of (bs, dm2) \<Rightarrow> (b # bs, dm2)))"

lemma setFeeder_room:
  "map_of (m_inQueuesIds dm) n = None \<Longrightarrow> length (m_inQueuesIds dm) < unat (m_maxNbInQueues dm) \<Longrightarrow>
   setFeeder n dm = (True, dm\<lparr>m_inQueuesIds := om_emplace n (int (length (m_inQueuesIds dm))) (m_inQueuesIds dm),
      m_inQueues := m_inQueues dm @ [Q_new]\<rparr>)"
  by (simp add: setFeeder_def)

lemma setFeeder_full:
  "map_of (m_inQueuesIds dm) n = None \<Longrightarrow> \<not> length (m_inQueuesIds dm) < unat (m_maxNbInQueues dm) \<Longrightarrow>
   map_of (m_inQueuesIds dm) ''empty'' = None \<Longrightarrow> setFeeder n dm = (False, dm)"
  by (simp add: setFeeder_def)

lemma setFeeders_fresh:
  assumes "om_inv (m_inQueuesIds dm)" and "distinct ns"
    and "\<And>n. n \<in> insert ''empty'' (set ns) \<Longrightarrow> map_of (m_inQueuesIds dm) n = None"
    and "''empty'' \<notin> set ns"
    and "k = min (unat (m_maxNbInQueues dm) - length (m_inQueuesIds dm)) (length ns)"
  shows "\<exists>dm'. setFeeders ns dm = (replicate k True @ replicate (length ns - k) False, dm')
    \<and> map_of (m_inQueuesIds dm') = map_of (m_inQueuesIds dm)
        ++ map_of (zip (take k ns) (map (\<lambda>j. int (length (m_inQueuesIds dm) + j)) [0..<k]))
    \<and> m_inQueues dm' = m_inQueues dm @ replicate k Q_new"
  using assms
proof (induction ns arbitrary: dm k)
  case Nil
  then show ?case by simp
next
  case (Cons n ns)
  show ?case
  proof (cases "length (m_inQueuesIds dm) < unat (m_maxNbInQueues dm)")
    case False
    have "setFeeder n dm = (False, dm)" using Cons.prems(3) False by (simp add: setFeeder_full)
    moreover have "k = 0" using False Cons.prems(5) by simp
    moreover have "\<exists>dm'. setFeeders ns dm = (replicate 0 True @ replicate (length ns - 0) False, dm')
      \<and> map_of (m_inQueuesIds dm') = map_of (m_inQueuesIds dm)
        ++ map_of (zip (take 0 ns) (map (\<lambda>j. int (length (m_inQueuesIds dm) + j)) [0..<0]))
      \<and> m_inQueues dm' = m_inQueues dm @ replicate 0 Q_new"
      by (rule Cons.IH) (use Cons.prems False in auto)
    ultimately show ?thesis by auto
  next
    case True
    let ?n = "length (m_inQueuesIds dm)"
    let ?dm = "dm\<lparr>m_inQueuesIds := om_emplace n (int ?n) (m_inQueuesIds dm),
      m_inQueues := m_inQueues dm @ [Q_new]\<rparr>"
    have new: "map_of (m_inQueuesIds dm) n = None" using Cons.prems(3) by simp
    have set: "setFeeder n dm = (True, ?dm)" using new True by (simp add: setFeeder_room)
    have ids: "map_of (m_inQueuesIds ?dm) = (map_of (m_inQueuesIds dm))(n \<mapsto> int ?n)"
      and len: "length (m_inQueuesIds ?dm) = Suc ?n"
      using Cons.prems(1) new by (simp_all add: map_of_om_emplace om.size_emplace_new)
    obtain k' where k: "k = Suc k'" and k': "k' = min (unat (m_maxNbInQueues ?dm) - length (m_inQueuesIds ?dm)) (length ns)"
      using True Cons.prems(5) len by (cases k) auto
    have "\<exists>dm'. setFeeders ns ?dm = (replicate k' True @ replicate (length ns - k') False, dm')
      \<and> map_of (m_inQueuesIds dm') = map_of (m_inQueuesIds ?dm)
        ++ map_of (zip (take k' ns) (map (\<lambda>j. int (length (m_inQueuesIds ?dm) + j)) [0..<k']))
      \<and> m_inQueues dm' = m_inQueues ?dm @ replicate k' Q_new"
    proof (rule Cons.IH)
      show "om_inv (m_inQueuesIds ?dm)" using Cons.prems(1) by (simp add: om_inv_emplace)
      show "map_of (m_inQueuesIds ?dm) m = None" if "m \<in> insert ''empty'' (set ns)" for m
        using that Cons.prems(2-4) ids by auto
    qed (use Cons.prems k' in auto)
    then obtain dm' where dm': "setFeeders ns ?dm = (replicate k' True @ replicate (length ns - k') False, dm')"
      and ids': "map_of (m_inQueuesIds dm') = map_of (m_inQueuesIds ?dm)
        ++ map_of (zip (take k' ns) (map (\<lambda>j. int (length (m_inQueuesIds ?dm) + j)) [0..<k']))"
      and ins': "m_inQueues dm' = m_inQueues ?dm @ replicate k' Q_new" by blast
    have upt: "[0..<k] = 0 # map Suc [0..<k']" by (simp add: k upt_conv_Cons map_Suc_upt del: upt_Suc)
    have "n \<notin> dom (map_of (zip (take k' ns) (map (\<lambda>j. int (Suc ?n + j)) [0..<k'])))"
      using Cons.prems(2) by (auto dest!: map_of_SomeD set_zip_leftD dest: in_set_takeD)
    then have "map_of (m_inQueuesIds dm') = map_of (m_inQueuesIds dm)
        ++ map_of (zip (take k (n # ns)) (map (\<lambda>j. int (?n + j)) [0..<k]))"
      unfolding ids' ids len upt
      by (simp add: k comp_def map_add_upd_left add_ac del: upt_Suc)
    with set dm' ins' show ?thesis by (simp add: k)
  qed
qed

text \<open>
  C17: registration of feeders. On a new data manager, distinct names (none of them "empty")
  are accepted up to \<open>m_maxNbInQueues\<close> and refused beyond; the \<open>j\<close>-th accepted name owns
  input queue \<open>j\<close>, a refused name is not registered, and there is one empty queue per
  accepted name.
\<close>

theorem DM_register_feeders:
  assumes "distinct ns" and "''empty'' \<notin> set ns"
  shows "case setFeeders ns (DataManager_ctor junk conf) of (bs, dm) \<Rightarrow>
    let k = min (unat (conf_maxFeeders conf)) (length ns) in
      bs = replicate k True @ replicate (length ns - k) False
    \<and> map_of (m_inQueuesIds dm) = map_of (zip (take k ns) (map int [0..<k]))
    \<and> m_inQueues dm = replicate k Q_new"
proof -
  define dm0 :: "'a DataManager" where "dm0 = DataManager_ctor junk conf"
  have dm0: "m_inQueuesIds dm0 = []" "m_inQueues dm0 = []" "m_maxNbInQueues dm0 = conf_maxFeeders conf"
    by (simp_all add: dm0_def DataManager_ctor_def)
  define k where "k = min (unat (m_maxNbInQueues dm0) - length (m_inQueuesIds dm0)) (length ns)"
  have "om_inv (m_inQueuesIds dm0)" and "\<And>n. map_of (m_inQueuesIds dm0) n = None"
    by (simp_all add: dm0)
  from setFeeders_fresh [OF this(1) assms(1) this(2) assms(2) k_def]
  have "case setFeeders ns dm0 of (bs, dm) \<Rightarrow>
      bs = replicate k True @ replicate (length ns - k) False
      \<and> map_of (m_inQueuesIds dm) = map_of (zip (take k ns) (map int [0..<k]))
      \<and> m_inQueues dm = replicate k Q_new"
    by (auto simp: dm0)
  then show ?thesis by (simp add: k_def dm0 Let_def flip: dm0_def)
qed

theorem DM_register_feeders_witness:
  "fst (setFeeders [''Feeder0'', ''Feeder3'', ''Feeder1'']
      (DataManager_ctor False conf22 :: string DataManager)) = [True, True, False]"
proof -
  let ?ns = "[''Feeder0'', ''Feeder3'', ''Feeder1'']"
  have d: "distinct ?ns" and e: "''empty'' \<notin> set ?ns" by simp_all
  have k: "min (unat (conf_maxFeeders conf22)) (length ?ns) = 2" by (simp add: conf22_def)
  have r: "replicate 2 True @ replicate (length ?ns - 2) False = [True, True, False]"
    by (simp add: numeral_2_eq_2)
  show ?thesis
    using DM_register_feeders [where 'a = string, OF d e, of conf22 False] unfolding k Let_def r by (auto split: prod.splits)
qed

section \<open>Giving a feeder's place away\<close>

text \<open>
  C31: a name that is registered after a feeder left shares a queue. Take a data manager
  whose last registered feeder is \<open>b\<close> (its index is the size of the map less one), let
  another feeder \<open>a\<close> leave and a new name \<open>c\<close> register. Then \<open>c\<close> is accepted with the
  very index of \<open>b\<close>, what \<open>b\<close> and \<open>c\<close> push lands in one input queue in the order of the
  calls, and the vector of queues has grown by one although the number of names has not.
\<close>

theorem DM_reused_index_collides:
  assumes "dm_reachable dm" and "map_of (m_inQueuesIds dm) a \<noteq> None"
    and "map_of (m_inQueuesIds dm) b = Some (int (length (m_inQueuesIds dm)) - 1)"
    and "a \<noteq> b" and "map_of (m_inQueuesIds dm) c = None"
  shows "case setFeeder c (snd (remFeeder a dm)) of (ok, dm') \<Rightarrow>
      ok \<and> map_of (m_inQueuesIds dm') c = map_of (m_inQueuesIds dm') b
    \<and> dm_pending dm' b \<noteq> None
    \<and> length (m_inQueuesIds dm') = length (m_inQueuesIds dm)
    \<and> length (m_inQueues dm') = Suc (length (m_inQueues dm))
    \<and> (\<exists>d1 d2. DM_push x b dm' = Inr d1 \<and> DM_push y c d1 = Inr d2
         \<and> dm_pending d2 b = map_option (\<lambda>q. q @ [x, y]) (dm_pending dm' b))"
proof -
  let ?ids = "m_inQueuesIds dm"
  have inv: "dm_inv dm" using assms(1) by (rule dm_reachable_inv)
  then have om: "om_inv ?ids" and len: "length ?ids \<le> unat (m_maxNbInQueues dm)"
    by (simp_all add: dm_inv_def in_inv_def weak_slots_def)
  have len_a: "Suc (length (om_erase a ?ids)) = length ?ids"
    using om.size_erase_old [OF om assms(2)] .
  let ?dm1 = "snd (remFeeder a dm)"
  have dm1: "?dm1 = dm\<lparr>m_inQueuesIds := om_erase a ?ids\<rparr>" using assms(2) by (auto simp: remFeeder_def)
  have c: "map_of (om_erase a ?ids) c = None" using assms(5) by (simp add: map_of_om_erase)
  let ?dm' = "?dm1\<lparr>m_inQueuesIds := om_emplace c (int (length (om_erase a ?ids))) (om_erase a ?ids),
    m_inQueues := m_inQueues dm @ [Q_new]\<rparr>"
  have reg: "setFeeder c ?dm1 = (True, ?dm')"
    using setFeeder_room [of ?dm1 c] c len len_a by (simp add: dm1)
  have ids': "map_of (m_inQueuesIds ?dm') = (map_of ?ids)(a := None, c \<mapsto> int (length ?ids) - 1)"
    using c len_a om by (simp add: map_of_om_emplace om_inv_erase map_of_om_erase flip: len_a)
  have same: "map_of (m_inQueuesIds ?dm') c = map_of (m_inQueuesIds ?dm') b"
    using assms(3-5) ids' by auto
  have b: "dm_pending ?dm' b \<noteq> None" using assms(3-5) ids' by (auto simp: dm_pending_def)
  have inv': "dm_inv ?dm'"
    using dm_inv_setFeeder [OF dm_inv_remFeeder [OF inv], of c a] reg by simp
  from b obtain qs where qs: "dm_pending ?dm' b = Some qs" by blast
  from dm.push_known [OF inv' qs, of x] obtain d1 where
    d1: "DM_push x b ?dm' = Inr d1" "dm_inv d1" "dm_pending d1 b = Some (qs @ [x])" by blast
  have "m_inQueuesIds d1 = m_inQueuesIds ?dm'"
    using d1(1) by (auto simp: DM_push_def split: option.splits sum.splits)
  with same have "DM_push y c d1 = DM_push y b d1" by (simp add: DM_push_def)
  with dm.push_known [OF d1(2,3), of y] obtain d2 where
    "DM_push y c d1 = Inr d2" "dm_pending d2 b = Some (qs @ [x, y])" by auto
  moreover have "length (m_inQueuesIds ?dm') = length ?ids"
    using c len_a om by (simp add: om.size_emplace_new om_inv_erase)
  ultimately show ?thesis using same b qs d1(1) by (simp add: reg)
qed

theorem DM_reused_index_collides_witness:
  "case setFeeder ''Feeder2'' (snd (remFeeder ''Feeder0'' dm_example)) of (ok, dm') \<Rightarrow>
     ok \<and> map_of (m_inQueuesIds dm') ''Feeder2'' = map_of (m_inQueuesIds dm') ''Feeder1''"
  using DM_reused_index_collides [OF dm_example_reachable, of "''Feeder0''" "''Feeder1''" "''Feeder2''"]
  by (auto simp: dm_example_eq split: prod.splits)

fun churn :: "nat \<Rightarrow> string \<Rightarrow> 'a DataManager \<Rightarrow> 'a DataManager" where
  "churn 0 a dm = dm"
| "churn (Suc n) a dm = churn n a (snd (setFeeder a (snd (remFeeder a dm))))"

lemma churn_once:
  assumes "dm_inv dm" and "map_of (m_inQueuesIds dm) a \<noteq> None"
  shows "map_of (m_inQueuesIds (snd (setFeeder a (snd (remFeeder a dm))))) a \<noteq> None
    \<and> length (m_inQueues (snd (setFeeder a (snd (remFeeder a dm))))) = Suc (length (m_inQueues dm))"
proof -
  let ?ids = "m_inQueuesIds dm" and ?dm1 = "snd (remFeeder a dm)"
  have om: "om_inv ?ids" and len: "length ?ids \<le> unat (m_maxNbInQueues dm)"
    using assms(1) by (simp_all add: dm_inv_def in_inv_def weak_slots_def)
  have "Suc (length (om_erase a ?ids)) = length ?ids" using om.size_erase_old [OF om assms(2)] .
  moreover have "?dm1 = dm\<lparr>m_inQueuesIds := om_erase a ?ids\<rparr>" using assms(2) by (auto simp: remFeeder_def)
  moreover have "map_of (om_erase a ?ids) a = None" by (simp add: map_of_om_erase)
  ultimately show ?thesis
    using setFeeder_room [of ?dm1 a] len om by (simp add: map_of_om_emplace om_inv_erase)
qed

text \<open>
  The vector of input queues is not bounded by \<open>m_maxNbInQueues\<close>. A feeder that leaves
  and registers again \<open>n\<close> times leaves \<open>n\<close> more queues behind, whatever the limit is.
\<close>

theorem DM_churn_grows:
  assumes "dm_reachable dm" and "map_of (m_inQueuesIds dm) a \<noteq> None"
  shows "length (m_inQueues (churn n a dm)) = length (m_inQueues dm) + n"
proof -
  have "dm_inv dm" using assms(1) by (rule dm_reachable_inv)
  then show ?thesis using assms(2)
  proof (induction n arbitrary: dm)
    case (Suc n)
    then show ?case using churn_once [of dm a] by (simp add: dm_inv_setFeeder dm_inv_remFeeder)
  qed simp
qed

theorem DM_churn_grows_witness:
  "length (m_inQueues (churn 7 ''Feeder0'' dm_example)) = 9"
  using DM_churn_grows [OF dm_example_reachable, of "''Feeder0''" 7] by (simp add: dm_example_eq)

section \<open>The run loop\<close>

definition keeps_running :: "('a DataManager \<Rightarrow> 'a DataManager) \<Rightarrow> bool" where
  "keeps_running env \<longleftrightarrow> (\<forall>dm. isRunning (env dm) = isRunning dm)"

lemma DM_pass_running: "DM_pass dm = Inr dm' \<Longrightarrow> isRunning dm' = isRunning dm"
  by (auto simp: DM_pass_def manageMap_def manageBroadcast_eq split: if_splits)

lemma DM_pass_returns: "\<exists>dm'. DM_pass dm = Inr dm'"
  using DM_pass_ok [of dm] by (auto elim: is_okE)

lemma DM_run_loop_keeps:
  "list_all keeps_running envs \<Longrightarrow> isRunning dm \<Longrightarrow>
   DM_run_loop envs dm = None
   \<and> (\<exists>dm'. isRunning dm' \<and> (\<forall>rest. DM_run_loop (envs @ rest) dm = DM_run_loop rest dm'))"
proof (induction envs arbitrary: dm)
  case (Cons env envs)
  obtain dm1 where dm1: "DM_pass dm = Inr dm1" using DM_pass_returns by blast
  have run: "isRunning (env dm1)"
    using Cons.prems DM_pass_running [OF dm1] by (simp add: keeps_running_def)
  from Cons.IH [OF _ run] Cons.prems(1) dm1 run show ?case by (simp add: Let_def)
qed auto

text \<open>
  C21: \<open>run\<close> returns exactly when it is stopped, and a stop that comes before \<open>run\<close> is lost.
  While the rest of the program leaves the flag alone, the loop does not return, however
  many passes it makes; once the other threads' actions \<open>e\<close> after some pass end with
  \<open>stop\<close>, it returns at the end of that pass, whatever would follow; and \<open>run\<close> behaves after
  \<open>stop\<close> exactly as without it, because it sets the flag again.
\<close>

theorem DM_run_stops:
  assumes "list_all keeps_running envs"
  shows "DM_run envs dm = None
    \<and> (\<exists>dm'. DM_run (envs @ (\<lambda>d. snd (DM_stop (e d))) # rest) dm = Some (Inr dm') \<and> \<not> isRunning dm')
    \<and> DM_run envs2 (snd (DM_stop dm)) = DM_run envs2 dm"
proof -
  let ?dm = "dm\<lparr>isRunning := True\<rparr>"
  from DM_run_loop_keeps [OF assms, of ?dm] obtain dm1 where
    none: "DM_run_loop envs ?dm = None" and
    dm1: "\<And>rest. DM_run_loop (envs @ rest) ?dm = DM_run_loop rest dm1" by auto
  obtain dm2 where "DM_pass dm1 = Inr dm2" using DM_pass_returns by blast
  with none dm1 show ?thesis by (simp add: DM_run_def DM_stop_def Let_def)
qed

theorem DM_run_stops_witness:
  "DM_run [\<lambda>d. d, \<lambda>d. d] dm_example = None
   \<and> (\<exists>dm'. DM_run ([\<lambda>d. d, \<lambda>d. d] @ [\<lambda>d. snd (DM_stop d)]) dm_example = Some (Inr dm') \<and> \<not> isRunning dm')"
  using DM_run_stops [of "[\<lambda>d. d, \<lambda>d. d]" dm_example "\<lambda>d. d" "[]" "[]"]
  by (auto simp: keeps_running_def)

section \<open>The mode MAP\<close>

lemma map_mode_outs:
  "dm_step dm dm' \<Longrightarrow> m_mode dm = MAP \<Longrightarrow> list_all Q_empty (m_outQueues dm) \<Longrightarrow>
   list_all Q_empty (m_outQueues dm') \<and> m_mode dm' = MAP"
proof (induction rule: dm_step.induct)
  case (step_pop popId data dm b data' dm')
  then show ?case
    by (auto simp: DM_pop_def list_all_iff vec_at_Inr Q_move_def in_range_nat set_update_subset_insert
        split: option.splits sum.splits if_splits dest!: set_update_subset_insert [THEN subsetD])
qed (auto simp: DM_frame setFeeder_def remFeeder_def setConsumer_def DM_stop_def DM_reset_def
    DM_push_def DM_pass_def manageMap_def split: option.splits sum.splits if_splits)

lemma map_mode_reachable:
  "dm_reachable dm \<Longrightarrow> m_mode dm = MAP \<Longrightarrow> list_all Q_empty (m_outQueues dm)"
proof (induction rule: dm_reachable.induct)
  case (reach_ctor junk conf)
  show ?case by (simp add: DataManager_ctor_def)
next
  case (reach_step dm dm')
  from reach_step.hyps(2) reach_step.prems have "m_mode dm = MAP"
    by (induction rule: dm_step.induct) (auto simp: DM_frame dest: DM_push_mode DM_pop_mode DM_pass_mode)
  with reach_step map_mode_outs show ?case by blast
qed

text \<open>
  In mode MAP nothing is ever delivered. Whatever was registered and pushed, a pass
  changes nothing and every \<open>pop\<close> returns false with the caller's vector unchanged.
\<close>

theorem DM_map_mode_delivers_nothing:
  assumes "dm_reachable dm" and "m_mode dm = MAP"
  shows "DM_pass dm = Inr dm \<and> (\<exists>dm'. DM_pop c data dm = Inr (False, data, dm'))"
proof -
  have inv: "dm_inv dm" using assms(1) by (rule dm_reachable_inv)
  have "dm_ready dm c = None \<or> dm_ready dm c = Some []"
  proof (cases "map_of (m_outQueuesIds dm) c")
    case (Some i)
    with in_range_nat [OF out_slot [OF inv Some]] map_mode_reachable [OF assms] show ?thesis
      by (simp add: dm_ready_def list_all_length)
  qed (simp add: dm_ready_def)
  then have "\<exists>dm'. DM_pop c data dm = Inr (False, data, dm')"
    using dm.pop_unknown [OF inv] dm.pop_known [OF inv] by fastforce
  with assms(2) show ?thesis by (simp add: DM_pass_def manageMap_def)
qed

theorem DM_map_mode_delivers_nothing_witness:
  "DM_pass dm_map_example = Inr dm_map_example
   \<and> (\<exists>dm'. DM_pop ''Consumer1'' [] dm_map_example = Inr (False, [], dm'))"
  using DM_map_mode_delivers_nothing [OF dm_map_example_reachable dm_map_example_mode] by blast

section \<open>The singleton\<close>

text \<open>
  There is one data manager. After a first \<open>getInstance\<close> every later one returns that
  same object, whatever configuration it is called with; only after \<open>deleteInstance\<close> does a
  configuration take effect again.
\<close>

theorem DM_singleton:
  "getInstance junk2 conf2 (snd (getInstance junk1 conf1 inst)) = getInstance junk1 conf1 inst
   \<and> fst (getInstance junk2 conf2 (deleteInstance inst)) = DataManager_ctor junk2 conf2"
  by (simp add: getInstance_def deleteInstance_def Let_def split: option.split)

end
