(* ===== verification/Broadcast_Steps.thy ===== *)
theory Broadcast_Steps
  imports Data_Manager_Spec "HOL-Library.Multiset"
begin

text \<open>
  The data manager at work: feeders push, consumers pop and the thread in \<open>run\<close> broadcasts,
  all at once. The names are registered before \<open>run\<close> starts, as the framework does it;
  after that every access to a queue is a critical section of its mutex, and one step here
  is one critical section. \<open>manageBroadcast\<close> takes many: it tests a queue, takes its mutex,
  and appends to one output queue after the other, with the input queue locked all along,
  before it clears it; pushes to other queues and pops come in between.

  A \<open>pop\<close> is two critical sections, the test for emptiness and the move. The step
  \<open>consume\<close> is the move; it may happen at any moment, also when the queue is empty, so every
  outcome of the test is covered.
\<close>

section \<open>States and steps\<close>

datatype bpc =
    B_off
  | B_scan nat               \<comment> \<open>about to look at input queue \<open>i\<close>\<close>
  | B_enter nat              \<comment> \<open>found input queue \<open>i\<close> not empty\<close>
  | B_copy nat "int list"    \<comment> \<open>holds the mutex of input queue \<open>i\<close>, these outputs to go\<close>
  | B_halt

datatype actor = A_feeder | A_consumer | A_broadcaster | A_stopper

text \<open>
  Ghosts: \<open>pushed i\<close> is what feeders appended to input queue \<open>i\<close>, \<open>got j\<close> what consumers
  took from output queue \<open>j\<close>, and \<open>sent\<close> the log of what has been broadcast, each element
  with the number of the input queue it came from.
\<close>

record 'a bsys =
  dman :: "'a DataManager"
  bpc_of :: bpc
  pushed :: "nat \<Rightarrow> 'a list"
  got :: "nat \<Rightarrow> 'a list"
  sent :: "(nat \<times> 'a) list"

abbreviation ins :: "'a bsys \<Rightarrow> 'a Q list" where "ins s \<equiv> m_inQueues (dman s)"
abbreviation outs :: "'a bsys \<Rightarrow> 'a Q list" where "outs s \<equiv> m_outQueues (dman s)"

fun locked_in :: "bpc \<Rightarrow> nat \<Rightarrow> bool" where
  "locked_in (B_copy k js) i = (k = i)"
| "locked_in _ i = False"

definition b_init :: "'a DataManager \<Rightarrow> 'a bsys" where
  "b_init dm = \<lparr>dman = dm, bpc_of = B_off, pushed = (\<lambda>_. []), got = (\<lambda>_. []), sent = []\<rparr>"

definition set_in :: "nat \<Rightarrow> 'a Q \<Rightarrow> 'a bsys \<Rightarrow> 'a bsys" where
  "set_in i q s = s\<lparr>dman := (dman s)\<lparr>m_inQueues := (ins s)[i := q]\<rparr>\<rparr>"

definition set_out :: "nat \<Rightarrow> 'a Q \<Rightarrow> 'a bsys \<Rightarrow> 'a bsys" where
  "set_out j q s = s\<lparr>dman := (dman s)\<lparr>m_outQueues := (outs s)[j := q]\<rparr>\<rparr>"

inductive bstep :: "'a bsys \<Rightarrow> actor \<Rightarrow> 'a bsys \<Rightarrow> bool" where
  feed: "map_of (m_inQueuesIds (dman s)) f = Some i \<Longrightarrow> \<not> locked_in (bpc_of s) (nat i) \<Longrightarrow>
    DM_push x f (dman s) = Inr dm' \<Longrightarrow>
    bstep s A_feeder (s\<lparr>dman := dm', pushed := (pushed s)(nat i := pushed s (nat i) @ [x])\<rparr>)"
| consume: "map_of (m_outQueuesIds (dman s)) c = Some j \<Longrightarrow>
    DM_pop c [] (dman s) = Inr (b, xs, dm') \<Longrightarrow>
    bstep s A_consumer (s\<lparr>dman := dm', got := (got s)(nat j := got s (nat j) @ xs)\<rparr>)"
| start: "bpc_of s = B_off \<or> bpc_of s = B_halt \<Longrightarrow>
    bstep s A_broadcaster (s\<lparr>dman := (dman s)\<lparr>isRunning := True\<rparr>, bpc_of := B_scan 0\<rparr>)"
| scan_skip: "bpc_of s = B_scan i \<Longrightarrow> i < length (ins s) \<Longrightarrow>
    Q_empty (ins s ! i) \<or> outs s = [] \<Longrightarrow> bstep s A_broadcaster (s\<lparr>bpc_of := B_scan (Suc i)\<rparr>)"
| scan_hit: "bpc_of s = B_scan i \<Longrightarrow> i < length (ins s) \<Longrightarrow>
    \<not> Q_empty (ins s ! i) \<and> outs s \<noteq> [] \<Longrightarrow> bstep s A_broadcaster (s\<lparr>bpc_of := B_enter i\<rparr>)"
| enter: "bpc_of s = B_enter i \<Longrightarrow>
    bstep s A_broadcaster (s\<lparr>bpc_of := B_copy i (map int [0..<length (outs s)])\<rparr>)"
| copy_one: "bpc_of s = B_copy i (j # js) \<Longrightarrow> vec_at (outs s) j = Inr dst \<Longrightarrow>
    bstep s A_broadcaster (set_out (nat j) (Q_copy (ins s ! i) dst) (s\<lparr>bpc_of := B_copy i js\<rparr>))"
| copy_end: "bpc_of s = B_copy i [] \<Longrightarrow>
    bstep s A_broadcaster (set_in i ((ins s ! i)\<lparr>queue := []\<rparr>)
      (s\<lparr>bpc_of := B_scan (Suc i), sent := sent s @ map (Pair i) (queue (ins s ! i))\<rparr>))"
| next_pass: "bpc_of s = B_scan (length (ins s)) \<Longrightarrow> isRunning (dman s) \<Longrightarrow>
    bstep s A_broadcaster (s\<lparr>bpc_of := B_scan 0\<rparr>)"
| halt: "bpc_of s = B_scan (length (ins s)) \<Longrightarrow> \<not> isRunning (dman s) \<Longrightarrow>
    bstep s A_broadcaster (s\<lparr>bpc_of := B_halt\<rparr>)"
| stop: "bstep s A_stopper (s\<lparr>dman := snd (DM_stop (dman s))\<rparr>)"

inductive b_reach :: "'a bsys \<Rightarrow> bool" where
  b_start: "dm_reachable dm \<Longrightarrow> m_mode dm = BROADCAST \<Longrightarrow> list_all Q_empty (m_inQueues dm) \<Longrightarrow>
    list_all Q_empty (m_outQueues dm) \<Longrightarrow> b_reach (b_init dm)"
| b_next: "b_reach s \<Longrightarrow> bstep s who s' \<Longrightarrow> b_reach s'"

lemmas bsys_simps = set_in_def set_out_def b_init_def

section \<open>The invariant\<close>

text \<open>
  What output queue \<open>j\<close> received beyond the log: the contents of the input queue being
  copied, when \<open>j\<close> had its turn already.
\<close>

definition in_flight :: "'a bsys \<Rightarrow> nat \<Rightarrow> 'a list" where
  "in_flight s j = (case bpc_of s of
       B_copy i js \<Rightarrow> (if int j \<in> set js then [] else queue (ins s ! i))
     | _ \<Rightarrow> [])"

definition from_queue :: "nat \<Rightarrow> (nat \<times> 'a) list \<Rightarrow> 'a list" where
  "from_queue i log = map snd (filter (\<lambda>p. fst p = i) log)"

lemma from_queue_append [simp]: "from_queue i (xs @ ys) = from_queue i xs @ from_queue i ys"
  by (simp add: from_queue_def)

lemma from_queue_Nil [simp]: "from_queue i [] = []"
  by (simp add: from_queue_def)

lemma from_queue_Pair [simp]: "from_queue i (map (Pair k) xs) = (if i = k then xs else [])"
  by (induction xs) (auto simp: from_queue_def)

fun bpc_ok :: "nat \<Rightarrow> nat \<Rightarrow> bpc \<Rightarrow> bool" where
  "bpc_ok n m (B_scan i) = (i \<le> n)"
| "bpc_ok n m (B_enter i) = (i < n)"
| "bpc_ok n m (B_copy i js) = (i < n \<and> distinct js \<and> set js \<subseteq> int ` {..<m})"
| "bpc_ok n m _ = True"

definition b_inv :: "'a bsys \<Rightarrow> bool" where
  "b_inv s \<longleftrightarrow> dm_inv (dman s) \<and> bpc_ok (length (ins s)) (length (outs s)) (bpc_of s)
     \<and> list_all (\<lambda>p. fst p < length (ins s)) (sent s)
     \<and> (\<forall>i < length (ins s). pushed s i = from_queue i (sent s) @ queue (ins s ! i))
     \<and> (\<forall>j < length (outs s). got s j @ queue (outs s ! j) = map snd (sent s) @ in_flight s j)"

lemma b_inv_init:
  assumes "dm_reachable dm" and "list_all Q_empty (m_inQueues dm)" and "list_all Q_empty (m_outQueues dm)"
  shows "b_inv (b_init dm)"
  using assms dm_reachable_inv [OF assms(1)]
  by (simp add: b_inv_def b_init_def in_flight_def list_all_length)

lemma b_inv_feed:
  assumes "b_inv s" and "map_of (m_inQueuesIds (dman s)) f = Some i"
    and "\<not> locked_in (bpc_of s) (nat i)" and "DM_push x f (dman s) = Inr dm'"
  shows "b_inv (s\<lparr>dman := dm', pushed := (pushed s)(nat i := pushed s (nat i) @ [x])\<rparr>)"
proof -
  have inv: "dm_inv (dman s)" using assms(1) by (simp add: b_inv_def)
  have dm': "dm' = (dman s)\<lparr>m_inQueues := (ins s)[nat i := Q_push x (ins s ! nat i)]\<rparr>"
    using assms(2,4) inv by (simp add: DM_push_ok)
  have slot: "nat i < length (ins s)" using in_slot [OF inv assms(2)] by (rule in_range_nat)
  have "in_flight (s\<lparr>dman := dm', pushed := (pushed s)(nat i := pushed s (nat i) @ [x])\<rparr>) j = in_flight s j" for j
    using assms(3) by (auto simp: in_flight_def dm' split: bpc.split)
  with assms(1) slot dm_inv_push [OF inv assms(4)] show ?thesis
    by (auto simp: b_inv_def dm' nth_list_update)
qed

lemma b_inv_consume:
  assumes "b_inv s" and "map_of (m_outQueuesIds (dman s)) c = Some j"
    and "DM_pop c [] (dman s) = Inr (b, xs, dm')"
  shows "b_inv (s\<lparr>dman := dm', got := (got s)(nat j := got s (nat j) @ xs)\<rparr>)"
proof -
  have inv: "dm_inv (dman s)" using assms(1) by (simp add: b_inv_def)
  have slot: "nat j < length (outs s)" using out_slot [OF inv assms(2)] by (rule in_range_nat)
  have dm': "dm' = (dman s)\<lparr>m_outQueues := (outs s)[nat j := Q_new]\<rparr> \<and> xs = queue (outs s ! nat j)"
    using DM_pop_slot [OF inv assms(2), of "[]"] assms(3) by simp
  have "in_flight (s\<lparr>dman := dm', got := (got s)(nat j := got s (nat j) @ xs)\<rparr>) k = in_flight s k" for k
    by (simp add: in_flight_def dm' split: bpc.split)
  with assms(1) slot dm' dm_inv_pop [OF inv assms(3)] show ?thesis
    by (auto simp: b_inv_def nth_list_update)
qed

lemma b_inv_copy_one:
  assumes "b_inv s" and "bpc_of s = B_copy i (j # js)" and "vec_at (outs s) j = Inr dst"
  shows "b_inv (set_out (nat j) (Q_copy (ins s ! i) dst) (s\<lparr>bpc_of := B_copy i js\<rparr>))" (is "b_inv ?s")
proof -
  have j: "in_range (outs s) j" and dst: "dst = outs s ! nat j" using assms(3) by (simp_all add: vec_at_Inr)
  have "got ?s k @ queue (outs ?s ! k) = map snd (sent ?s) @ in_flight ?s k" if "k < length (outs ?s)" for k
  proof (cases "k = nat j")
    case True
    with assms(1,2) j that show ?thesis
      by (auto simp: b_inv_def set_out_def dst in_flight_def in_range_def)
  next
    case False
    with assms(1,2) j that show ?thesis
      by (auto simp: b_inv_def set_out_def dst in_flight_def in_range_def)
  qed
  moreover have "dm_inv (dman ?s)"
    using assms(1) dm_inv_queues [of "dman s" "ins s"] by (simp add: b_inv_def set_out_def)
  ultimately show ?thesis using assms(1,2) by (auto simp: b_inv_def set_out_def)
qed

lemma b_inv_copy_end:
  assumes "b_inv s" and "bpc_of s = B_copy i []"
  shows "b_inv (set_in i ((ins s ! i)\<lparr>queue := []\<rparr>)
      (s\<lparr>bpc_of := B_scan (Suc i), sent := sent s @ map (Pair i) (queue (ins s ! i))\<rparr>))" (is "b_inv ?s")
proof -
  have "dm_inv (dman ?s)"
    using assms(1) dm_inv_queues [of "dman s" _ "outs s"] by (simp add: b_inv_def set_in_def)
  moreover have "pushed ?s k = from_queue k (sent ?s) @ queue (ins ?s ! k)" if "k < length (ins ?s)" for k
    using assms that by (cases "k = i") (auto simp: b_inv_def set_in_def)
  ultimately show ?thesis
    using assms by (auto simp: b_inv_def set_in_def in_flight_def comp_def list_all_iff)
qed

lemma b_inv_control:
  assumes "b_inv s" and "bpc_ok (length (ins s)) (length (outs s)) p"
    and "\<And>j. in_flight (s\<lparr>bpc_of := p\<rparr>) j = [] \<or> length (outs s) \<le> j" and "\<And>i js. bpc_of s \<noteq> B_copy i js"
  shows "b_inv (s\<lparr>dman := (dman s)\<lparr>isRunning := r\<rparr>, bpc_of := p\<rparr>)"
proof -
  have "in_flight s j = []" for j using assms(4) by (simp add: in_flight_def split: bpc.split)
  moreover have "in_flight (s\<lparr>dman := (dman s)\<lparr>isRunning := r\<rparr>, bpc_of := p\<rparr>) j = in_flight (s\<lparr>bpc_of := p\<rparr>) j" for j
    by (simp add: in_flight_def split: bpc.split)
  ultimately show ?thesis
    using assms(1-3) dm_inv_setRunning by (fastforce simp: b_inv_def)
qed

lemma b_inv_goto:
  assumes "b_inv s" and "bpc_ok (length (ins s)) (length (outs s)) p"
    and "\<And>j. in_flight (s\<lparr>bpc_of := p\<rparr>) j = [] \<or> length (outs s) \<le> j" and "\<And>i js. bpc_of s \<noteq> B_copy i js"
  shows "b_inv (s\<lparr>bpc_of := p\<rparr>)"
  using b_inv_control [OF assms, of "isRunning (dman s)"] by simp

lemma in_flight_control:
  "in_flight (s\<lparr>bpc_of := B_scan i\<rparr>) j = []" "in_flight (s\<lparr>bpc_of := B_enter i\<rparr>) j = []"
  "in_flight (s\<lparr>bpc_of := B_halt\<rparr>) j = []" "in_flight (s\<lparr>bpc_of := B_off\<rparr>) j = []"
  "j < length (outs s) \<Longrightarrow> in_flight (s\<lparr>bpc_of := B_copy i (map int [0..<length (outs s)])\<rparr>) j = []"
  by (simp_all add: in_flight_def)

lemma bstep_inv: "bstep s who s' \<Longrightarrow> b_inv s \<Longrightarrow> b_inv s'"
proof (induction rule: bstep.induct)
  case (start s)
  then show ?case using b_inv_control [of s "B_scan 0" True] by (auto simp: in_flight_control)
next
  case (scan_skip s i)
  then show ?case
    using b_inv_goto [of s "B_scan (Suc i)"] by (auto simp: in_flight_control)
next
  case (scan_hit s i)
  then show ?case
    using b_inv_goto [of s "B_enter i"] by (auto simp: in_flight_control)
next
  case (enter s i)
  then have "i < length (ins s)" by (simp add: b_inv_def)
  then have "bpc_ok (length (ins s)) (length (outs s)) (B_copy i (map int [0..<length (outs s)]))"
    by (auto simp: distinct_map)
  moreover have "in_flight (s\<lparr>bpc_of := B_copy i (map int [0..<length (outs s)])\<rparr>) j = []
      \<or> length (outs s) \<le> j" for j
    using in_flight_control(5) by (cases "j < length (outs s)") auto
  ultimately show ?case
    using b_inv_goto [OF enter.prems] enter.hyps by simp
next
  case (next_pass s)
  then show ?case
    using b_inv_goto [of s "B_scan 0"] by (auto simp: in_flight_control)
next
  case (halt s)
  then show ?case
    using b_inv_goto [of s B_halt] by (auto simp: in_flight_control)
next
  case (stop s)
  have "in_flight (s\<lparr>dman := snd (DM_stop (dman s))\<rparr>) j = in_flight s j" for j
    by (simp add: in_flight_def DM_stop_def split: bpc.split)
  with stop show ?case using dm_inv_stop [of "dman s"] by (simp add: b_inv_def DM_stop_def)
qed (blast intro: b_inv_feed b_inv_consume b_inv_copy_one b_inv_copy_end)+

lemma b_reach_inv: "b_reach s \<Longrightarrow> b_inv s"
  by (induction rule: b_reach.induct) (blast intro: b_inv_init bstep_inv)+

section \<open>The broadcaster alone\<close>

definition b_alone :: "'a bsys \<Rightarrow> 'a bsys \<Rightarrow> bool" where
  "b_alone = rtranclp (\<lambda>s s'. bstep s A_broadcaster s')"

lemma b_alone_step: "bstep s A_broadcaster s' \<Longrightarrow> b_alone s s'"
  by (simp add: b_alone_def r_into_rtranclp)

lemma b_alone_refl: "b_alone s s"
  by (simp add: b_alone_def)

lemma b_alone_trans: "b_alone s s' \<Longrightarrow> b_alone s' s'' \<Longrightarrow> b_alone s s''"
  unfolding b_alone_def by (rule rtranclp_trans)

lemma b_alone_copy:
  "bpc_of s = B_copy i js \<Longrightarrow> Q_copy_loop (ins s ! i) (outs s) js = Inr os \<Longrightarrow>
   b_alone s (s\<lparr>dman := (dman s)\<lparr>m_outQueues := os\<rparr>, bpc_of := B_copy i []\<rparr>)"
proof (induction js arbitrary: s)
  case Nil
  then have "s\<lparr>dman := (dman s)\<lparr>m_outQueues := os\<rparr>, bpc_of := B_copy i []\<rparr> = s" by simp
  then show ?case by (simp only: b_alone_refl)
next
  case (Cons j js)
  from Cons.prems(2) obtain dst where dst: "vec_at (outs s) j = Inr dst"
    and rest: "Q_copy_loop (ins s ! i) ((outs s)[nat j := Q_copy (ins s ! i) dst]) js = Inr os"
    by (auto split: sum.splits)
  let ?s = "set_out (nat j) (Q_copy (ins s ! i) dst) (s\<lparr>bpc_of := B_copy i js\<rparr>)"
  have "b_alone s ?s" using bstep.copy_one [OF Cons.prems(1) dst] by (rule b_alone_step)
  moreover have "b_alone ?s (?s\<lparr>dman := (dman ?s)\<lparr>m_outQueues := os\<rparr>, bpc_of := B_copy i []\<rparr>)"
    using rest by (intro Cons.IH) (simp_all add: set_out_def)
  ultimately show ?case by (auto simp: set_out_def intro: b_alone_trans)
qed

lemma b_alone_queue:
  assumes "bpc_of s = B_scan i" and "i < length (ins s)" and "outs s \<noteq> []"
  shows "\<exists>s'. b_alone s s' \<and> bpc_of s' = B_scan (Suc i)
    \<and> dman s' = (dman s)\<lparr>m_inQueues := (ins s)[i := Q_new], m_outQueues := map (Q_copy (ins s ! i)) (outs s)\<rparr>"
proof (cases "queue (ins s ! i) = []")
  case True
  then have "(ins s)[i := Q_new] = ins s" by (metis Q_eq_new_iff list_update_id)
  with True show ?thesis
    using b_alone_step [OF bstep.scan_skip [OF assms(1,2)]]
    by (intro exI [of _ "s\<lparr>bpc_of := B_scan (Suc i)\<rparr>"]) (simp add: Q_copy_from_empty)
next
  case False
  let ?ids = "map int [0..<length (outs s)]" and ?os = "map (Q_copy (ins s ! i)) (outs s)"
  let ?s1 = "s\<lparr>bpc_of := B_enter i\<rparr>" let ?s2 = "?s1\<lparr>bpc_of := B_copy i ?ids\<rparr>"
  let ?s3 = "?s2\<lparr>dman := (dman ?s2)\<lparr>m_outQueues := ?os\<rparr>, bpc_of := B_copy i []\<rparr>"
  let ?s4 = "set_in i ((ins ?s3 ! i)\<lparr>queue := []\<rparr>)
      (?s3\<lparr>bpc_of := B_scan (Suc i), sent := sent ?s3 @ map (Pair i) (queue (ins ?s3 ! i))\<rparr>)"
  have "b_alone s ?s1" using False assms by (intro b_alone_step bstep.scan_hit) simp_all
  moreover have "b_alone ?s1 ?s2" using bstep.enter [of ?s1 i] by (intro b_alone_step) simp
  moreover have "b_alone ?s2 ?s3"
  proof (rule b_alone_copy)
    show "Q_copy_loop (ins ?s2 ! i) (outs ?s2) ?ids = Inr ?os"
      using Q_copy_to_all [of "ins s ! i" "outs s"] by (simp add: Q_copy_to_def split: sum.splits)
  qed simp
  moreover have "b_alone ?s3 ?s4" using bstep.copy_end [of ?s3 i] by (intro b_alone_step) simp
  ultimately have "b_alone s ?s4" by (blast intro: b_alone_trans)
  then show ?thesis by (intro exI [of _ ?s4]) (simp add: set_in_def Q_new_def)
qed

lemma b_alone_pass:
  "bpc_of s = B_scan i \<Longrightarrow> i \<le> length (ins s) \<Longrightarrow> outs s \<noteq> [] \<Longrightarrow>
   \<exists>s'. b_alone s s' \<and> bpc_of s' = B_scan (length (ins s))
     \<and> dman s' = (dman s)\<lparr>m_inQueues := take i (ins s) @ map (\<lambda>_. Q_new) (drop i (ins s)),
          m_outQueues := map (\<lambda>q. \<lparr>queue = queue q @ concat (map queue (drop i (ins s)))\<rparr>) (outs s)\<rparr>"
proof (induction "length (ins s) - i" arbitrary: i s)
  case 0
  then have "length (ins s) = i" by simp
  with 0 b_alone_refl show ?case by (intro exI [of _ s]) auto
next
  case (Suc n)
  then have i: "i < length (ins s)" by simp
  from b_alone_queue [OF Suc.prems(1) i Suc.prems(3)] obtain s1 where s1: "b_alone s s1"
    "bpc_of s1 = B_scan (Suc i)" "dman s1 = (dman s)\<lparr>m_inQueues := (ins s)[i := Q_new],
      m_outQueues := map (Q_copy (ins s ! i)) (outs s)\<rparr>" by blast
  with Suc.hyps(2) i Suc.prems(3) have "\<exists>s'. b_alone s1 s' \<and> bpc_of s' = B_scan (length (ins s1))
     \<and> dman s' = (dman s1)\<lparr>m_inQueues := take (Suc i) (ins s1) @ map (\<lambda>_. Q_new) (drop (Suc i) (ins s1)),
          m_outQueues := map (\<lambda>q. \<lparr>queue = queue q @ concat (map queue (drop (Suc i) (ins s1)))\<rparr>) (outs s1)\<rparr>"
    by (intro Suc.hyps(1)) auto
  then obtain s2 where s2: "b_alone s1 s2" "bpc_of s2 = B_scan (length (ins s1))"
     "dman s2 = (dman s1)\<lparr>m_inQueues := take (Suc i) (ins s1) @ map (\<lambda>_. Q_new) (drop (Suc i) (ins s1)),
          m_outQueues := map (\<lambda>q. \<lparr>queue = queue q @ concat (map queue (drop (Suc i) (ins s1)))\<rparr>) (outs s1)\<rparr>"
    by blast
  have "drop i (ins s) = ins s ! i # drop (Suc i) (ins s)" using i by (simp add: Cons_nth_drop_Suc)
  moreover have "take (Suc i) ((ins s)[i := Q_new]) = take i (ins s) @ [Q_new]"
    using i by (simp add: take_Suc_conv_app_nth)
  ultimately show ?case using s1 s2 i
    by (intro exI [of _ s2]) (auto simp: comp_def intro: b_alone_trans)
qed

lemma b_alone_no_outs:
  "bpc_of s = B_scan i \<Longrightarrow> i \<le> length (ins s) \<Longrightarrow> outs s = [] \<Longrightarrow>
   b_alone s (s\<lparr>bpc_of := B_scan (length (ins s))\<rparr>)"
proof (induction "length (ins s) - i" arbitrary: i s)
  case 0
  then have "s\<lparr>bpc_of := B_scan (length (ins s))\<rparr> = s" by simp
  then show ?case by (simp only: b_alone_refl)
next
  case (Suc n)
  let ?s = "s\<lparr>bpc_of := B_scan (Suc i)\<rparr>"
  have i: "i < length (ins s)" using Suc.hyps(2) by simp
  have "b_alone s ?s" using Suc.prems i by (intro b_alone_step bstep.scan_skip) simp_all
  moreover have "b_alone ?s (?s\<lparr>bpc_of := B_scan (length (ins ?s))\<rparr>)"
    by (rule Suc.hyps(1) [where i = "Suc i"]) (use Suc.hyps(2) Suc.prems i in auto)
  ultimately show ?case by (auto intro: b_alone_trans)
qed

section \<open>Properties\<close>

text \<open>
  C4: broadcast under concurrency. In every reachable state, whatever the interleaving of
  feeders, consumers, \<open>stop\<close> and the broadcasting thread, there is one log, the same for
  all consumers, in which every entry comes from one of the feeder queues:
  what each feeder queue ever received is its part of the log followed by what it still
  holds, in order; and what consumer \<open>j\<close> took so far followed by what waits
  for it is the whole log, plus the batch being copied right now if \<open>j\<close> had its turn.
  So no message is lost, duplicated, reordered within a feeder, or seen by two consumers
  in different orders.
\<close>

theorem broadcast_interleaved:
  assumes "b_reach s"
  shows "\<exists>log. list_all (\<lambda>p. fst p < length (ins s)) log
    \<and> (\<forall>i < length (ins s). pushed s i = from_queue i log @ queue (ins s ! i))
    \<and> (\<forall>j < length (outs s). got s j @ queue (outs s ! j) = map snd log @ in_flight s j)"
  using b_reach_inv [OF assms] unfolding b_inv_def by blast

text \<open>A run to apply it to: the test configuration, after one push and with the copy begun.\<close>

definition b_example :: "string bsys" where
  "b_example = (b_init dm_example)\<lparr>
     dman := dm_example\<lparr>m_inQueues := [Q_push ''Hello'' Q_new, Q_new]\<rparr>,
     pushed := (\<lambda>_. [])(0 := [''Hello''])\<rparr>"

lemma b_example_reach: "b_reach b_example"
proof -
  have "b_reach (b_init dm_example)"
    by (rule b_start [OF dm_example_reachable]) (simp_all add: dm_example_eq)
  moreover have "bstep (b_init dm_example) A_feeder b_example"
    using bstep.feed [of "b_init dm_example" "''Feeder0''" 0 "''Hello''"
        "dm_example\<lparr>m_inQueues := [Q_push ''Hello'' Q_new, Q_new]\<rparr>"]
    by (simp add: b_example_def b_init_def dm_example_eq DM_push_def vec_at_def in_range_def)
  ultimately show ?thesis by (rule b_next)
qed

theorem broadcast_interleaved_witness:
  "\<exists>log. list_all (\<lambda>p. fst p < 2) log \<and> pushed b_example 0 = from_queue 0 log @ [''Hello'']
     \<and> pushed b_example 1 = from_queue 1 log \<and> got b_example 0 @ [] = map snd log"
  using broadcast_interleaved [OF b_example_reach]
  by (auto simp: b_example_def b_init_def dm_example_eq in_flight_def)

lemma mset_from_queues:
  "list_all (\<lambda>p. fst p < n) log \<Longrightarrow> mset (map snd log) = (\<Sum>i<n. mset (from_queue i log))"
proof (induction log)
  case (Cons p log)
  have "(\<Sum>i<n. mset (from_queue i (p # log))) =
      (\<Sum>i<n. (if i = fst p then {#snd p#} else {#}) + mset (from_queue i log))"
    by (intro sum.cong) (auto simp: from_queue_def)
  also have "\<dots> = {#snd p#} + (\<Sum>i<n. mset (from_queue i log))"
    using Cons.prems by (simp add: sum.distrib)
  finally show ?case using Cons by simp
qed (simp add: from_queue_def)

lemma b_alone_reach: "b_alone s s' \<Longrightarrow> b_reach s \<Longrightarrow> b_reach s'"
  unfolding b_alone_def by (induction rule: rtranclp_induct) (blast intro: b_next)+

lemma bstep_broadcaster_ghosts:
  "bstep s who s' \<Longrightarrow> who = A_broadcaster \<Longrightarrow> pushed s' = pushed s \<and> got s' = got s"
  by (induction rule: bstep.induct) (auto simp: bsys_simps)

lemma b_alone_ghosts: "b_alone s s' \<Longrightarrow> pushed s' = pushed s \<and> got s' = got s"
  unfolding b_alone_def
  by (induction rule: rtranclp_induct) (auto dest: bstep_broadcaster_ghosts)

text \<open>The example carried on: one pass, then the consumer pops.\<close>

lemma b_example_delivered:
  "\<exists>s. b_reach s \<and> list_all Q_empty (ins s) \<and> list_all Q_empty (outs s) \<and> length (ins s) = 2
     \<and> length (outs s) = 1 \<and> pushed s = (\<lambda>_. [])(0 := [''Hello'']) \<and> got s 0 = [''Hello'']"
proof -
  let ?s1 = "b_example\<lparr>dman := (dman b_example)\<lparr>isRunning := True\<rparr>, bpc_of := B_scan 0\<rparr>"
  have "bstep b_example A_broadcaster ?s1"
    by (rule bstep.start) (simp add: b_example_def b_init_def)
  with b_example_reach have r1: "b_reach ?s1" by (rule b_next)
  have "bpc_of ?s1 = B_scan 0" "0 \<le> length (ins ?s1)" "outs ?s1 \<noteq> []"
    by (simp_all add: b_example_def b_init_def dm_example_eq)
  from b_alone_pass [OF this] obtain s2 where s2: "b_alone ?s1 s2"
    and dm: "dman s2 = dm_example\<lparr>isRunning := True, m_inQueues := [Q_new, Q_new],
      m_outQueues := [\<lparr>queue = [''Hello'']\<rparr>]\<rparr>"
    by (auto simp: b_example_def b_init_def dm_example_eq)
  have r2: "b_reach s2" using s2 r1 by (rule b_alone_reach)
  let ?dm3 = "dm_example\<lparr>isRunning := True, m_inQueues := [Q_new, Q_new], m_outQueues := [Q_new]\<rparr>"
  let ?s3 = "s2\<lparr>dman := ?dm3, got := (got s2)(nat 0 := got s2 (nat 0) @ [''Hello''])\<rparr>"
  have "bstep s2 A_consumer ?s3"
    by (rule bstep.consume [where c = "''Consumer1''" and b = True])
      (simp_all add: dm dm_example_eq DM_pop_def vec_at_def in_range_def Q_move_def Q_new_def)
  with r2 have "b_reach ?s3" by (rule b_next)
  with b_alone_ghosts [OF s2] show ?thesis
    by (intro exI [of _ ?s3]) (simp add: b_example_def b_init_def dm_example_eq)
qed

text \<open>
  C1: exactly once, when things are quiet. In a reachable state in which every input and
  output queue is empty, there is one sequence of messages, each with the feeder queue it
  came from, that every consumer has received; it contains what each feeder pushed,
  complete and in order, and nothing else, so that as a multiset what a consumer got is the
  sum of what all feeders pushed.
\<close>

theorem broadcast_exactly_once:
  assumes "b_reach s" and "list_all Q_empty (ins s)" and "list_all Q_empty (outs s)"
  shows "\<exists>log. list_all (\<lambda>p. fst p < length (ins s)) log
    \<and> (\<forall>i < length (ins s). from_queue i log = pushed s i)
    \<and> (\<forall>j < length (outs s). got s j = map snd log
         \<and> mset (got s j) = (\<Sum>i<length (ins s). mset (pushed s i)))"
proof -
  have inv: "b_inv s" using assms(1) by (rule b_reach_inv)
  have got: "got s j = map snd (sent s)" if "j < length (outs s)" for j
  proof -
    have "in_flight s j = []"
      using assms(2) inv by (auto simp: in_flight_def b_inv_def list_all_length split: bpc.split)
    with inv assms(3) that show ?thesis by (fastforce simp: b_inv_def list_all_length)
  qed
  have log: "from_queue i (sent s) = pushed s i" if "i < length (ins s)" for i
    using that inv assms(2) by (auto simp: b_inv_def list_all_length)
  have valid: "list_all (\<lambda>p. fst p < length (ins s)) (sent s)" using inv by (simp add: b_inv_def)
  then have "mset (map snd (sent s)) = (\<Sum>i<length (ins s). mset (from_queue i (sent s)))"
    by (rule mset_from_queues)
  with got log have "mset (got s j) = (\<Sum>i<length (ins s). mset (pushed s i))"
    if "j < length (outs s)" for j
    using that by simp
  with got log valid show ?thesis by (intro exI [of _ "sent s"]) blast
qed

theorem broadcast_exactly_once_witness:
  "\<exists>s log. b_reach s \<and> length (outs s) = 1 \<and> got s 0 = [''Hello''] \<and> map snd log = [''Hello'']
     \<and> from_queue 0 log = [''Hello''] \<and> (\<Sum>i<length (ins s). mset (pushed s i)) = {#''Hello''#}"
proof -
  from b_example_delivered obtain s where s: "b_reach s" "list_all Q_empty (ins s)"
    "list_all Q_empty (outs s)" "length (ins s) = 2" "length (outs s) = 1"
    "pushed s = (\<lambda>_. [])(0 := [''Hello''])" "got s 0 = [''Hello'']" by blast
  from broadcast_exactly_once [OF s(1-3)] s(5) obtain log where
    log: "got s 0 = map snd log" "\<forall>i < length (ins s). from_queue i log = pushed s i"
      "mset (got s 0) = (\<Sum>i<length (ins s). mset (pushed s i))" by auto
  from log(1) s(7) have "map snd log = [''Hello'']" by simp
  moreover from log(2) s(4,6) have "from_queue 0 log = [''Hello'']" by simp
  moreover from log(3) s(7) have "(\<Sum>i<length (ins s). mset (pushed s i)) = {#''Hello''#}" by simp
  ultimately show ?thesis using s(1,5,7) by (intro exI [of _ s] exI [of _ log] conjI)
qed

text \<open>
  C20: the critical sections add up to \<open>manageBroadcast\<close>. From the start of a pass, the
  broadcasting thread running alone reaches the end of the pass in finitely many steps, in
  the very state that \<open>manageBroadcast\<close> computes.
\<close>

theorem broadcast_steps_are_manageBroadcast:
  assumes "bpc_of s = B_scan 0"
  shows "\<exists>s'. b_alone s s' \<and> bpc_of s' = B_scan (length (ins s)) \<and> manageBroadcast (dman s) = Inr (dman s')"
proof (cases "outs s = []")
  case True
  with b_alone_no_outs [OF assms] show ?thesis
    by (intro exI [of _ "s\<lparr>bpc_of := B_scan (length (ins s))\<rparr>"]) (simp add: manageBroadcast_eq)
next
  case False
  from b_alone_pass [OF assms _ this] False show ?thesis by (auto simp: manageBroadcast_eq)
qed

theorem broadcast_steps_are_manageBroadcast_witness:
  "\<exists>s'. b_alone (b_example\<lparr>bpc_of := B_scan 0\<rparr>) s' \<and> manageBroadcast (dman b_example) = Inr (dman s')"
  using broadcast_steps_are_manageBroadcast [of "b_example\<lparr>bpc_of := B_scan 0\<rparr>"] by auto

end
