(* ===== verification/Nodes.thy ===== *)
theory Nodes
  imports Data_Manager
begin

text \<open>
  What all nodes share: the class \<open>Runnable\<close> (include/runnable.hpp, src/runnable.cpp), its
  subclass \<open>ProxyNode\<close> (include/proxyNode.hpp), socket addresses, and what the operating
  system answers to the socket calls of the nodes.

  A node holds a pointer to the one data manager; here the data manager is passed to the
  operations that use it and returned by them. The operating system is not part of the
  sources: its answers are the fields of the record \<open>os\<close>, arguments of the operations.
\<close>

section \<open>Runnable and ProxyNode\<close>

record Runnable =
  m_isRunning :: bool

definition Runnable_ctor :: Runnable where
  "Runnable_ctor = \<lparr>m_isRunning = False\<rparr>"

definition Runnable_run :: "'a Runnable_scheme \<Rightarrow> bool \<times> 'a Runnable_scheme" where
  "Runnable_run r = (True, r\<lparr>m_isRunning := True\<rparr>)"

definition Runnable_stop :: "'a Runnable_scheme \<Rightarrow> bool \<times> 'a Runnable_scheme" where
  "Runnable_stop r = (True, r\<lparr>m_isRunning := False\<rparr>)"

record ProxyNode = Runnable +
  m_name :: string
  m_port :: "16 word"

definition ProxyNode_ctor :: "string \<Rightarrow> 16 word \<Rightarrow> ProxyNode" where
  "ProxyNode_ctor name port = Runnable.extend Runnable_ctor (ProxyNode.fields name port)"

lemma ProxyNode_ctor_eq [simp]:
  "ProxyNode_ctor name port = \<lparr>m_isRunning = False, m_name = name, m_port = port\<rparr>"
  by (simp add: ProxyNode_ctor_def Runnable_ctor_def Runnable.extend_def ProxyNode.fields_def)

section \<open>Byte order\<close>

unbundle bit_operations_syntax

text \<open>
  \<open>htons\<close> on a little-endian host: the two bytes of the port change places. \<open>sin_port\<close> is
  kept in network byte order.
\<close>

definition htons :: "16 word \<Rightarrow> 16 word" where
  "htons p = push_bit 8 p OR drop_bit 8 p"

definition ntohs :: "16 word \<Rightarrow> 16 word" where
  "ntohs p = htons p"

lemma bit_htons: "bit (htons p) n \<longleftrightarrow> n < 16 \<and> bit p (if n < 8 then n + 8 else n - 8)"
proof (cases "n < 16")
  case True
  have "bit p (n + 8) \<Longrightarrow> n < 8" using bit_imp_le_length [of p "n + 8"] by simp
  with True show ?thesis
    by (auto simp: htons_def bit_or_iff bit_push_bit_iff bit_drop_bit_eq ac_simps)
next
  case False
  then show ?thesis using bit_imp_le_length [of "htons p" n] by auto
qed

lemma htons_htons [simp]: "htons (htons p) = p"
proof (rule bit_eqI)
  fix n
  show "bit (htons (htons p)) n = bit p n"
    using bit_imp_le_length [of p n] by (auto simp: bit_htons)
qed

lemma ntohs_htons: "ntohs (htons p) = p"
  by (simp add: ntohs_def)

section \<open>Addresses\<close>

text \<open>\<open>sin_addr\<close> holds the four bytes of the address in the order in which they are written.\<close>

record sockaddr_in =
  sin_port :: "16 word"
  sin_addr :: "8 word \<times> 8 word \<times> 8 word \<times> 8 word"

definition loopback :: "8 word \<times> 8 word \<times> 8 word \<times> 8 word" where
  "loopback = (127, 0, 0, 1)"

text \<open>The address every socket of the program uses: 127.0.0.1 and the given port.\<close>

definition local_addr :: "16 word \<Rightarrow> sockaddr_in" where
  "local_addr port = \<lparr>sin_port = htons port, sin_addr = loopback\<rparr>"

section \<open>The operating system\<close>

text \<open>
  \<open>os_socket\<close> and \<open>os_bind\<close> are the results of the system calls; \<open>os_strerror\<close> is the text
  of the last error.
\<close>

record os =
  os_socket :: int
  os_bind :: "sockaddr_in \<Rightarrow> int"
  os_strerror :: string

text \<open>A machine on which every call succeeds, and one whose ports are taken.\<close>

definition os_good :: os where
  "os_good = \<lparr>os_socket = 3, os_bind = (\<lambda>_. 0), os_strerror = ''''\<rparr>"

definition os_busy :: os where
  "os_busy = \<lparr>os_socket = 3, os_bind = (\<lambda>_. - 1), os_strerror = ''Address already in use''\<rparr>"

text \<open>Socket, address and bind, as \<open>createListenSocket\<close> and \<open>createRxSocket\<close> share them.\<close>

definition bound_socket :: "os \<Rightarrow> 16 word \<Rightarrow> (int \<times> sockaddr_in) res" where
  "bound_socket os port =
     (if os_socket os < 0 then Inl (Runtime_error (os_strerror os))
      else if os_bind os (local_addr port) < 0
        then Inl (Runtime_error (''Cannot bind to asked port '' @ os_strerror os))
      else Inr (os_socket os, local_addr port))"

lemma bound_socket_ok_iff:
  "is_ok (bound_socket os port) \<longleftrightarrow> 0 \<le> os_socket os \<and> 0 \<le> os_bind os (local_addr port)"
  by (auto simp: bound_socket_def)

lemma bound_socket_defined: "bound_socket os port \<noteq> Inl (Undefined u)"
  by (simp add: bound_socket_def)

end
