(* ===== verification/Tcp.thy ===== *)
theory Tcp
  imports Nodes Data_Manager_Spec
begin

text \<open>
  The classes \<open>TcpServer\<close> and \<open>TcpClient\<close> of include/tcp.hpp and src/tcp.cpp. The server
  is a feeder: each call of \<open>run\<close> accepts at most one client, polls all its clients and
  pushes what they sent to the data manager.

  What the system calls answer during one call of \<open>run\<close> is the record \<open>tcp_env\<close>. Byte
  buffers are lists of characters with their length written out, so that an access past
  the end is a value of the model (\<open>Undefined\<close>).
\<close>

section \<open>Server: state and construction\<close>

definition BACKLOG :: nat where "BACKLOG = 50"
definition MSG_MAX_SIZE :: nat where "MSG_MAX_SIZE = 512"

record pollfd =
  fd :: int
  events :: "16 word"
  revents :: "16 word"

abbreviation POLLIN :: "16 word" where "POLLIN \<equiv> 0x1"
abbreviation POLLPRI :: "16 word" where "POLLPRI \<equiv> 0x2"
abbreviation POLLERR :: "16 word" where "POLLERR \<equiv> 0x8"
abbreviation POLLHUP :: "16 word" where "POLLHUP \<equiv> 0x10"
abbreviation POLLRDHUP :: "16 word" where "POLLRDHUP \<equiv> 0x2000"

record TcpServer = ProxyNode +
  m_connectedClientsFds :: "int list"
  m_Address :: sockaddr_in
  m_sockfd :: int

text \<open>
  \<open>te_accept\<close>: the result of \<open>accept\<close>; \<open>te_poll\<close>: the result of \<open>poll\<close>; \<open>te_revents\<close>: what
  \<open>poll\<close> writes (or, when it fails, what was there); \<open>te_read\<close>: for a descriptor and a count,
  the result of \<open>read\<close> and the bytes that are then in the buffer; \<open>te_junk\<close>: what a new
  array of \<open>pollfd\<close> happens to hold. The sizes of the two arrays are in \<open>readRxData\<close> and
  \<open>checkRx\<close>, where the code allocates them.
\<close>

record tcp_env =
  te_accept :: int
  te_poll :: int
  te_revents :: "int \<Rightarrow> 16 word"
  te_read :: "int \<Rightarrow> nat \<Rightarrow> int \<times> (nat \<Rightarrow> char)"
  te_junk :: "nat \<Rightarrow> pollfd"

text \<open>What the manual page promises: \<open>read\<close> returns at most the count it was given.\<close>

definition env_ok :: "tcp_env \<Rightarrow> bool" where
  "env_ok te \<longleftrightarrow> (\<forall>i n. fst (te_read te i n) \<le> int n)"

text \<open>The result of \<open>listen\<close> is ignored.\<close>

definition createListenSocket :: "os \<Rightarrow> 16 word \<Rightarrow> (int \<times> sockaddr_in) res" where
  "createListenSocket os port = bound_socket os port"

text \<open>
  The constructor registers the feeder first; when the socket cannot be made the exception
  leaves the registration behind. The result of \<open>setFeeder\<close> is not looked at.
\<close>

definition TcpServer_ctor ::
  "os \<Rightarrow> string \<Rightarrow> 16 word \<Rightarrow> string DataManager \<Rightarrow> TcpServer res \<times> string DataManager"
where
  "TcpServer_ctor os name tcpPort dm =
     (let dm' = snd (setFeeder name dm) in
      case createListenSocket os tcpPort of
        Inl e \<Rightarrow> (Inl e, dm')
      | Inr (sockfd, addr) \<Rightarrow>
          (Inr (ProxyNode.extend (ProxyNode_ctor name tcpPort) (TcpServer.fields [] addr sockfd)), dm'))"

section \<open>Server: operations\<close>

text \<open>\<open>acceptConnectionReq\<close>: the listening socket is non-blocking, so a negative result is the normal case.\<close>

definition acceptConnectionReq :: "int \<Rightarrow> TcpServer \<Rightarrow> TcpServer" where
  "acceptConnectionReq newfd s =
     (if newfd < 0 then s else s\<lparr>m_connectedClientsFds := m_connectedClientsFds s @ [newfd]\<rparr>)"

definition remConnectedClient :: "int \<Rightarrow> TcpServer \<Rightarrow> TcpServer" where
  "remConnectedClient i s = s\<lparr>m_connectedClientsFds := removeAll i (m_connectedClientsFds s)\<rparr>"

text \<open>The loop of \<open>fdToPollFdArray\<close> over the list of clients, at position \<open>pos\<close> of the array.\<close>

fun fdToPollFdArray :: "nat \<Rightarrow> int list \<Rightarrow> pollfd list \<Rightarrow> pollfd list res" where
  "fdToPollFdArray pos [] arr = Inr arr"
| "fdToPollFdArray pos (i # is) arr =
     (if pos < length arr then
        fdToPollFdArray (Suc pos) is
          (arr[pos := (arr ! pos)\<lparr>fd := i, events := POLLIN OR POLLPRI OR POLLERR OR POLLRDHUP\<rparr>])
      else Inl (Undefined Write_past_end))"

text \<open>\<open>pollFds\<close> with the kernel's part: \<open>poll\<close> sets \<open>revents\<close> of the first elements.\<close>

definition poll_writes :: "tcp_env \<Rightarrow> nat \<Rightarrow> pollfd list \<Rightarrow> pollfd list" where
  "poll_writes te n arr = map (\<lambda>p. p\<lparr>revents := te_revents te (fd p)\<rparr>) (take n arr) @ drop n arr"

definition pollFds :: "tcp_env \<Rightarrow> pollfd list \<Rightarrow> TcpServer \<Rightarrow> (int \<times> pollfd list) res" where
  "pollFds te arr s =
     (case fdToPollFdArray 0 (m_connectedClientsFds s) arr of
        Inl e \<Rightarrow> Inl e
      | Inr arr' \<Rightarrow> Inr (te_poll te, poll_writes te (length (m_connectedClientsFds s)) arr'))"

definition hasPeerHungup :: "pollfd \<Rightarrow> bool" where
  "hasPeerHungup p \<longleftrightarrow> revents p AND (POLLHUP OR POLLERR OR POLLRDHUP) \<noteq> 0"

definition hasReceivedData :: "pollfd \<Rightarrow> bool" where
  "hasReceivedData p \<longleftrightarrow> revents p AND POLLIN \<noteq> 0"

text \<open>
  \<open>readRxData\<close>: the bytes that \<open>read\<close> says it wrote, without the NULs. Only the result 0
  keeps the message from being pushed.
\<close>

fun strip_loop :: "nat \<Rightarrow> char list \<Rightarrow> string res" where
  "strip_loop 0 msgBuf = Inr ''''"
| "strip_loop (Suc n) [] = Inl (Undefined Read_past_end)"
| "strip_loop (Suc n) (c # cs) =
     (case strip_loop n cs of
        Inl e \<Rightarrow> Inl e
      | Inr strippedMsg \<Rightarrow> Inr (if c \<noteq> NUL then c # strippedMsg else strippedMsg))"

definition readRxData ::
  "tcp_env \<Rightarrow> pollfd \<Rightarrow> TcpServer \<Rightarrow> string DataManager \<Rightarrow> string DataManager res"
where
  "readRxData te p s dm =
     (let (msgSize, bytes) = te_read te (fd p) MSG_MAX_SIZE;
          msgBuf = map bytes [0..<MSG_MAX_SIZE] in
      case strip_loop (nat msgSize) msgBuf of
        Inl e \<Rightarrow> Inl e
      | Inr strippedMsg \<Rightarrow> if msgSize \<noteq> 0 then DM_push strippedMsg (m_name s) dm else Inr dm)"

text \<open>
  The loop of \<open>checkRx\<close> from index \<open>i\<close> on, over the rest of the array. Its bound is the
  present length of the list of clients, which shrinks when one is removed.
\<close>

fun checkRx_loop ::
  "tcp_env \<Rightarrow> nat \<Rightarrow> pollfd list \<Rightarrow> TcpServer \<Rightarrow> string DataManager \<Rightarrow> (TcpServer \<times> string DataManager) res"
where
  "checkRx_loop te i [] s dm =
     (if i < length (m_connectedClientsFds s) then Inl (Undefined Read_past_end) else Inr (s, dm))"
| "checkRx_loop te i (p # ps) s dm =
     (if i < length (m_connectedClientsFds s) then
        if hasPeerHungup p then checkRx_loop te (Suc i) ps (remConnectedClient (fd p) s) dm
        else if hasReceivedData p then
          (case readRxData te p s dm of Inl e \<Rightarrow> Inl e | Inr dm' \<Rightarrow> checkRx_loop te (Suc i) ps s dm')
        else checkRx_loop te (Suc i) ps s dm
      else Inr (s, dm))"

definition checkRx ::
  "tcp_env \<Rightarrow> TcpServer \<Rightarrow> string DataManager \<Rightarrow> (TcpServer \<times> string DataManager) res"
where
  "checkRx te s dm =
     (case pollFds te (map (te_junk te) [0..<BACKLOG]) s of
        Inl e \<Rightarrow> Inl e
      | Inr (p, pollfds) \<Rightarrow> if p \<noteq> 0 then checkRx_loop te 0 pollfds s dm else Inr (s, dm))"

definition TcpServer_run ::
  "tcp_env \<Rightarrow> TcpServer \<Rightarrow> string DataManager \<Rightarrow> (bool \<times> TcpServer \<times> string DataManager) res"
where
  "TcpServer_run te s dm =
     (case checkRx te (acceptConnectionReq (te_accept te) s) dm of
        Inl e \<Rightarrow> Inl e
      | Inr (s', dm') \<Rightarrow> Inr (True, s', dm'))"

section \<open>What a call of \<open>run\<close> does\<close>

definition rx_message :: "tcp_env \<Rightarrow> pollfd \<Rightarrow> string" where
  "rx_message te p = (let (n, bytes) = te_read te (fd p) MSG_MAX_SIZE in
     filter (\<lambda>c. c \<noteq> NUL) (map bytes [0..<nat n]))"

definition rx_messages :: "tcp_env \<Rightarrow> pollfd list \<Rightarrow> string list" where
  "rx_messages te ps = map (rx_message te)
     (filter (\<lambda>p. \<not> hasPeerHungup p \<and> hasReceivedData p \<and> fst (te_read te (fd p) MSG_MAX_SIZE) \<noteq> 0) ps)"

text \<open>The array elements of the clients after \<open>poll\<close>.\<close>

definition polled :: "tcp_env \<Rightarrow> int list \<Rightarrow> pollfd list" where
  "polled te is = map (\<lambda>i. \<lparr>fd = i, events = POLLIN OR POLLPRI OR POLLERR OR POLLRDHUP,
     revents = te_revents te i\<rparr>) is"

text \<open>
  The elements that the loop looks at: from index \<open>i\<close> on, with \<open>n\<close> clients in the list.
\<close>

fun visited :: "nat \<Rightarrow> nat \<Rightarrow> pollfd list \<Rightarrow> pollfd list" where
  "visited i n [] = []"
| "visited i n (p # ps) =
     (if i < n then p # visited (Suc i) (if hasPeerHungup p then n - 1 else n) ps else [])"

abbreviation clients :: "tcp_env \<Rightarrow> TcpServer \<Rightarrow> int list" where
  "clients te s \<equiv> m_connectedClientsFds (acceptConnectionReq (te_accept te) s)"

abbreviation served :: "tcp_env \<Rightarrow> TcpServer \<Rightarrow> pollfd list" where
  "served te s \<equiv> visited 0 (length (clients te s)) (polled te (clients te s))"

lemma strip_loop_ok: "n \<le> length buf \<Longrightarrow> strip_loop n buf = Inr (filter (\<lambda>c. c \<noteq> NUL) (take n buf))"
  by (induction n buf rule: strip_loop.induct) auto

lemma readRxData_eq:
  assumes "fst (te_read te (fd p) MSG_MAX_SIZE) \<le> int MSG_MAX_SIZE"
  shows "readRxData te p s dm =
     (if fst (te_read te (fd p) MSG_MAX_SIZE) \<noteq> 0 then DM_push (rx_message te p) (m_name s) dm else Inr dm)"
proof -
  obtain m b where mb: "te_read te (fd p) MSG_MAX_SIZE = (m, b)" by force
  with assms have "nat m \<le> MSG_MAX_SIZE" by simp
  with mb show ?thesis by (simp add: readRxData_def rx_message_def strip_loop_ok take_map)
qed

lemma env_okD: "env_ok te \<Longrightarrow> fst (te_read te i n) \<le> int n"
  by (simp add: env_ok_def)

lemma fdToPollFdArray_fits:
  "pos + length is \<le> length arr \<Longrightarrow> \<exists>arr'. fdToPollFdArray pos is arr = Inr arr' \<and> length arr' = length arr
     \<and> take pos arr' = take pos arr
     \<and> (\<forall>k < length is. fd (arr' ! (pos + k)) = is ! k
          \<and> events (arr' ! (pos + k)) = POLLIN OR POLLPRI OR POLLERR OR POLLRDHUP)"
proof (induction "is" arbitrary: pos arr)
  case (Cons i "is")
  let ?arr = "arr[pos := (arr ! pos)\<lparr>fd := i, events := POLLIN OR POLLPRI OR POLLERR OR POLLRDHUP\<rparr>]"
  from Cons.prems have pos: "pos < length arr" by simp
  from Cons.IH [of "Suc pos" ?arr] Cons.prems obtain arr' where
    arr': "fdToPollFdArray (Suc pos) is ?arr = Inr arr'" "length arr' = length arr"
      "take (Suc pos) arr' = take (Suc pos) ?arr"
      "\<forall>k < length is. fd (arr' ! (Suc pos + k)) = is ! k
         \<and> events (arr' ! (Suc pos + k)) = POLLIN OR POLLPRI OR POLLERR OR POLLRDHUP"
    by auto
  have "arr' ! pos = ?arr ! pos"
    using arr'(3) by (metis lessI nth_take)
  moreover have "take pos arr' = take pos arr"
    using arg_cong [OF arr'(3), of "take pos"] by simp
  ultimately show ?case
    using arr' pos by (auto simp: nth_Cons split: nat.split)
qed simp

lemma fdToPollFdArray_overflow:
  "pos \<le> length arr \<Longrightarrow> length arr < pos + length is \<Longrightarrow>
   fdToPollFdArray pos is arr = Inl (Undefined Write_past_end)"
  by (induction "is" arbitrary: pos arr) auto

lemma pollfd_eqI: "fd p = fd q \<Longrightarrow> events p = events q \<Longrightarrow> revents p = revents (q :: pollfd) \<Longrightarrow> p = q"
  by simp

lemma pollFds_ok:
  assumes "length (m_connectedClientsFds s) \<le> length arr"
  shows "\<exists>rest. pollFds te arr s = Inr (te_poll te, polled te (m_connectedClientsFds s) @ rest)"
proof -
  let ?is = "m_connectedClientsFds s"
  from fdToPollFdArray_fits [of 0 ?is arr] assms obtain arr' where
    arr': "fdToPollFdArray 0 ?is arr = Inr arr'" "length arr' = length arr"
      "\<forall>k < length ?is. fd (arr' ! k) = ?is ! k
         \<and> events (arr' ! k) = POLLIN OR POLLPRI OR POLLERR OR POLLRDHUP" by auto
  have "map (\<lambda>p. p\<lparr>revents := te_revents te (fd p)\<rparr>) (take (length ?is) arr') = polled te ?is"
    using arr' assms by (intro nth_equalityI) (auto simp: polled_def intro!: pollfd_eqI)
  with arr'(1) show ?thesis by (simp add: pollFds_def poll_writes_def)
qed

lemma checkRx_loop_end: "length (m_connectedClientsFds s) \<le> i \<Longrightarrow> checkRx_loop te i ps s dm = Inr (s, dm)"
  by (cases ps) auto

lemma distinct_clients: "distinct xs \<Longrightarrow> i \<in> set xs \<Longrightarrow> length (removeAll i xs) = length xs - 1"
  by (simp add: distinct_remove1_removeAll [symmetric] length_remove1)

lemma checkRx_loop_eq:
  assumes "env_ok te"
  shows "distinct (m_connectedClientsFds s) \<Longrightarrow> distinct (map fd ps) \<Longrightarrow>
    fd ` set ps \<subseteq> set (m_connectedClientsFds s) \<Longrightarrow>
    length (m_connectedClientsFds s) \<le> i + length ps \<Longrightarrow>
    checkRx_loop te i (ps @ rest) s dm =
      (let seen = visited i (length (m_connectedClientsFds s)) ps in
       case push_all DM_push (rx_messages te seen) (m_name s) dm of
         Inl e \<Rightarrow> Inl e
       | Inr dm' \<Rightarrow> Inr (s\<lparr>m_connectedClientsFds :=
           filter (\<lambda>k. k \<notin> fd ` set (filter hasPeerHungup seen)) (m_connectedClientsFds s)\<rparr>, dm'))"
proof (induction ps arbitrary: i s dm)
  case Nil
  then show ?case by (simp add: checkRx_loop_end rx_messages_def)
next
  case (Cons p ps)
  let ?fds = "m_connectedClientsFds s"
  consider (fin) "length ?fds \<le> i" | (hup) "i < length ?fds" "hasPeerHungup p"
    | (data) "i < length ?fds" "\<not> hasPeerHungup p" by linarith
  then show ?case
  proof cases
    case fin
    then show ?thesis by (simp add: rx_messages_def)
  next
    case hup
    let ?s = "remConnectedClient (fd p) s"
    have fds: "m_connectedClientsFds ?s = removeAll (fd p) ?fds" "m_name ?s = m_name s"
      by (simp_all add: remConnectedClient_def)
    have len: "length (removeAll (fd p) ?fds) = length ?fds - 1"
      using Cons.prems by (simp add: distinct_clients)
    have "fd ` set ps \<subseteq> set (removeAll (fd p) ?fds)" using Cons.prems by (auto simp: image_iff)
    with Cons.prems fds len have IH: "checkRx_loop te (Suc i) (ps @ rest) ?s dm =
      (let seen = visited (Suc i) (length ?fds - 1) ps in
       case push_all DM_push (rx_messages te seen) (m_name s) dm of
         Inl e \<Rightarrow> Inl e
       | Inr dm' \<Rightarrow> Inr (?s\<lparr>m_connectedClientsFds :=
           filter (\<lambda>k. k \<notin> fd ` set (filter hasPeerHungup seen)) (removeAll (fd p) ?fds)\<rparr>, dm'))"
      by (subst Cons.IH) (simp_all add: distinct_removeAll Let_def split: sum.split)
    have "filter (\<lambda>k. k \<notin> fd ` set (filter hasPeerHungup seen)) (removeAll (fd p) ?fds)
        = filter (\<lambda>k. k \<notin> fd ` set (filter hasPeerHungup (p # seen))) ?fds" for seen
      using hup(2) by (auto simp: removeAll_filter_not_eq intro!: filter_cong)
    with IH hup show ?thesis
      by (simp add: rx_messages_def Let_def remConnectedClient_def split: sum.split)
  next
    case data
    have "checkRx_loop te (Suc i) (ps @ rest) s dm' =
      (let seen = visited (Suc i) (length ?fds) ps in
       case push_all DM_push (rx_messages te seen) (m_name s) dm' of
         Inl e \<Rightarrow> Inl e
       | Inr dm' \<Rightarrow> Inr (s\<lparr>m_connectedClientsFds :=
           filter (\<lambda>k. k \<notin> fd ` set (filter hasPeerHungup seen)) ?fds\<rparr>, dm'))" for dm'
      using Cons.prems by (intro Cons.IH) auto
    with data show ?thesis
      by (auto simp: rx_messages_def Let_def readRxData_eq [OF env_okD [OF assms]] split: sum.split)
  qed
qed

lemma polled_fds [simp]: "map fd (polled te is) = is" "length (polled te is) = length is"
  by (simp_all add: polled_def comp_def)

lemma TcpServer_run_eq:
  assumes "env_ok te" and "te_poll te \<noteq> 0" and "distinct (clients te s)"
    and "length (clients te s) \<le> BACKLOG"
  shows "TcpServer_run te s dm =
    (case push_all DM_push (rx_messages te (served te s)) (m_name s) dm of
       Inl e \<Rightarrow> Inl e
     | Inr dm' \<Rightarrow> Inr (True, s\<lparr>m_connectedClientsFds :=
         filter (\<lambda>k. k \<notin> fd ` set (filter hasPeerHungup (served te s))) (clients te s)\<rparr>, dm'))"
proof -
  let ?s = "acceptConnectionReq (te_accept te) s"
  have acc: "m_name ?s = m_name s" "?s\<lparr>m_connectedClientsFds := xs\<rparr> = s\<lparr>m_connectedClientsFds := xs\<rparr>" for xs
    by (simp_all add: acceptConnectionReq_def)
  have "length (clients te s) \<le> length (map (te_junk te) [0..<BACKLOG])" using assms(4) by simp
  then obtain rest where arr: "pollFds te (map (te_junk te) [0..<BACKLOG]) ?s = Inr (te_poll te, polled te (clients te s) @ rest)"
    using pollFds_ok by blast
  have "set (clients te s) = fd ` set (polled te (clients te s))"
    by (metis list.set_map polled_fds(1))
  then have "checkRx_loop te 0 (polled te (clients te s) @ rest) ?s dm =
      (case push_all DM_push (rx_messages te (served te s)) (m_name s) dm of
         Inl e \<Rightarrow> Inl e
       | Inr dm' \<Rightarrow> Inr (s\<lparr>m_connectedClientsFds :=
           filter (\<lambda>k. k \<notin> fd ` set (filter hasPeerHungup (served te s))) (clients te s)\<rparr>, dm'))"
    using assms(3) by (subst checkRx_loop_eq [OF assms(1)]) (simp_all add: Let_def acc split: sum.split)
  with arr assms(2) show ?thesis
    by (simp add: TcpServer_run_def checkRx_def split: sum.split)
qed

text \<open>
  C10: a call of \<open>run\<close> on a registered server with at most \<open>BACKLOG\<close> clients. It does not fail;
  it appends to the server's input queue one message for each client it looked at that has
  data and did not hang up, in the order of the list of clients, the message being what
  \<open>read\<close> delivered without its NULs; it removes from the list exactly the clients it
  found hung up; and no consumer's queue changes.
\<close>

theorem TcpServer_run_spec:
  assumes "env_ok te" and "te_poll te \<noteq> 0" and "distinct (clients te s)"
    and "length (clients te s) \<le> BACKLOG"
    and "dm_inv dm" and "dm_pending dm (m_name s) = Some ys"
  shows "\<exists>dm'. TcpServer_run te s dm = Inr (True, s\<lparr>m_connectedClientsFds :=
      filter (\<lambda>k. k \<notin> fd ` set (filter hasPeerHungup (served te s))) (clients te s)\<rparr>, dm')
    \<and> dm_pending dm' (m_name s) = Some (ys @ rx_messages te (served te s))
    \<and> dm_ready dm' = dm_ready dm"
proof -
  from dm.push_all_known [OF assms(5,6), of "rx_messages te (served te s)"] obtain dm' where
    dm': "push_all DM_push (rx_messages te (served te s)) (m_name s) dm = Inr dm'"
      "dm_pending dm' (m_name s) = Some (ys @ rx_messages te (served te s))" "dm_ready dm' = dm_ready dm"
    by auto
  then show ?thesis by (intro exI [of _ dm']) (simp add: TcpServer_run_eq [OF assms(1-4)])
qed

text \<open>A server of the test configuration with three clients; the first has hung up.\<close>

definition server0 :: TcpServer where
  "server0 = \<lparr>m_isRunning = False, m_name = ''Feeder0'', m_port = 8080,
     m_connectedClientsFds = [4, 5], m_Address = local_addr 8080, m_sockfd = 3\<rparr>"

definition hello_buf :: "nat \<Rightarrow> char" where
  "hello_buf k = (if k < 5 then ''Hello'' ! k else NUL)"

definition te_three :: tcp_env where
  "te_three = \<lparr>te_accept = 6, te_poll = 3,
     te_revents = (\<lambda>i. if i = 4 then POLLIN OR POLLRDHUP else POLLIN),
     te_read = (\<lambda>i n. (int (min n 32), hello_buf)), te_junk = (\<lambda>_. \<lparr>fd = 0, events = 0, revents = 0\<rparr>)\<rparr>"

lemma te_three_ok: "env_ok te_three"
  by (simp add: env_ok_def te_three_def)

lemma hello_read: "filter (\<lambda>c. c \<noteq> NUL) (map hello_buf [0..<32]) = ''Hello''"
  by (simp add: hello_buf_def upt_rec)

lemma te_three_served:
  "clients te_three server0 = [4, 5, 6]"
  "filter hasPeerHungup (served te_three server0) =
     [\<lparr>fd = 4, events = 0x200B, revents = 0x2001\<rparr>]"
  "served te_three server0 = polled te_three [4, 5]"
  "rx_messages te_three (served te_three server0) = [''Hello'']"
  by (simp_all add: te_three_def server0_def acceptConnectionReq_def polled_def hasPeerHungup_def
      rx_messages_def hasReceivedData_def rx_message_def hello_read MSG_MAX_SIZE_def)

theorem TcpServer_run_spec_witness:
  "\<exists>dm'. TcpServer_run te_three server0 dm_example = Inr (True, server0\<lparr>m_connectedClientsFds := [5, 6]\<rparr>, dm')
     \<and> dm_pending dm' ''Feeder0'' = Some [''Hello'']"
proof -
  have ok: "te_poll te_three \<noteq> 0" "distinct (clients te_three server0)"
    "length (clients te_three server0) \<le> BACKLOG" "dm_inv dm_example"
    "dm_pending dm_example (m_name server0) = Some []"
    using dm_reachable_inv [OF dm_example_reachable]
    by (simp_all add: te_three_served) (simp_all add: te_three_def BACKLOG_def server0_def dm_example_eq dm_pending_def)
  from TcpServer_run_spec [OF te_three_ok ok] show ?thesis
    unfolding te_three_served(2,4) unfolding te_three_served(1) by (auto simp: server0_def)
qed

section \<open>Limits of the loop\<close>

lemma visited_take:
  "n \<le> i + length ps \<Longrightarrow> \<exists>k \<le> length ps. visited i n ps = take k ps
     \<and> (\<forall>j < k. i + j + length (filter hasPeerHungup (take j ps)) < n)
     \<and> n \<le> i + k + length (filter hasPeerHungup (take k ps))"
proof (induction ps arbitrary: i n)
  case (Cons p ps)
  show ?case
  proof (cases "i < n")
    case True
    let ?n = "if hasPeerHungup p then n - 1 else n"
    have "?n \<le> Suc i + length ps" using Cons.prems by auto
    from Cons.IH [OF this] obtain k where k: "k \<le> length ps" "visited (Suc i) ?n ps = take k ps"
      "\<forall>j < k. Suc i + j + length (filter hasPeerHungup (take j ps)) < ?n"
      "?n \<le> Suc i + k + length (filter hasPeerHungup (take k ps))" by blast
    have "i + j + length (filter hasPeerHungup (take j (p # ps))) < n" if "j < Suc k" for j
      using that k(3) True by (cases j) (auto split: if_splits)
    with k True show ?thesis by (intro exI [of _ "Suc k"]) (auto split: if_splits)
  qed (auto intro: exI [of _ 0])
qed simp

lemma served_take:
  "\<exists>k \<le> length (clients te s). served te s = take k (polled te (clients te s))
     \<and> (\<forall>i < k. i + length (filter hasPeerHungup (take i (polled te (clients te s)))) < length (clients te s))
     \<and> length (clients te s) \<le> k + length (filter hasPeerHungup (take k (polled te (clients te s))))"
  using visited_take [of "length (clients te s)" 0 "polled te (clients te s)"] by simp

lemma served_subset: "set (served te s) \<subseteq> set (polled te (clients te s))"
  using served_take [of te s] by (metis set_take_subset)

text \<open>
  C28: the clients a call of \<open>run\<close> leaves out. The loop of \<open>checkRx\<close> counts up to the length
  of a list it is shortening, so it may stop early. With \<open>n\<close> clients, a call reads and
  removes from the first \<open>k\<close> of them only, where \<open>k\<close> is the first position at which \<open>k\<close> and
  the number of hang-ups found before it add up to \<open>n\<close>. So it leaves out at most as many
  clients, at the end of the list, as it found hung up; those keep their place in the list
  and their data in the socket. With no hang-up it serves all of them.
\<close>

theorem TcpServer_skips_at_most_hangups:
  assumes "env_ok te" and "te_poll te \<noteq> 0" and "distinct (clients te s)"
    and "length (clients te s) \<le> BACKLOG"
    and "dm_inv dm" and "dm_pending dm (m_name s) = Some ys"
  shows "\<exists>k dm'. k \<le> length (clients te s)
    \<and> (\<forall>i < k. i + length (filter hasPeerHungup (take i (polled te (clients te s)))) < length (clients te s))
    \<and> length (clients te s) - k \<le> length (filter hasPeerHungup (take k (polled te (clients te s))))
    \<and> TcpServer_run te s dm = Inr (True, s\<lparr>m_connectedClientsFds :=
        filter (\<lambda>c. c \<notin> fd ` set (filter hasPeerHungup (take k (polled te (clients te s))))) (clients te s)\<rparr>, dm')
    \<and> dm_pending dm' (m_name s) = Some (ys @ rx_messages te (take k (polled te (clients te s))))"
proof -
  from served_take [of te s] obtain k where k: "k \<le> length (clients te s)"
    "served te s = take k (polled te (clients te s))"
    "\<forall>i < k. i + length (filter hasPeerHungup (take i (polled te (clients te s)))) < length (clients te s)"
    "length (clients te s) \<le> k + length (filter hasPeerHungup (take k (polled te (clients te s))))" by blast
  from dm.push_all_known [OF assms(5,6), of "rx_messages te (served te s)"] obtain dm' where
    "push_all DM_push (rx_messages te (served te s)) (m_name s) dm = Inr dm'"
    "dm_pending dm' (m_name s) = Some (ys @ rx_messages te (served te s))" by auto
  with k show ?thesis
    by (intro exI [of _ k] exI [of _ dm']) (simp add: TcpServer_run_eq [OF assms(1-4)])
qed

text \<open>Of three clients the first has hung up, and the third is left out, though it sent data.\<close>

lemma te_three_polled:
  "map hasPeerHungup (polled te_three [4, 5, 6]) = [True, False, False]"
  "rx_messages te_three (take 2 (polled te_three [4, 5, 6])) = [''Hello'']"
  "rx_messages te_three (drop 2 (polled te_three [4, 5, 6])) = [''Hello'']"
  by (simp_all add: te_three_def polled_def hasPeerHungup_def rx_messages_def hasReceivedData_def
      rx_message_def hello_read MSG_MAX_SIZE_def)

theorem TcpServer_skips_at_most_hangups_witness:
  "\<exists>dm'. TcpServer_run te_three server0 dm_example = Inr (True, server0\<lparr>m_connectedClientsFds := [5, 6]\<rparr>, dm')
     \<and> dm_pending dm' ''Feeder0'' = Some (rx_messages te_three (take 2 (polled te_three [4, 5, 6])))"
proof -
  have ok: "te_poll te_three \<noteq> 0" "distinct (clients te_three server0)"
    "length (clients te_three server0) \<le> BACKLOG" "dm_inv dm_example"
    "dm_pending dm_example (m_name server0) = Some []"
    using dm_reachable_inv [OF dm_example_reachable]
    by (simp_all add: te_three_served) (simp_all add: te_three_def BACKLOG_def server0_def dm_example_eq dm_pending_def)
  have hups: "filter hasPeerHungup (polled te_three [4, 5, 6]) = [polled te_three [4, 5, 6] ! 0]"
    "hasPeerHungup (polled te_three [4, 5, 6] ! 0)" "fd (polled te_three [4, 5, 6] ! 0) = 4"
    "\<not> hasPeerHungup (polled te_three [4, 5, 6] ! Suc 0)"
    using te_three_polled(1) by (auto simp: polled_def)
  have take2: "take 2 (polled te_three [4, 5, 6]) = [polled te_three [4, 5, 6] ! 0, polled te_three [4, 5, 6] ! Suc 0]"
    by (simp add: polled_def)
  have take1: "take 1 (polled te_three [4, 5, 6]) = [polled te_three [4, 5, 6] ! 0]"
    by (simp add: polled_def)
  from TcpServer_skips_at_most_hangups [OF te_three_ok ok, unfolded te_three_served(1)] obtain k dm' where
    k: "\<forall>i < k. i + length (filter hasPeerHungup (take i (polled te_three [4, 5, 6]))) < length [4, 5, 6 :: int]"
      "length [4, 5, 6 :: int] - k \<le> length (filter hasPeerHungup (take k (polled te_three [4, 5, 6])))"
    and run: "TcpServer_run te_three server0 dm_example = Inr (True, server0\<lparr>m_connectedClientsFds :=
        filter (\<lambda>c. c \<notin> fd ` set (filter hasPeerHungup (take k (polled te_three [4, 5, 6])))) [4, 5, 6]\<rparr>, dm')"
      "dm_pending dm' (m_name server0) = Some ([] @ rx_messages te_three (take k (polled te_three [4, 5, 6])))"
    by blast
  have "\<not> 2 < k" using k(1) by (auto dest!: spec [of _ 2] simp: take2 hups)
  moreover have "k \<noteq> 0" using k(2) by (intro notI) simp
  moreover have "k \<noteq> 1" using k(2) by (intro notI) (simp add: take1 hups del: One_nat_def)
  ultimately have "k = 2" by linarith
  with run show ?thesis by (simp add: take2 hups) (simp add: server0_def)
qed

text \<open>
  C29: data behind a hang-up is lost. When \<open>poll\<close> reports that the peer of a client has hung
  up, the call of \<open>run\<close> does the same whatever bytes are waiting to be read from it, also
  when \<open>poll\<close> reports data too. A client that sends and closes is dropped with its message.
\<close>

theorem TcpServer_hangup_hides_data:
  assumes "env_ok te" and "env_ok (te\<lparr>te_read := (te_read te)(k := r)\<rparr>)" and "te_poll te \<noteq> 0"
    and "distinct (clients te s)" and "length (clients te s) \<le> BACKLOG"
    and "te_revents te k AND (POLLHUP OR POLLERR OR POLLRDHUP) \<noteq> 0"
  shows "TcpServer_run (te\<lparr>te_read := (te_read te)(k := r)\<rparr>) s dm = TcpServer_run te s dm"
proof -
  let ?te = "te\<lparr>te_read := (te_read te)(k := r)\<rparr>"
  have same: "polled ?te is = polled te is" for "is" by (simp add: polled_def)
  have "hasPeerHungup p" if "p \<in> set (served te s)" "fd p = k" for p
    using that assms(6) served_subset [of te s] by (auto simp: polled_def hasPeerHungup_def)
  then have "rx_messages ?te (served te s) = rx_messages te (served te s)"
    unfolding rx_messages_def
    by (intro map_cong filter_cong) (auto simp: rx_message_def)
  with assms same show ?thesis by (simp add: TcpServer_run_eq split: sum.split)
qed

theorem TcpServer_hangup_hides_data_witness:
  "TcpServer_run (te_three\<lparr>te_read := (te_read te_three)(4 := (\<lambda>n. (0, hello_buf)))\<rparr>) server0 dm_example
     = TcpServer_run te_three server0 dm_example"
proof (rule TcpServer_hangup_hides_data [OF te_three_ok])
  show "env_ok (te_three\<lparr>te_read := (te_read te_three)(4 := (\<lambda>n. (0, hello_buf)))\<rparr>)"
    by (simp add: env_ok_def te_three_def)
  show "distinct (clients te_three server0)" "length (clients te_three server0) \<le> BACKLOG"
    by (simp_all add: te_three_served BACKLOG_def)
qed (simp_all add: te_three_def)

lemma TcpServer_too_many:
  assumes "env_ok te" and "BACKLOG < length (clients te s)"
  shows "TcpServer_run te s dm = Inl (Undefined Write_past_end)"
  using assms
  by (simp add: TcpServer_run_def checkRx_def pollFds_def env_ok_def fdToPollFdArray_overflow)

lemma TcpServer_idle:
  assumes "env_ok te" and "length (clients te s) \<le> BACKLOG" and "te_poll te = 0"
  shows "TcpServer_run te s dm = Inr (True, s\<lparr>m_connectedClientsFds := clients te s\<rparr>, dm)"
proof -
  have "length (clients te s) \<le> length (map (te_junk te) [0..<BACKLOG])" using assms(2) by simp
  from pollFds_ok [OF this, of te] assms(3) obtain rest where
    "pollFds te (map (te_junk te) [0..<BACKLOG]) (acceptConnectionReq (te_accept te) s) = Inr (0, polled te (clients te s) @ rest)"
    by auto
  then show ?thesis by (simp add: TcpServer_run_def checkRx_def acceptConnectionReq_def)
qed

fun TcpServer_runs ::
  "tcp_env list \<Rightarrow> TcpServer \<Rightarrow> string DataManager \<Rightarrow> (TcpServer \<times> string DataManager) res"
where
  "TcpServer_runs [] s dm = Inr (s, dm)"
| "TcpServer_runs (te # tes) s dm =
     (case TcpServer_run te s dm of
        Inl e \<Rightarrow> Inl e
      | Inr (b, s', dm') \<Rightarrow> TcpServer_runs tes s' dm')"

lemma TcpServer_runs_accepting:
  "\<forall>te \<in> set tes. env_ok te \<and> 0 \<le> te_accept te \<and> te_poll te = 0 \<Longrightarrow>
   length (m_connectedClientsFds s) \<le> BACKLOG \<Longrightarrow>
   TcpServer_runs tes s dm =
     (if length (m_connectedClientsFds s) + length tes \<le> BACKLOG
      then Inr (s\<lparr>m_connectedClientsFds := m_connectedClientsFds s @ map te_accept tes\<rparr>, dm)
      else Inl (Undefined Write_past_end))"
proof (induction tes arbitrary: s)
  case (Cons te tes)
  have fds: "clients te s = m_connectedClientsFds s @ [te_accept te]"
    using Cons.prems by (simp add: acceptConnectionReq_def not_less [symmetric])
  show ?case
  proof (cases "length (m_connectedClientsFds s) = BACKLOG")
    case True
    with Cons.prems fds TcpServer_too_many [of te s dm] show ?thesis by simp
  next
    case False
    with Cons.prems fds TcpServer_idle [of te s dm]
    have "TcpServer_run te s dm = Inr (True, s\<lparr>m_connectedClientsFds := m_connectedClientsFds s @ [te_accept te]\<rparr>, dm)"
      by simp
    with Cons.IH [of "s\<lparr>m_connectedClientsFds := m_connectedClientsFds s @ [te_accept te]\<rparr>"] Cons.prems False
    show ?thesis by simp
  qed
qed simp

text \<open>
  C39: nothing bounds the number of clients, but the array has \<open>BACKLOG\<close> elements. On a server
  without clients, let a client connect at each call of \<open>run\<close> and stay silent: the first
  \<open>BACKLOG\<close> calls accept one client each, and the next one writes past the end of the array.
\<close>

theorem TcpServer_overflow:
  assumes "\<forall>te \<in> set tes. env_ok te \<and> 0 \<le> te_accept te \<and> te_poll te = 0"
    and "m_connectedClientsFds s = []"
  shows "TcpServer_runs tes s dm =
    (if length tes \<le> BACKLOG then Inr (s\<lparr>m_connectedClientsFds := map te_accept tes\<rparr>, dm)
     else Inl (Undefined Write_past_end))"
  using TcpServer_runs_accepting [OF assms(1), of s dm] assms(2) by simp

theorem TcpServer_overflow_witness:
  "TcpServer_runs (map (\<lambda>k. te_three\<lparr>te_accept := int k, te_poll := 0\<rparr>) [7..<58])
     (server0\<lparr>m_connectedClientsFds := []\<rparr>) dm_example = Inl (Undefined Write_past_end)"
proof -
  have ok: "env_ok (te_three\<lparr>te_accept := n, te_poll := 0\<rparr>)" for n
    using te_three_ok by (simp add: env_ok_def)
  show ?thesis
    by (subst TcpServer_overflow) (auto simp: ok BACKLOG_def)
qed

section \<open>Peers\<close>

text \<open>Decimal notation, as \<open>std::to_string\<close> and \<open>inet_ntoa\<close> write it.\<close>

fun decimal :: "nat \<Rightarrow> string" where
  "decimal n = (if n < 10 then [''0123456789'' ! n] else decimal (n div 10) @ [''0123456789'' ! (n mod 10)])"

declare decimal.simps [simp del]

text \<open>\<open>getpeername\<close> and \<open>getsockname\<close> are functions from descriptors to addresses.\<close>

definition getPeerIp :: "(int \<Rightarrow> sockaddr_in) \<Rightarrow> int \<Rightarrow> string" where
  "getPeerIp getpeername i =
     (let peerAddr = getpeername i; (a, b, c, d) = sin_addr peerAddr in
      decimal (unat a) @ ''.'' @ decimal (unat b) @ ''.'' @ decimal (unat c) @ ''.'' @ decimal (unat d))"

definition getPeerPort :: "(int \<Rightarrow> sockaddr_in) \<Rightarrow> int \<Rightarrow> 16 word" where
  "getPeerPort getpeername i = (let peerAddr = getpeername i in sin_port peerAddr)"

definition getConnectedPeers :: "(int \<Rightarrow> sockaddr_in) \<Rightarrow> TcpServer \<Rightarrow> string list" where
  "getConnectedPeers getpeername s =
     map (\<lambda>i. getPeerIp getpeername i @ '':'' @ decimal (unat (getPeerPort getpeername i)))
       (m_connectedClientsFds s)"

lemma decimal_small:
  "decimal 0 = ''0''" "decimal 1 = ''1''" "decimal (Suc 0) = ''1''" "decimal 127 = ''127''"
  by (simp_all add: decimal.simps [of 0] decimal.simps [of 1] decimal.simps [of 2]
      decimal.simps [of 12] decimal.simps [of 127] decimal.simps [of "Suc 0"])

lemma loopback_ip: "sin_addr (getpeername i) = loopback \<Longrightarrow> getPeerIp getpeername i = ''127.0.0.1''"
  by (simp add: getPeerIp_def loopback_def decimal_small Let_def)

lemma htons_fixed_iff: "htons p = p \<longleftrightarrow> drop_bit 8 p = p AND mask 8"
proof
  assume "htons p = p"
  have low: "bit p (n + 8) = bit p n" if "n < 8" for n
    using bit_htons [of p n] that \<open>htons p = p\<close> by simp
  have high: "\<not> bit p (n + 8)" if "8 \<le> n" for n
    using bit_imp_le_length [of p "n + 8"] that by auto
  show "drop_bit 8 p = p AND mask 8"
  proof (rule bit_eqI)
    fix n
    show "bit (drop_bit 8 p) n = bit (p AND mask 8) n"
      using low [of n] high [of n]
      by (cases "n < 8") (simp_all add: bit_drop_bit_eq bit_and_iff bit_mask_iff add.commute)
  qed
next
  assume eq: "drop_bit 8 p = p AND mask 8"
  have low: "bit p (n + 8) = bit p n" if "n < 8" for n
    using arg_cong [OF eq, of "\<lambda>w. bit w n"] that
    by (simp add: bit_drop_bit_eq bit_and_iff bit_mask_iff ac_simps)
  show "htons p = p"
  proof (rule bit_eqI)
    fix n
    show "bit (htons p) n = bit p n"
      using low [of n] low [of "n - 8"] bit_imp_le_length [of p n] by (auto simp: bit_htons)
  qed
qed

text \<open>
  C40: the peers as they are listed. For clients on the local host, whose ports are given by
  \<open>port\<close>, there is one entry per client, in the order of acceptance: the address, a colon
  and the port with its two bytes exchanged, since nothing calls \<open>ntohs\<close>. That is the
  client's port only when the two bytes are equal; exchanging them again gives it.
\<close>

theorem getConnectedPeers_network_order:
  assumes "\<forall>i \<in> set (m_connectedClientsFds s). getpeername i = local_addr (port i)"
  shows "getConnectedPeers getpeername s
      = map (\<lambda>i. ''127.0.0.1:'' @ decimal (unat (htons (port i)))) (m_connectedClientsFds s)
    \<and> (\<forall>i \<in> set (m_connectedClientsFds s).
         (getPeerPort getpeername i = port i \<longleftrightarrow> drop_bit 8 (port i) = port i AND mask 8)
       \<and> ntohs (getPeerPort getpeername i) = port i)"
proof -
  have addr: "sin_addr (getpeername i) = loopback" "getPeerPort getpeername i = htons (port i)"
    if "i \<in> set (m_connectedClientsFds s)" for i
    using assms that by (simp_all add: getPeerPort_def local_addr_def)
  then show ?thesis
    by (simp add: getConnectedPeers_def loopback_ip htons_fixed_iff ntohs_htons)
qed

theorem getConnectedPeers_network_order_witness:
  "getConnectedPeers (\<lambda>i. local_addr 8080) server0 =
     [''127.0.0.1:'' @ decimal 36895, ''127.0.0.1:'' @ decimal 36895]"
  using getConnectedPeers_network_order [of server0 "\<lambda>i. local_addr 8080" "\<lambda>_. 8080"]
  by (simp add: server0_def htons_def)

section \<open>Client\<close>

text \<open>
  The client of include/tcp.hpp. \<open>SIZEOF_STRING\<close> is the size of a \<open>std::string\<close> object (64-bit
  libstdc++): \<open>send\<close> passes \<open>sizeof(msg)\<close>, and not the length, as the number of bytes to
  send. \<open>beyond\<close> stands for the memory behind the terminating NUL of the text.
\<close>

definition SIZEOF_STRING :: nat where "SIZEOF_STRING = 32"

record TcpClient =
  tc_name :: string
  tc_sockfd :: int

definition TcpClient_ctor :: "int \<Rightarrow> string \<Rightarrow> TcpClient" where
  "TcpClient_ctor junk name = \<lparr>tc_name = name, tc_sockfd = junk\<rparr>"

definition TcpClient_connect ::
  "os \<Rightarrow> (int \<Rightarrow> sockaddr_in \<Rightarrow> int) \<Rightarrow> 16 word \<Rightarrow> TcpClient \<Rightarrow> (int \<times> TcpClient) res"
where
  "TcpClient_connect os sys_connect remPort c =
     (let sockfd = os_socket os in
      if sockfd < 0 then Inl (Runtime_error (os_strerror os))
      else Inr (sys_connect sockfd (local_addr remPort), c\<lparr>tc_sockfd := sockfd\<rparr>))"

text \<open>The bytes handed to \<open>send\<close>, and the result of \<open>send\<close> and \<open>disconnect\<close>.\<close>

definition TcpClient_bytes :: "char list \<Rightarrow> string \<Rightarrow> char list" where
  "TcpClient_bytes beyond msg = take SIZEOF_STRING (msg @ NUL # beyond)"

definition TcpClient_send ::
  "(int \<Rightarrow> char list \<Rightarrow> int) \<Rightarrow> char list \<Rightarrow> string \<Rightarrow> TcpClient \<Rightarrow> int"
where
  "TcpClient_send sys_send beyond msg c = sys_send (tc_sockfd c) (TcpClient_bytes beyond msg)"

definition TcpClient_disconnect :: "(int \<Rightarrow> int) \<Rightarrow> TcpClient \<Rightarrow> int" where
  "TcpClient_disconnect sys_close c = sys_close (tc_sockfd c)"

definition TcpClient_getMyPort :: "(int \<Rightarrow> sockaddr_in) \<Rightarrow> TcpClient \<Rightarrow> 16 word" where
  "TcpClient_getMyPort getsockname c = sin_port (getsockname (tc_sockfd c))"

definition TcpClient_getPeerPort :: "(int \<Rightarrow> sockaddr_in) \<Rightarrow> TcpClient \<Rightarrow> 16 word" where
  "TcpClient_getPeerPort getpeername c = sin_port (getpeername (tc_sockfd c))"

text \<open>One segment with these bytes, received in one \<open>read\<close>.\<close>

definition receives :: "tcp_env \<Rightarrow> int \<Rightarrow> char list \<Rightarrow> bool" where
  "receives te i bytes \<longleftrightarrow> length bytes \<le> MSG_MAX_SIZE
     \<and> fst (te_read te i MSG_MAX_SIZE) = int (length bytes)
     \<and> map (snd (te_read te i MSG_MAX_SIZE)) [0..<length bytes] = bytes"

lemma receives_message: "receives te (fd p) bytes \<Longrightarrow> rx_message te p = filter (\<lambda>c. c \<noteq> NUL) bytes"
  by (auto simp: receives_def rx_message_def split: prod.split)

lemma TcpClient_bytes_text:
  assumes "NUL \<notin> set msg"
  shows "filter (\<lambda>c. c \<noteq> NUL) (TcpClient_bytes beyond msg) =
    (if length msg < SIZEOF_STRING
     then msg @ filter (\<lambda>c. c \<noteq> NUL) (take (SIZEOF_STRING - 1 - length msg) beyond)
     else take SIZEOF_STRING msg)"
proof -
  have msg: "filter (\<lambda>c. c \<noteq> NUL) xs = xs" if "set xs \<subseteq> set msg" for xs
    using assms that by (auto intro!: filter_id)
  show ?thesis
    using msg [of msg] msg [of "take SIZEOF_STRING msg"] set_take_subset [of SIZEOF_STRING msg]
    by (auto simp: TcpClient_bytes_def take_Cons' filter_empty_conv)
qed

text \<open>
  C30: what a registered server makes of a text that the client sends. \<open>readRxData\<close> pushes
  one message. A text of at most 31 bytes without NUL arrives followed by whatever the bytes
  behind it in the client's memory hold besides NULs, up to 32 bytes in all: it arrives
  unchanged exactly when these are NULs. A text of 32 or more bytes is cut to its first 32.
\<close>

theorem Tcp_client_to_server:
  assumes "NUL \<notin> set msg" and "SIZEOF_STRING \<le> length msg + length beyond + 1"
    and "receives te (fd p) (TcpClient_bytes beyond msg)"
    and "dm_inv dm" and "dm_pending dm (m_name s) = Some ys"
  shows "\<exists>dm' arrived. readRxData te p s dm = Inr dm'
    \<and> dm_pending dm' (m_name s) = Some (ys @ [arrived]) \<and> dm_ready dm' = dm_ready dm
    \<and> arrived = (if length msg < SIZEOF_STRING
        then msg @ filter (\<lambda>c. c \<noteq> NUL) (take (SIZEOF_STRING - 1 - length msg) beyond)
        else take SIZEOF_STRING msg)
    \<and> (arrived = msg \<longleftrightarrow> length msg \<le> SIZEOF_STRING
         \<and> set (take (SIZEOF_STRING - 1 - length msg) beyond) \<subseteq> {NUL})"
proof -
  let ?arrived = "if length msg < SIZEOF_STRING
        then msg @ filter (\<lambda>c. c \<noteq> NUL) (take (SIZEOF_STRING - 1 - length msg) beyond)
        else take SIZEOF_STRING msg"
  have size: "fst (te_read te (fd p) MSG_MAX_SIZE) = int SIZEOF_STRING"
    using assms(2,3) by (simp add: receives_def TcpClient_bytes_def)
  have "rx_message te p = ?arrived"
    using receives_message [OF assms(3)] TcpClient_bytes_text [OF assms(1)] by simp
  with size have push: "readRxData te p s dm = DM_push ?arrived (m_name s) dm"
    by (subst readRxData_eq) (simp_all add: SIZEOF_STRING_def MSG_MAX_SIZE_def)
  have "take SIZEOF_STRING msg = msg \<longleftrightarrow> length msg \<le> SIZEOF_STRING"
    by (metis length_take min.cobounded2 take_all)
  then have same: "?arrived = msg \<longleftrightarrow> length msg \<le> SIZEOF_STRING
         \<and> set (take (SIZEOF_STRING - 1 - length msg) beyond) \<subseteq> {NUL}"
    by (auto simp: filter_empty_conv)
  from dm.push_known [OF assms(4,5), of ?arrived] obtain dm' where
    "DM_push ?arrived (m_name s) dm = Inr dm'" "dm_pending dm' (m_name s) = Some (ys @ [?arrived])"
    "dm_ready dm' = dm_ready dm" by blast
  with push same show ?thesis by (intro exI [of _ dm'] exI [of _ ?arrived]) simp
qed

theorem Tcp_client_to_server_witness:
  "\<exists>dm'. readRxData te_three \<lparr>fd = 5, events = 0, revents = 1\<rparr> server0 dm_example = Inr dm'
     \<and> dm_pending dm' ''Feeder0'' = Some [''Hello'']"
proof -
  let ?p = "\<lparr>fd = 5, events = 0, revents = 1\<rparr>" and ?beyond = "replicate 26 NUL"
  have bytes: "TcpClient_bytes ?beyond ''Hello'' = map hello_buf [0..<32]"
    by (simp add: TcpClient_bytes_def SIZEOF_STRING_def hello_buf_def upt_rec numeral_nat)
  have rec: "receives te_three (fd ?p) (TcpClient_bytes ?beyond ''Hello'')"
    by (simp add: bytes receives_def te_three_def MSG_MAX_SIZE_def)
  have pre: "NUL \<notin> set ''Hello''" "SIZEOF_STRING \<le> length ''Hello'' + length ?beyond + 1"
    by (simp_all add: SIZEOF_STRING_def)
  have dm: "dm_inv dm_example" "dm_pending dm_example (m_name server0) = Some []"
    using dm_reachable_inv [OF dm_example_reachable]
    by (simp_all add: server0_def dm_example_eq dm_pending_def)
  from Tcp_client_to_server [OF pre rec dm] obtain dm' where
    "readRxData te_three ?p server0 dm_example = Inr dm'"
    "dm_pending dm' (m_name server0) = Some [''Hello'']"
    by (auto simp: SIZEOF_STRING_def filter_replicate)
  then show ?thesis by (auto simp: server0_def)
qed

section \<open>A server without a queue\<close>

lemma TcpServer_unregistered:
  assumes "env_ok te" and "te_poll te \<noteq> 0" and "distinct (clients te s)"
    and "length (clients te s) \<le> BACKLOG"
    and "dm_inv dm" and "dm_pending dm (m_name s) = None"
  shows "\<exists>s'. TcpServer_run te s dm = Inr (True, s', dm)"
  using dm.push_all_unknown [OF assms(5,6)] by (simp add: TcpServer_run_eq [OF assms(1-4)])

end
