(* ===== verification/Udp.thy ===== *)
theory Udp
  imports Nodes Data_Manager_Spec "HOL-Library.Multiset"
begin

text \<open>
  The classes \<open>UdpServer\<close> and \<open>UdpClient\<close> of include/udp.hpp and src/udp.cpp. The server is
  a feeder that pushes one datagram per call of \<open>run\<close>; the client sends what it pops from
  the data manager.
\<close>

section \<open>Server\<close>

definition UDP_BUFFER :: nat where "UDP_BUFFER = 1024"

record UdpServer = ProxyNode +
  us_sockfd :: int
  us_Address :: sockaddr_in

text \<open>
  What \<open>recvfrom\<close> does: its result, the datagram, and the address of the sender. A datagram
  longer than the buffer is cut by the kernel.
\<close>

record udp_env =
  ue_result :: int
  ue_datagram :: "char list"
  ue_sender :: sockaddr_in

definition udp_env_ok :: "udp_env \<Rightarrow> bool" where
  "udp_env_ok ue \<longleftrightarrow> ue_result ue = int (min UDP_BUFFER (length (ue_datagram ue)))"

text \<open>The result of \<open>fcntl\<close> is only logged.\<close>

definition createRxSocket :: "os \<Rightarrow> 16 word \<Rightarrow> (int \<times> sockaddr_in) res" where
  "createRxSocket os port = bound_socket os port"

definition UdpServer_ctor ::
  "os \<Rightarrow> string \<Rightarrow> 16 word \<Rightarrow> string DataManager \<Rightarrow> UdpServer res \<times> string DataManager"
where
  "UdpServer_ctor os name port dm =
     (let dm' = snd (setFeeder name dm) in
      case createRxSocket os port of
        Inl e \<Rightarrow> (Inl e, dm')
      | Inr (sockfd, addr) \<Rightarrow>
          (Inr (ProxyNode.extend (ProxyNode_ctor name port) (UdpServer.fields sockfd addr)), dm'))"

text \<open>
  The buffer of \<open>run\<close> is cleared, filled from the front, and turned into a string as if it
  were terminated by a NUL.
\<close>

definition rx_buffer :: "udp_env \<Rightarrow> char list" where
  "rx_buffer ue = take UDP_BUFFER (ue_datagram ue @ replicate UDP_BUFFER NUL)"

definition string_of_buffer :: "char list \<Rightarrow> string res" where
  "string_of_buffer buffer =
     (if NUL \<in> set buffer then Inr (c_str_prefix buffer) else Inl (Undefined Read_past_end))"

definition UdpServer_run ::
  "udp_env \<Rightarrow> UdpServer \<Rightarrow> string DataManager \<Rightarrow> (bool \<times> UdpServer \<times> string DataManager) res"
where
  "UdpServer_run ue s dm =
     (if ue_result ue < 0 then Inr (True, s, dm)
      else
        (case string_of_buffer (rx_buffer ue) of
           Inl e \<Rightarrow> Inl e
         | Inr data \<Rightarrow>
             (case DM_push data (m_name s) dm of
                Inl e \<Rightarrow> Inl e
              | Inr dm' \<Rightarrow> Inr (True, s\<lparr>us_Address := ue_sender ue\<rparr>, dm'))))"

definition UdpServer_getName :: "UdpServer \<Rightarrow> string" where
  "UdpServer_getName s = m_name s"

section \<open>Client\<close>

record UdpClient = ProxyNode +
  uc_sockfd :: int
  uc_address :: sockaddr_in

definition createTxSocket :: "os \<Rightarrow> 16 word \<Rightarrow> (int \<times> sockaddr_in) res" where
  "createTxSocket os port =
     (if os_socket os < 0 then Inl (Runtime_error (os_strerror os))
      else Inr (os_socket os, local_addr port))"

text \<open>The constructor does not register the client with the data manager.\<close>

definition UdpClient_ctor :: "os \<Rightarrow> string \<Rightarrow> 16 word \<Rightarrow> UdpClient res" where
  "UdpClient_ctor os name rem_port =
     (case createTxSocket os rem_port of
        Inl e \<Rightarrow> Inl e
      | Inr (sockfd, addr) \<Rightarrow>
          Inr (ProxyNode.extend (ProxyNode_ctor name rem_port) (UdpClient.fields sockfd addr)))"

text \<open>
  \<open>run\<close>: \<open>sendto k fd bytes addr\<close> is the result of the \<open>k\<close>-th call of \<open>sendto\<close>, made with this
  descriptor, these bytes and this address. The loop records the calls it makes, in order,
  with what they were given and what they returned.
\<close>

type_synonym sendto_fun = "nat \<Rightarrow> int \<Rightarrow> char list \<Rightarrow> sockaddr_in \<Rightarrow> int"

record tx_call =
  tx_fd :: int
  tx_bytes :: "char list"
  tx_to :: sockaddr_in
  tx_result :: int

definition call_sendto :: "sendto_fun \<Rightarrow> UdpClient \<Rightarrow> nat \<Rightarrow> string \<Rightarrow> tx_call" where
  "call_sendto sendto c k it = \<lparr>tx_fd = uc_sockfd c, tx_bytes = it, tx_to = uc_address c,
     tx_result = sendto k (uc_sockfd c) it (uc_address c)\<rparr>"

fun send_loop :: "sendto_fun \<Rightarrow> UdpClient \<Rightarrow> nat \<Rightarrow> string list \<Rightarrow> bool \<Rightarrow> bool \<times> tx_call list" where
  "send_loop sendto c k [] ret = (ret, [])"
| "send_loop sendto c k (it # data) ret =
     (let call = call_sendto sendto c k it;
          ret' = (if tx_result call < 0 then False else ret);
          (r, calls) = send_loop sendto c (Suc k) data ret'
      in (r, call # calls))"

text \<open>The result of \<open>run\<close>, the calls of \<open>sendto\<close> it made, and the data manager after it.\<close>

definition UdpClient_run ::
  "sendto_fun \<Rightarrow> UdpClient \<Rightarrow> string DataManager \<Rightarrow> (bool \<times> tx_call list \<times> string DataManager) res"
where
  "UdpClient_run sendto c dm =
     (case DM_pop (m_name c) [] dm of
        Inl e \<Rightarrow> Inl e
      | Inr (b, data, dm') \<Rightarrow>
          if b then (let (ret, calls) = send_loop sendto c 0 data True in Inr (ret, calls, dm'))
          else Inr (True, [], dm'))"

definition UdpClient_send :: "sendto_fun \<Rightarrow> nat \<Rightarrow> string \<Rightarrow> UdpClient \<Rightarrow> int" where
  "UdpClient_send sendto k msg c = tx_result (call_sendto sendto c k msg)"

section \<open>Properties\<close>

lemma rx_buffer_eq:
  "rx_buffer ue = take UDP_BUFFER (ue_datagram ue) @ replicate (UDP_BUFFER - length (ue_datagram ue)) NUL"
  by (simp add: rx_buffer_def)

lemma string_of_rx_buffer:
  "string_of_buffer (rx_buffer ue) =
     (if NUL \<in> set (take UDP_BUFFER (ue_datagram ue)) \<or> length (ue_datagram ue) < UDP_BUFFER
      then Inr (c_str_prefix (ue_datagram ue)) else Inl (Undefined Read_past_end))"
proof -
  have cut: "c_str_prefix (take UDP_BUFFER xs @ ys) = c_str_prefix xs"
    if "NUL \<in> set (take UDP_BUFFER xs)" for xs ys :: "char list"
  proof -
    note one = takeWhile_append1 [OF that, of "\<lambda>c. c \<noteq> NUL"]
    have "c_str_prefix (take UDP_BUFFER xs @ drop UDP_BUFFER xs) = c_str_prefix (take UDP_BUFFER xs @ ys)"
      unfolding c_str_prefix_def by (simp only: one refl not_not)
    then show ?thesis by simp
  qed
  have pad: "c_str_prefix (xs @ replicate (Suc n) NUL) = c_str_prefix xs" for n and xs :: "char list"
    unfolding c_str_prefix_def by (induction xs) auto
  show ?thesis
  proof (cases "length (ue_datagram ue) < UDP_BUFFER")
    case True
    then obtain n where n: "UDP_BUFFER - length (ue_datagram ue) = Suc n"
      by (metis Suc_diff_Suc)
    from True have "rx_buffer ue = ue_datagram ue @ replicate (Suc n) NUL"
      unfolding rx_buffer_eq n by simp
    with True show ?thesis
      using pad [of "ue_datagram ue" n] by (simp add: string_of_buffer_def)
  next
    case False
    then show ?thesis using cut [of "ue_datagram ue" "[]"] by (simp add: string_of_buffer_def rx_buffer_eq)
  qed
qed

text \<open>
  C24: what a registered server makes of a datagram. It pushes the bytes before the first NUL,
  so a text of less than 1024 bytes without NUL arrives as it was sent; and \<open>run\<close> reads
  past the end of its buffer exactly when the datagram fills the buffer without a NUL.
\<close>

theorem UdpServer_run_spec:
  assumes "dm_inv dm" and "dm_pending dm (m_name s) = Some ys" and "udp_env_ok ue"
  shows "if length (ue_datagram ue) < UDP_BUFFER \<or> NUL \<in> set (take UDP_BUFFER (ue_datagram ue))
    then \<exists>dm'. UdpServer_run ue s dm = Inr (True, s\<lparr>us_Address := ue_sender ue\<rparr>, dm')
      \<and> dm_pending dm' (m_name s) = Some (ys @ [c_str_prefix (ue_datagram ue)])
      \<and> dm_ready dm' = dm_ready dm
    else UdpServer_run ue s dm = Inl (Undefined Read_past_end)"
  using dm.push_known [OF assms(1,2), of "c_str_prefix (ue_datagram ue)"] assms(3)
  by (auto simp: UdpServer_run_def string_of_rx_buffer udp_env_ok_def)

definition udp_server0 :: UdpServer where
  "udp_server0 = \<lparr>m_isRunning = False, m_name = ''Feeder0'', m_port = 8080, us_sockfd = 3,
     us_Address = local_addr 8080\<rparr>"

definition ue_hello :: udp_env where
  "ue_hello = \<lparr>ue_result = 5, ue_datagram = ''Hello'', ue_sender = local_addr 9000\<rparr>"

theorem UdpServer_run_spec_witness:
  "\<exists>dm'. UdpServer_run ue_hello udp_server0 dm_example =
       Inr (True, udp_server0\<lparr>us_Address := local_addr 9000\<rparr>, dm')
     \<and> dm_pending dm' ''Feeder0'' = Some [''Hello'']"
  using UdpServer_run_spec [of dm_example udp_server0 "[]" ue_hello]
    dm_reachable_inv [OF dm_example_reachable]
  by (simp add: ue_hello_def udp_env_ok_def UDP_BUFFER_def udp_server0_def c_str_prefix_def)
    (auto simp: dm_example_eq dm_pending_def)

text \<open>The calls of \<open>sendto\<close> for a list of messages, and those of them that succeeded.\<close>

lemma send_loop_eq:
  "send_loop sendto c k data ret =
     (ret \<and> (\<forall>i < length data. 0 \<le> tx_result (call_sendto sendto c (k + i) (data ! i))),
      map (\<lambda>i. call_sendto sendto c (k + i) (data ! i)) [0..<length data])"
proof (induction data arbitrary: k ret)
  case (Cons it data)
  have "map (\<lambda>i. call_sendto sendto c (k + i) ((it # data) ! i)) [0..<length (it # data)] =
      call_sendto sendto c k it # map (\<lambda>i. call_sendto sendto c (Suc k + i) (data ! i)) [0..<length data]"
    by (simp add: upt_conv_Cons map_Suc_upt [symmetric] del: upt_Suc)
  then show ?case by (simp add: Cons.IH Let_def All_less_Suc2 del: upt_Suc)
qed simp

lemma UdpClient_run_eq:
  assumes "dm_inv dm" and "dm_ready dm (m_name c) = Some msgs"
  shows "\<exists>dm'. UdpClient_run sendto c dm =
      Inr (\<forall>k < length msgs. 0 \<le> tx_result (call_sendto sendto c k (msgs ! k)),
           map (\<lambda>k. call_sendto sendto c k (msgs ! k)) [0..<length msgs], dm')
    \<and> dm_ready dm' (m_name c) = Some [] \<and> dm_pending dm' = dm_pending dm"
  using dm.pop_known [OF assms, of "[]"] by (auto simp: UdpClient_run_def send_loop_eq)

text \<open>
  C25: what the client sends. If its name is registered as a consumer it makes one call of
  \<open>sendto\<close> for every message waiting for it, in order, with the bytes of the message, its
  own socket and the address of its port, whatever the earlier calls returned; and it
  returns true exactly when every call succeeded, the messages being gone in either case. If
  the name is not registered, which is the case for every client that the constructor made,
  it makes no call.
\<close>

theorem UdpClient_run_spec:
  assumes "dm_inv dm"
  shows "case dm_ready dm (m_name c) of
      None \<Rightarrow> UdpClient_run sendto c dm = Inr (True, [], dm)
    | Some msgs \<Rightarrow> (\<exists>ret calls dm'. UdpClient_run sendto c dm = Inr (ret, calls, dm')
        \<and> map tx_bytes calls = msgs
        \<and> (\<forall>k < length calls. tx_fd (calls ! k) = uc_sockfd c \<and> tx_to (calls ! k) = uc_address c
             \<and> tx_result (calls ! k) = sendto k (uc_sockfd c) (msgs ! k) (uc_address c))
        \<and> (ret \<longleftrightarrow> list_all (\<lambda>call. 0 \<le> tx_result call) calls)
        \<and> dm_ready dm' (m_name c) = Some [] \<and> dm_pending dm' = dm_pending dm)"
proof (cases "dm_ready dm (m_name c)")
  case None
  with dm.pop_unknown [OF assms None, of "[]"] show ?thesis by (simp add: UdpClient_run_def)
next
  case (Some msgs)
  from UdpClient_run_eq [OF assms Some, of sendto] obtain dm' where
    "UdpClient_run sendto c dm =
      Inr (\<forall>k < length msgs. 0 \<le> tx_result (call_sendto sendto c k (msgs ! k)),
           map (\<lambda>k. call_sendto sendto c k (msgs ! k)) [0..<length msgs], dm')"
    "dm_ready dm' (m_name c) = Some []" "dm_pending dm' = dm_pending dm" by blast
  with Some show ?thesis
    by (auto simp: call_sendto_def list_all_length map_nth comp_def)
qed

definition dm_hello :: "string DataManager" where
  "dm_hello = dm_example\<lparr>m_outQueues := [Q_push ''World'' (Q_push ''Hello'' Q_new)]\<rparr>"

definition udp_tx0 :: UdpClient where
  "udp_tx0 = \<lparr>m_isRunning = False, m_name = ''Consumer1'', m_port = 8080, uc_sockfd = 4,
     uc_address = local_addr 8080\<rparr>"

lemma dm_hello_inv: "dm_inv dm_hello"
  using dm_inv_queues [OF dm_reachable_inv [OF dm_example_reachable], of "[Q_new, Q_new]"
      "[Q_push ''World'' (Q_push ''Hello'' Q_new)]"]
  by (simp add: dm_hello_def dm_example_eq)

lemma dm_hello_ready: "dm_ready dm_hello (m_name udp_tx0) = Some [''Hello'', ''World'']"
  by (simp add: dm_hello_def udp_tx0_def dm_example_eq dm_ready_def Q_push_def Q_new_def)

text \<open>The first of two calls fails; the second one is made all the same.\<close>

definition first_fails :: sendto_fun where
  "first_fails k fd bytes addr = (if k = 0 then - 1 else int (length bytes))"

theorem UdpClient_run_spec_witness:
  "\<exists>calls dm'. UdpClient_run first_fails udp_tx0 dm_hello = Inr (False, calls, dm')
     \<and> map tx_bytes calls = [''Hello'', ''World'']"
proof -
  from UdpClient_run_spec [OF dm_hello_inv, where c = udp_tx0 and sendto = first_fails] obtain ret calls dm' where
    run: "UdpClient_run first_fails udp_tx0 dm_hello = Inr (ret, calls, dm')"
    and calls: "map tx_bytes calls = [''Hello'', ''World'']"
      "\<forall>k < length calls. tx_result (calls ! k) =
         first_fails k (uc_sockfd udp_tx0) ([''Hello'', ''World''] ! k) (uc_address udp_tx0)"
    and ret: "ret \<longleftrightarrow> list_all (\<lambda>call. 0 \<le> tx_result call) calls"
    by (auto simp: dm_hello_ready)
  from calls(1) have len: "0 < length calls" by auto
  with calls(2) have "tx_result (calls ! 0) = - 1" by (simp add: first_fails_def)
  with ret len have "\<not> ret" by (force simp: list_all_length)
  with run calls(1) show ?thesis by auto
qed

text \<open>Successive calls of \<open>run\<close>, one per datagram.\<close>

fun UdpServer_runs ::
  "udp_env list \<Rightarrow> UdpServer \<Rightarrow> string DataManager \<Rightarrow> (UdpServer \<times> string DataManager) res"
where
  "UdpServer_runs [] s dm = Inr (s, dm)"
| "UdpServer_runs (ue # ues) s dm =
     (case UdpServer_run ue s dm of
        Inl e \<Rightarrow> Inl e
      | Inr (b, s', dm') \<Rightarrow> UdpServer_runs ues s' dm')"

lemma UdpServer_run_text:
  assumes "dm_inv dm" and "dm_pending dm (m_name s) = Some ys" and "udp_env_ok ue"
    and "NUL \<notin> set (ue_datagram ue)" and "length (ue_datagram ue) < UDP_BUFFER"
  shows "\<exists>dm'. UdpServer_run ue s dm = Inr (True, s\<lparr>us_Address := ue_sender ue\<rparr>, dm')
    \<and> dm_inv dm' \<and> dm_pending dm' (m_name s) = Some (ys @ [ue_datagram ue])"
proof -
  have "c_str_prefix (ue_datagram ue) = ue_datagram ue"
    using assms(4) by (auto simp: c_str_prefix_def takeWhile_eq_all_conv)
  with dm.push_known [OF assms(1,2), of "ue_datagram ue"] assms(3,5) show ?thesis
    by (auto simp: UdpServer_run_def string_of_rx_buffer udp_env_ok_def)
qed

lemma UdpServer_runs_text:
  "dm_inv dm \<Longrightarrow> dm_pending dm (m_name s) = Some ys \<Longrightarrow>
   \<forall>ue \<in> set ues. udp_env_ok ue \<and> NUL \<notin> set (ue_datagram ue) \<and> length (ue_datagram ue) < UDP_BUFFER \<Longrightarrow>
   \<exists>s' dm'. UdpServer_runs ues s dm = Inr (s', dm')
     \<and> dm_pending dm' (m_name s) = Some (ys @ map ue_datagram ues)"
proof (induction ues arbitrary: s dm ys)
  case (Cons ue ues)
  from UdpServer_run_text [OF Cons.prems(1,2), of ue] Cons.prems(3) obtain dm1 where
    dm1: "UdpServer_run ue s dm = Inr (True, s\<lparr>us_Address := ue_sender ue\<rparr>, dm1)" "dm_inv dm1"
      "dm_pending dm1 (m_name s) = Some (ys @ [ue_datagram ue])" by auto
  from Cons.IH [of dm1 "s\<lparr>us_Address := ue_sender ue\<rparr>" "ys @ [ue_datagram ue]"] dm1 Cons.prems(3)
  show ?case by simp
qed simp

text \<open>
  C23: one pipeline feeding another over UDP. A client that is registered as a consumer of
  one data manager runs once, and a server registered with a second one receives what the
  network delivers of the datagrams whose \<open>sendto\<close> succeeded: in any order, less those that
  got lost, plus duplicates. If the messages that waited for the client hold no NUL and are
  shorter than the buffer, the server pushes exactly the messages that arrive, in the order
  of their arrival, and these are the messages whose \<open>sendto\<close> succeeded, less the lost and
  plus the duplicated ones. So neither end drops, invents or alters a message by itself.
\<close>

theorem Udp_forwarding:
  assumes "dm_inv dmA" and "dm_ready dmA (m_name c) = Some msgs"
    and "UdpClient_run sendto c dmA = Inr (b, calls, dmA')"
    and "dm_inv dmB" and "dm_pending dmB (m_name s) = Some ys"
    and "\<forall>ue \<in> set ues. udp_env_ok ue"
    and "mset (map ue_datagram ues) + lost = mset (map tx_bytes (filter (\<lambda>call. 0 \<le> tx_result call) calls)) + dup"
    and "set_mset dup \<subseteq> tx_bytes ` {call \<in> set calls. 0 \<le> tx_result call}"
    and "\<forall>msg \<in> set msgs. NUL \<notin> set msg \<and> length msg < UDP_BUFFER"
  shows "\<exists>s' dmB' new. UdpServer_runs ues s dmB = Inr (s', dmB')
    \<and> dm_pending dmB' (m_name s) = Some (ys @ new) \<and> new = map ue_datagram ues
    \<and> mset new + lost = mset (map (\<lambda>k. msgs ! k)
        (filter (\<lambda>k. 0 \<le> sendto k (uc_sockfd c) (msgs ! k) (uc_address c)) [0..<length msgs])) + dup"
proof -
  have calls: "calls = map (\<lambda>k. call_sendto sendto c k (msgs ! k)) [0..<length msgs]"
    using UdpClient_run_eq [OF assms(1,2), of sendto] assms(3) by auto
  have sent: "map tx_bytes (filter (\<lambda>call. 0 \<le> tx_result call) calls) = map (\<lambda>k. msgs ! k)
      (filter (\<lambda>k. 0 \<le> sendto k (uc_sockfd c) (msgs ! k) (uc_address c)) [0..<length msgs])"
    unfolding calls by (simp add: filter_map comp_def call_sendto_def)
  have known: "ue_datagram ue \<in> set msgs" if "ue \<in> set ues" for ue
  proof -
    have "ue_datagram ue \<in># mset (map ue_datagram ues) + lost" using that by simp
    then have "ue_datagram ue \<in> tx_bytes ` set calls"
      unfolding assms(7) using assms(8) by auto
    then show ?thesis unfolding calls by (auto simp: call_sendto_def)
  qed
  with assms(6,9) have "\<forall>ue \<in> set ues. udp_env_ok ue \<and> NUL \<notin> set (ue_datagram ue)
      \<and> length (ue_datagram ue) < UDP_BUFFER" by blast
  from UdpServer_runs_text [OF assms(4,5) this] assms(7) show ?thesis unfolding sent by blast
qed

text \<open>Two messages, of which the first is not sent and the second arrives twice.\<close>

definition ue_world :: udp_env where
  "ue_world = \<lparr>ue_result = 5, ue_datagram = ''World'', ue_sender = local_addr 9000\<rparr>"

theorem Udp_forwarding_witness:
  "\<exists>s' dmB'. UdpServer_runs [ue_world, ue_world] udp_server0 dm_example = Inr (s', dmB')
     \<and> dm_pending dmB' ''Feeder0'' = Some [''World'', ''World'']"
proof -
  define calls where "calls = map (\<lambda>k. call_sendto first_fails udp_tx0 k ([''Hello'', ''World''] ! k)) [0..<2]"
  have two: "calls = [call_sendto first_fails udp_tx0 0 ''Hello'', call_sendto first_fails udp_tx0 1 ''World'']"
    by (simp add: calls_def upt_rec)
  have sent: "filter (\<lambda>call. 0 \<le> tx_result call) calls = [call_sendto first_fails udp_tx0 1 ''World'']"
    by (simp add: two call_sendto_def first_fails_def)
  obtain b dm' where run: "UdpClient_run first_fails udp_tx0 dm_hello = Inr (b, calls, dm')"
    using UdpClient_run_eq [OF dm_hello_inv dm_hello_ready, of first_fails] by (auto simp: calls_def numeral_2_eq_2)
  have "dm_pending dm_example (m_name udp_server0) = Some []"
    by (simp add: udp_server0_def dm_example_eq dm_pending_def)
  note fwd = Udp_forwarding [OF dm_hello_inv dm_hello_ready run
      dm_reachable_inv [OF dm_example_reachable] this, of "[ue_world, ue_world]" "{#}" "{#''World''#}"]
  have "\<exists>s' dmB' new. UdpServer_runs [ue_world, ue_world] udp_server0 dm_example = Inr (s', dmB')
    \<and> dm_pending dmB' (m_name udp_server0) = Some ([] @ new) \<and> new = map ue_datagram [ue_world, ue_world]"
    using fwd by (force simp: sent two ue_world_def udp_env_ok_def UDP_BUFFER_def call_sendto_def first_fails_def)
  then show ?thesis by (simp add: udp_server0_def ue_world_def)
qed

end
