(* ===== verification/Consumers.thy ===== *)
theory Consumers
  imports Nodes Data_Manager_Spec
begin

text \<open>
  The class \<open>Consumer\<close> of include/consumer.hpp: it pops what is ready for it about ten times a
  second and writes one line per message to a file, until it is stopped.
\<close>

section \<open>State and operations\<close>

record Consumer = ProxyNode +
  m_data :: "string list"

definition Consumer_ctor :: "string \<Rightarrow> 16 word \<Rightarrow> string DataManager \<Rightarrow> Consumer \<times> string DataManager" where
  "Consumer_ctor name port dm =
     (ProxyNode.extend (ProxyNode_ctor name port) (Consumer.fields []), snd (setConsumer name dm))"

definition Consumer_stop :: "Consumer \<Rightarrow> bool \<times> Consumer" where
  "Consumer_stop c = (True, c\<lparr>m_isRunning := False\<rparr>)"

text \<open>\<open>file << it << std::endl\<close> for every message.\<close>

fun write_lines :: "string list \<Rightarrow> string \<Rightarrow> string" where
  "write_lines [] out = out"
| "write_lines (it # data) out = write_lines data (out @ it @ [newline])"

text \<open>The body of the loop.\<close>

definition Consumer_pass :: "Consumer \<Rightarrow> string \<Rightarrow> string DataManager \<Rightarrow> (Consumer \<times> string \<times> string DataManager) res" where
  "Consumer_pass c out dm =
     (case DM_pop (m_name c) (m_data c) dm of
        Inl e \<Rightarrow> Inl e
      | Inr (b, data, dm') \<Rightarrow>
          if b then Inr (c\<lparr>m_data := []\<rparr>, write_lines data out, dm')
          else Inr (c\<lparr>m_data := data\<rparr>, out, dm'))"

text \<open>
  The loop tests a flag that other threads write. The list says what they do before each
  test: whether \<open>stop\<close> is called, and what happens to the data manager. \<open>None\<close> is "still
  in the loop when the list is used up".
\<close>

type_synonym env_step = "bool \<times> (string DataManager \<Rightarrow> string DataManager)"

fun Consumer_loop ::
  "env_step list \<Rightarrow> Consumer \<Rightarrow> string \<Rightarrow> string DataManager
     \<Rightarrow> (bool \<times> Consumer \<times> string \<times> string DataManager) res option"
where
  "Consumer_loop [] c out dm = None"
| "Consumer_loop ((stop, env) # envs) c out dm =
     (let c' = (if stop then snd (Consumer_stop c) else c); dm' = env dm in
      if m_isRunning c' then
        (case Consumer_pass c' out dm' of
           Inl e \<Rightarrow> Some (Inl e)
         | Inr (c'', out', dm'') \<Rightarrow> Consumer_loop envs c'' out' dm'')
      else Some (Inr (True, c', out, dm')))"

text \<open>\<open>opens\<close> says which files can be opened; opening one empties it.\<close>

definition Consumer_run ::
  "(string \<Rightarrow> bool) \<Rightarrow> env_step list \<Rightarrow> Consumer \<Rightarrow> string DataManager
     \<Rightarrow> (bool \<times> Consumer \<times> string \<times> string DataManager) res option"
where
  "Consumer_run opens envs c dm =
     (let c' = c\<lparr>m_isRunning := True\<rparr> in
      if \<not> opens (m_name c @ ''.txt'') then Some (Inr (False, c', '''', dm))
      else Consumer_loop envs c' '''' dm)"

section \<open>Lemmas\<close>

definition lines_of :: "string list \<Rightarrow> string" where
  "lines_of msgs = concat (map (\<lambda>it. it @ [newline]) msgs)"

lemma lines_of_append [simp]: "lines_of (xs @ ys) = lines_of xs @ lines_of ys"
  by (simp add: lines_of_def)

lemma lines_of_Nil [simp]: "lines_of [] = ''''"
  by (simp add: lines_of_def)

lemma write_lines_eq: "write_lines data out = out @ lines_of data"
  by (induction data out rule: write_lines.induct) (simp_all add: lines_of_def)

lemma Consumer_pass_ready:
  assumes "dm_inv dm" and "dm_ready dm (m_name c) = Some xs" and "m_data c = []"
  shows "\<exists>dm'. Consumer_pass c out dm = Inr (c, out @ lines_of xs, dm') \<and> dm_inv dm'
    \<and> dm_ready dm' (m_name c) = Some [] \<and> dm_pending dm' = dm_pending dm"
proof -
  from dm.pop_known [OF assms(1,2), of "[]"] obtain dm' where
    "DM_pop (m_name c) [] dm = Inr (xs \<noteq> [], xs, dm')" "dm_inv dm'"
    "dm_ready dm' = (dm_ready dm)(m_name c \<mapsto> [])" "dm_pending dm' = dm_pending dm" by auto
  with assms(3) show ?thesis
    by (intro exI [of _ dm']) (auto simp: Consumer_pass_def write_lines_eq)
qed

lemma Consumer_pass_inv:
  assumes "dm_inv dm"
  shows "\<exists>c' out' dm'. Consumer_pass c out dm = Inr (c', out', dm') \<and> dm_inv dm'
    \<and> m_isRunning c' = m_isRunning c"
proof -
  from dm.pop_ok [OF assms, of "m_name c" "m_data c"] obtain b data dm' where
    pop: "DM_pop (m_name c) (m_data c) dm = Inr (b, data, dm')" by (auto elim!: is_okE)
  with dm_inv_pop [OF assms pop] show ?thesis by (auto simp: Consumer_pass_def)
qed

text \<open>
  What the other threads may do to the data manager as far as consumer \<open>c\<close> is concerned:
  append \<open>xs\<close> to what is ready for it.
\<close>

definition delivers :: "string \<Rightarrow> (string DataManager \<Rightarrow> string DataManager) \<Rightarrow> string list \<Rightarrow> bool" where
  "delivers c env xs \<longleftrightarrow> (\<forall>dm ys. dm_inv dm \<longrightarrow> dm_ready dm c = Some ys \<longrightarrow>
     dm_inv (env dm) \<and> dm_ready (env dm) c = Some (ys @ xs))"

lemma Consumer_loop_running:
  "dm_inv dm \<Longrightarrow> dm_ready dm (m_name c) = Some ys \<Longrightarrow> m_data c = [] \<Longrightarrow> m_isRunning c \<Longrightarrow>
   list_all2 (delivers (m_name c)) before adds \<Longrightarrow>
   \<exists>dm'. Consumer_loop (map (Pair False) before @ rest) c out dm
       = Consumer_loop rest c (out @ lines_of (if before = [] then [] else ys @ concat adds)) dm'
     \<and> dm_inv dm' \<and> dm_ready dm' (m_name c) = Some (if before = [] then ys else [])"
proof (induction before arbitrary: adds ys out dm)
  case Nil
  then show ?case by auto
next
  case (Cons env before)
  from Cons.prems(5) obtain a as where adds: "adds = a # as" "delivers (m_name c) env a"
    "list_all2 (delivers (m_name c)) before as" by (auto simp: list_all2_Cons1)
  with Cons.prems(1,2) have "dm_inv (env dm)" "dm_ready (env dm) (m_name c) = Some (ys @ a)"
    by (auto simp: delivers_def)
  from Consumer_pass_ready [OF this Cons.prems(3)] obtain dm1 where
    dm1: "Consumer_pass c out (env dm) = Inr (c, out @ lines_of (ys @ a), dm1)" "dm_inv dm1"
      "dm_ready dm1 (m_name c) = Some []" by blast
  from Cons.IH [OF dm1(2,3) Cons.prems(3,4) adds(3), of "out @ lines_of (ys @ a)"] obtain dm' where
    "Consumer_loop (map (Pair False) before @ rest) c (out @ lines_of (ys @ a)) dm1 =
       Consumer_loop rest c (out @ lines_of (ys @ a) @ lines_of (if before = [] then [] else concat as)) dm'"
    "dm_inv dm'" "dm_ready dm' (m_name c) = Some []" by (cases "before = []") auto
  moreover have "concat as = []" if "before = []" using that adds(3) by simp
  ultimately show ?case using dm1(1) Cons.prems(4) adds(1)
    by (intro exI [of _ dm']) (cases "before = []"; auto simp del: concat_eq_Nil_conv)
qed

section \<open>Properties\<close>

text \<open>
  C11: what the consumer writes. A registered consumer that makes at least one pass before it is
  stopped writes, one line each and in order, the messages that were ready when it started
  and those that were delivered up to its last pass; what is delivered after that stays
  in its queue. So no message is lost or written twice, whatever the timing.
\<close>

theorem Consumer_writes_all:
  assumes "dm_inv dm" and "dm_ready dm (m_name c) = Some ys" and "m_data c = []"
    and "opens (m_name c @ ''.txt'')" and "before \<noteq> []"
    and "list_all2 (delivers (m_name c)) before adds" and "delivers (m_name c) env last_add"
  shows "\<exists>dm'. Consumer_run opens (map (Pair False) before @ (True, env) # after) c dm =
      Some (Inr (True, c\<lparr>m_isRunning := False\<rparr>, lines_of (ys @ concat adds), dm'))
    \<and> dm_ready dm' (m_name c) = Some last_add"
proof -
  let ?c = "c\<lparr>m_isRunning := True\<rparr>"
  from Consumer_loop_running [of dm ?c ys before adds "(True, env) # after" "''''"] assms(1-3,5,6)
  obtain dm' where dm': "Consumer_loop (map (Pair False) before @ (True, env) # after) ?c '''' dm
      = Consumer_loop ((True, env) # after) ?c (lines_of (ys @ concat adds)) dm'"
    "dm_inv dm'" "dm_ready dm' (m_name c) = Some []" by auto
  with assms(7) have "dm_ready (env dm') (m_name c) = Some last_add" by (auto simp: delivers_def)
  with dm'(1) assms(4) show ?thesis by (simp add: Consumer_run_def Consumer_stop_def)
qed

definition consumer0 :: Consumer where
  "consumer0 = \<lparr>m_isRunning = False, m_name = ''Consumer1'', m_port = 0, m_data = []\<rparr>"

text \<open>A step of the environment for the witness: the first input queue gets a message and is broadcast.\<close>

definition env_hello :: "string DataManager \<Rightarrow> string DataManager" where
  "env_hello dm = dm\<lparr>m_outQueues := map (Q_push ''Hello'') (m_outQueues dm)\<rparr>"

lemma env_hello_delivers: "delivers c env_hello [''Hello'']"
  unfolding delivers_def
proof (intro allI impI)
  fix dm :: "string DataManager" and ys
  assume inv: "dm_inv dm" and ready: "dm_ready dm c = Some ys"
  from ready obtain i where i: "map_of (m_outQueuesIds dm) c = Some i"
    "queue (m_outQueues dm ! nat i) = ys" by (auto simp: dm_ready_def)
  have "nat i < length (m_outQueues dm)" using out_slot [OF inv i(1)] by (rule in_range_nat)
  with i have "dm_ready (env_hello dm) c = Some (ys @ [''Hello''])"
    by (simp add: dm_ready_def env_hello_def Q_push_def)
  moreover have "dm_inv (env_hello dm)"
    using dm_inv_queues [OF inv, of "m_inQueues dm"] by (simp add: env_hello_def)
  ultimately show "dm_inv (env_hello dm) \<and> dm_ready (env_hello dm) c = Some (ys @ [''Hello''])" by simp
qed

theorem Consumer_writes_all_witness:
  "\<exists>dm'. Consumer_run (\<lambda>_. True) [(False, env_hello), (True, env_hello)] consumer0 dm_example =
       Some (Inr (True, consumer0, ''Hello'' @ [newline], dm'))
     \<and> dm_ready dm' ''Consumer1'' = Some [''Hello'']"
proof -
  have ready: "dm_ready dm_example (m_name consumer0) = Some []" "m_data consumer0 = []"
    by (simp_all add: dm_example_eq dm_ready_def consumer0_def)
  have del: "list_all2 (delivers (m_name consumer0)) [env_hello] [[''Hello'']]"
    by (simp add: env_hello_delivers)
  from Consumer_writes_all [OF dm_reachable_inv [OF dm_example_reachable] ready _ _ del env_hello_delivers,
      of "\<lambda>_. True" "[]"]
  show ?thesis by (simp add: consumer0_def lines_of_def)
qed

text \<open>
  The file can be read back. Two runs of messages without line ends give the same file
  only when they are the same messages.
\<close>

theorem Consumer_file_unambiguous:
  assumes "\<forall>m \<in> set ms. newline \<notin> set m" and "\<forall>m \<in> set ns. newline \<notin> set m"
    and "write_lines ms out = write_lines ns out"
  shows "ms = ns"
proof -
  have "lines_of ms = lines_of ns \<Longrightarrow> \<forall>m \<in> set ms. newline \<notin> set m \<Longrightarrow>
      \<forall>m \<in> set ns. newline \<notin> set m \<Longrightarrow> ms = ns"
  proof (induction ms arbitrary: ns)
    case Nil
    then show ?case by (cases ns) (simp_all add: lines_of_def)
  next
    case (Cons m ms)
    from Cons.prems(1) obtain n ns' where ns: "ns = n # ns'"
      by (cases ns) (simp_all add: lines_of_def)
    from Cons.prems(1) have "m @ newline # lines_of ms = n @ newline # lines_of ns'"
      by (simp add: lines_of_def ns)
    moreover have "newline \<notin> set m" "newline \<notin> set n" using Cons.prems ns by auto
    ultimately have "m = n \<and> lines_of ms = lines_of ns'"
      by (simp add: append_eq_append_conv2) (auto simp: append_eq_Cons_conv Cons_eq_append_conv)
    with Cons.IH [of ns'] Cons.prems ns show ?case by simp
  qed
  with assms show ?thesis by (simp add: write_lines_eq)
qed

theorem Consumer_file_unambiguous_witness:
  "write_lines [''a'', ''b''] '''' = write_lines [''a'', ''b''] '''' \<and> [''a'', ''b''] = [''a'', ''b'']"
  using Consumer_file_unambiguous [of "[''a'', ''b'']" "[''a'', ''b'']" "''''"] by simp

text \<open>
  C22: when \<open>run\<close> returns. It returns at once, false, when the file cannot be opened; otherwise it
  returns exactly when \<open>stop\<close> is called while it runs. A call of \<open>stop\<close> before \<open>run\<close> is
  forgotten, since \<open>run\<close> sets the flag first.
\<close>

theorem Consumer_run_stops:
  assumes "dm_inv dm" and "\<forall>(stop, env) \<in> set envs. \<forall>dm. dm_inv dm \<longrightarrow> dm_inv (env dm)"
  shows "(Consumer_run opens envs c dm = None
      \<longleftrightarrow> opens (m_name c @ ''.txt'') \<and> \<not> (\<exists>env. (True, env) \<in> set envs))
    \<and> Consumer_run opens envs (snd (Consumer_stop c)) dm = Consumer_run opens envs c dm"
proof -
  have loop: "Consumer_loop envs c out dm = None \<longleftrightarrow> \<not> (\<exists>env. (True, env) \<in> set envs)"
    if "dm_inv dm" "m_isRunning c" "\<forall>(stop, env) \<in> set envs. \<forall>dm. dm_inv dm \<longrightarrow> dm_inv (env dm)"
    for c out dm
    using that
  proof (induction envs arbitrary: c out dm)
    case (Cons e envs)
    obtain stop env where e: "e = (stop, env)" by force
    show ?case
    proof (cases stop)
      case True
      with e show ?thesis by (auto simp: Consumer_stop_def)
    next
      case False
      have "dm_inv (env dm)" using Cons.prems e by auto
      from Consumer_pass_inv [OF this, of c out] obtain c' out' dm' where
        pass: "Consumer_pass c out (env dm) = Inr (c', out', dm')" "dm_inv dm'" "m_isRunning c' = m_isRunning c"
        by blast
      with Cons.IH [OF pass(2), of c' out'] Cons.prems False e show ?thesis by simp
    qed
  qed simp
  from loop [OF assms(1) _ assms(2), of "c\<lparr>m_isRunning := True\<rparr>" "''''"] show ?thesis
    by (simp add: Consumer_run_def Consumer_stop_def Let_def)
qed

theorem Consumer_run_stops_witness:
  "Consumer_run (\<lambda>_. True) [(False, env_hello)] consumer0 dm_example = None
   \<and> Consumer_run (\<lambda>_. True) [(True, env_hello)] consumer0 dm_example \<noteq> None"
proof -
  have "dm_inv (env_hello dm)" if "dm_inv dm" for dm :: "string DataManager"
    using dm_inv_queues [OF that, of "m_inQueues dm"] by (simp add: env_hello_def)
  then show ?thesis
    using Consumer_run_stops [OF dm_reachable_inv [OF dm_example_reachable], of "[(False, env_hello)]" "\<lambda>_. True" consumer0]
      Consumer_run_stops [OF dm_reachable_inv [OF dm_example_reachable], of "[(True, env_hello)]" "\<lambda>_. True" consumer0]
    by simp
qed

end
