(* ===== verification/Thread_Pool.thy ===== *)
theory Thread_Pool
  imports Queue
begin

text \<open>
  The class \<open>ThreadPool\<close> of include/threadPool.hpp and src/threadPool.cpp: a queue of named
  jobs, a number of worker threads that each run \<open>ThreadLoop\<close>, one mutex, one condition
  variable and the flag \<open>should_terminate\<close>.

  A step is one critical section or one call on the condition variable, so every
  interleaving of the clients, the workers and the thread in \<open>stop\<close> is a sequence of steps.
  Whether a job returns is a property of the job: \<open>returns\<close> is a parameter.
\<close>

section \<open>State\<close>

type_synonym 'j job = "string \<times> 'j"

datatype 'j worker =
    W_check          \<comment> \<open>at the predicate of \<open>wait\<close>, before or after a wake-up\<close>
  | W_sleep          \<comment> \<open>inside \<open>wait\<close>\<close>
  | W_run "'j job"
  | W_exit

datatype stop_pc = S_none | S_notify | S_join

text \<open>
  \<open>notifying\<close> counts the calls of \<open>QueueJob\<close> that have queued their job and not yet called
  \<open>notify_one\<close>. Ghosts: \<open>queued\<close>, \<open>started\<close> and \<open>finished\<close> are the jobs ever queued,
  started and completed, in that order of events.
\<close>

record 'j pool =
  m_nproc :: "32 word"
  should_terminate :: bool
  threads :: "'j worker list"
  jobs :: "'j job list"
  notifying :: nat
  stopping :: stop_pc
  queued :: "'j job list"
  started :: "'j job list"
  finished :: "'j job list"

definition TP_ctor :: "32 word \<Rightarrow> 'j pool" where
  "TP_ctor nproc = \<lparr>m_nproc = nproc, should_terminate = False, threads = [], jobs = [],
     notifying = 0, stopping = S_none, queued = [], started = [], finished = []\<rparr>"

section \<open>Operations\<close>

text \<open>
  \<open>start\<close> assigns a new thread to every element of the vector; assigning to one that is
  still joinable calls \<open>std::terminate\<close>, the value \<open>None\<close>. Creating a thread succeeds.
\<close>

definition TP_start :: "'j pool \<Rightarrow> 'j pool option" where
  "TP_start p = (if threads p = [] then
       Some (p\<lparr>threads := replicate (unat (m_nproc p)) W_check\<rparr>) else None)"

text \<open>The critical section of \<open>QueueJob\<close>, the front of the queue, and \<open>notify_one\<close> choosing a sleeper.\<close>

definition TP_push :: "'j job \<Rightarrow> 'j pool \<Rightarrow> 'j pool" where
  "TP_push job p = p\<lparr>jobs := jobs p @ [job], queued := queued p @ [job]\<rparr>"

definition QueueJob :: "string \<Rightarrow> 'j \<Rightarrow> 'j pool \<Rightarrow> 'j pool" where
  "QueueJob jobName job p = (let p' = TP_push (jobName, job) p in p'\<lparr>notifying := Suc (notifying p')\<rparr>)"

definition TP_take :: "'j pool \<Rightarrow> ('j job \<times> 'j pool) res" where
  "TP_take p = (case jobs p of [] \<Rightarrow> Inl (Undefined Front_of_empty)
     | job # js \<Rightarrow> Inr (job, p\<lparr>jobs := js\<rparr>))"

definition set_worker :: "nat \<Rightarrow> 'j worker \<Rightarrow> 'j pool \<Rightarrow> 'j pool" where
  "set_worker i w p = p\<lparr>threads := (threads p)[i := w]\<rparr>"

text \<open>One turn of \<open>ThreadLoop\<close> from the predicate on, with the mutex held.\<close>

definition ThreadLoop_turn :: "nat \<Rightarrow> 'j pool \<Rightarrow> 'j pool res" where
  "ThreadLoop_turn i p =
     (if \<not> (jobs p \<noteq> [] \<or> should_terminate p) then Inr (set_worker i W_sleep p)
      else if should_terminate p then Inr (set_worker i W_exit p)
      else (case TP_take p of
          Inl e \<Rightarrow> Inl e
        | Inr (job, p') \<Rightarrow> Inr (set_worker i (W_run job) (p'\<lparr>started := started p' @ [job]\<rparr>))))"

definition TP_finish :: "nat \<Rightarrow> 'j job \<Rightarrow> 'j pool \<Rightarrow> 'j pool" where
  "TP_finish i job p = set_worker i W_check (p\<lparr>finished := finished p @ [job]\<rparr>)"

text \<open>The three parts of \<open>stop\<close>: the flag, \<open>notify_all\<close>, and the joins followed by \<open>clear\<close>.\<close>

definition TP_stop_flag :: "'j pool \<Rightarrow> 'j pool" where
  "TP_stop_flag p = p\<lparr>should_terminate := True, stopping := S_notify\<rparr>"

definition TP_notify_all :: "'j pool \<Rightarrow> 'j pool" where
  "TP_notify_all p = p\<lparr>threads := map (\<lambda>w. if w = W_sleep then W_check else w) (threads p), stopping := S_join\<rparr>"

definition TP_joined :: "'j pool \<Rightarrow> 'j pool" where
  "TP_joined p = p\<lparr>threads := [], stopping := S_none\<rparr>"

section \<open>Steps\<close>

datatype party = P_client | P_worker nat | P_stopper

text \<open>
  \<open>start\<close> and \<open>stop\<close> are called by one controlling thread, as the framework does it.
\<close>

inductive tstep :: "('j job \<Rightarrow> bool) \<Rightarrow> 'j pool \<Rightarrow> party \<Rightarrow> 'j pool \<Rightarrow> bool" for returns where
  start: "stopping p = S_none \<Longrightarrow> TP_start p = Some p' \<Longrightarrow> tstep returns p P_stopper p'"
| queue_job: "tstep returns p P_client (QueueJob jobName job p)"
| notify_one: "notifying p = Suc n \<Longrightarrow> i < length (threads p) \<Longrightarrow> threads p ! i = W_sleep \<Longrightarrow>
    tstep returns p P_client (set_worker i W_check (p\<lparr>notifying := n\<rparr>))"
| notify_nobody: "notifying p = Suc n \<Longrightarrow> W_sleep \<notin> set (threads p) \<Longrightarrow>
    tstep returns p P_client (p\<lparr>notifying := n\<rparr>)"
| turn: "i < length (threads p) \<Longrightarrow> threads p ! i = W_check \<Longrightarrow> ThreadLoop_turn i p = Inr p' \<Longrightarrow>
    tstep returns p (P_worker i) p'"
| spurious: "i < length (threads p) \<Longrightarrow> threads p ! i = W_sleep \<Longrightarrow>
    tstep returns p (P_worker i) (set_worker i W_check p)"
| finish: "i < length (threads p) \<Longrightarrow> threads p ! i = W_run job \<Longrightarrow> returns job \<Longrightarrow>
    tstep returns p (P_worker i) (TP_finish i job p)"
| stop_flag: "stopping p = S_none \<Longrightarrow> tstep returns p P_stopper (TP_stop_flag p)"
| stop_notify: "stopping p = S_notify \<Longrightarrow> tstep returns p P_stopper (TP_notify_all p)"
| stop_join: "stopping p = S_join \<Longrightarrow> set (threads p) \<subseteq> {W_exit} \<Longrightarrow> tstep returns p P_stopper (TP_joined p)"

inductive tp_reach :: "('j job \<Rightarrow> bool) \<Rightarrow> 'j pool \<Rightarrow> bool" for returns where
  tp_init: "tp_reach returns (TP_ctor nproc)"
| tp_next: "tp_reach returns p \<Longrightarrow> tstep returns p who p' \<Longrightarrow> tp_reach returns p'"

inductive tsteps :: "('j job \<Rightarrow> bool) \<Rightarrow> 'j pool \<Rightarrow> 'j pool \<Rightarrow> bool" for returns where
  ts_refl: "tsteps returns p p"
| ts_step: "tsteps returns p p' \<Longrightarrow> tstep returns p' who p'' \<Longrightarrow> tsteps returns p p''"

lemmas pool_simps = TP_ctor_def TP_start_def TP_push_def QueueJob_def TP_take_def set_worker_def
  ThreadLoop_turn_def TP_finish_def TP_stop_flag_def TP_notify_all_def TP_joined_def Let_def

text \<open>The job queue is a queue in the sense of the interface of theory Queue.\<close>

interpretation tp: fifo jobs TP_push TP_take
  by unfold_locales (auto simp: TP_push_def TP_take_def)

section \<open>The invariant\<close>

fun running_of :: "'j worker \<Rightarrow> 'j job list" where
  "running_of (W_run job) = [job]"
| "running_of _ = []"

definition running :: "'j pool \<Rightarrow> 'j job list" where
  "running p = concat (map running_of (threads p))"

definition jobs_inv :: "'j pool \<Rightarrow> bool" where
  "jobs_inv p \<longleftrightarrow> queued p = started p @ jobs p \<and> mset (started p) = mset (finished p) + mset (running p)"

text \<open>
  A sleeper is never forgotten: while the pool is not being stopped, there are enough
  outstanding notifications and awake workers for the jobs in the queue.
\<close>

definition wake_inv :: "'j pool \<Rightarrow> bool" where
  "wake_inv p \<longleftrightarrow>
     (\<not> should_terminate p \<and> W_sleep \<in> set (threads p) \<longrightarrow>
        length (jobs p) \<le> notifying p + count_list (threads p) W_check)
   \<and> (should_terminate p \<and> stopping p \<noteq> S_notify \<longrightarrow> W_sleep \<notin> set (threads p))
   \<and> (stopping p \<noteq> S_none \<longrightarrow> should_terminate p)
   \<and> (W_exit \<in> set (threads p) \<longrightarrow> should_terminate p)
   \<and> (threads p = [] \<or> length (threads p) = unat (m_nproc p))"

lemma jobs_inv_step: "tstep returns p who p' \<Longrightarrow> jobs_inv p \<Longrightarrow> jobs_inv p'"
proof (induction rule: tstep.induct)
  case (notify_one p n i)
  with concat_map_update [of i "threads p" running_of W_check] show ?case
    by (auto simp: jobs_inv_def running_def pool_simps)
next
  case (turn i p p')
  with concat_map_update [of i "threads p" running_of W_sleep]
    concat_map_update [of i "threads p" running_of W_exit]
    concat_map_update [of i "threads p" running_of "W_run (hd (jobs p))"] show ?case
    by (auto simp: jobs_inv_def running_def pool_simps split: if_splits list.splits)
next
  case (spurious i p)
  with concat_map_update [of i "threads p" running_of W_check] show ?case
    by (auto simp: jobs_inv_def running_def pool_simps)
next
  case (finish i p job)
  with concat_map_update [of i "threads p" running_of W_check] show ?case
    by (auto simp: jobs_inv_def running_def pool_simps)
next
  case (start p p')
  then show ?case by (auto simp: jobs_inv_def running_def TP_start_def split: if_splits)
next
  case (stop_notify p)
  have "running_of (if w = W_sleep then W_check else w) = running_of w" for w :: "'a worker" by simp
  with stop_notify show ?case by (simp add: jobs_inv_def running_def pool_simps comp_def)
next
  case (stop_join p)
  then have "running p = []" by (auto simp: running_def)
  with stop_join show ?case by (simp add: jobs_inv_def running_def pool_simps)
qed (simp_all add: jobs_inv_def running_def pool_simps)

lemma wake_inv_step: "tstep returns p who p' \<Longrightarrow> wake_inv p \<Longrightarrow> wake_inv p'"
proof (induction rule: tstep.induct)
  case (start p p')
  then show ?case by (auto simp: wake_inv_def TP_start_def split: if_splits)
next
  case (notify_one p n i)
  with count_list_update [of i "threads p" W_check W_check] show ?case
    by (auto simp: wake_inv_def pool_simps dest!: set_update_subset_insert [THEN subsetD])
next
  case (turn i p p')
  then have "Suc n \<le> c + count_list (threads p) W_check \<Longrightarrow>
      n \<le> c + count_list ((threads p)[i := W_run job]) W_check" for n c job
    using count_list_update [of i "threads p" "W_run job" W_check] by simp
  with turn show ?case
    by (auto simp: wake_inv_def pool_simps split: if_splits list.splits
        dest!: set_update_subset_insert [THEN subsetD])
next
  case (spurious i p)
  with count_list_update [of i "threads p" W_check W_check] show ?case
    by (auto simp: wake_inv_def pool_simps dest!: set_update_subset_insert [THEN subsetD])
next
  case (finish i p job)
  with count_list_update [of i "threads p" W_check W_check] show ?case
    by (auto simp: wake_inv_def pool_simps dest!: set_update_subset_insert [THEN subsetD])
qed (auto simp: wake_inv_def pool_simps split: if_splits)

lemma tp_reach_inv: "tp_reach returns p \<Longrightarrow> jobs_inv p \<and> wake_inv p"
proof (induction rule: tp_reach.induct)
  case (tp_init nproc)
  show ?case by (simp add: jobs_inv_def wake_inv_def running_def TP_ctor_def)
qed (blast intro: jobs_inv_step wake_inv_step)

lemma tstep_queued:
  "tstep returns p who p' \<Longrightarrow> m_nproc p' = m_nproc p \<and> (\<exists>ys. queued p' = queued p @ ys)"
  by (induction rule: tstep.induct) (auto simp: pool_simps split: if_splits list.splits)

lemma tsteps_queued:
  "tsteps returns p p' \<Longrightarrow> m_nproc p' = m_nproc p \<and> (\<exists>ys. queued p' = queued p @ ys)"
proof (induction rule: tsteps.induct)
  case (ts_step p p' who p'')
  with tstep_queued [OF ts_step(2)] show ?case by auto
qed simp

lemma tsteps_reach: "tsteps returns p p' \<Longrightarrow> tp_reach returns p \<Longrightarrow> tp_reach returns p'"
  by (induction rule: tsteps.induct) (auto intro: tp_next)

lemma tsteps_trans: "tsteps returns p' p'' \<Longrightarrow> tsteps returns p p' \<Longrightarrow> tsteps returns p p''"
  by (induction rule: tsteps.induct) (auto intro: ts_step)

section \<open>Order and exactness\<close>

text \<open>
  C8: jobs start in the order in which they were queued, each at most once, and a job that
  has started is either running or finished. In every reachable state, under any
  interleaving of clients, workers and \<open>stop\<close>, the jobs queued so far are the jobs started,
  followed by the jobs waiting; and as multisets the jobs started are the jobs finished and
  the jobs running.
\<close>

theorem TP_order:
  assumes "tp_reach returns p"
  shows "queued p = started p @ jobs p \<and> mset (started p) = mset (finished p) + mset (running p)"
  using tp_reach_inv [OF assms] by (simp add: jobs_inv_def)

text \<open>A pool of two threads; the first has taken one of two queued jobs, the second sleeps.\<close>

definition pool2 :: "nat pool" where
  "pool2 = \<lparr>m_nproc = 2, should_terminate = False, threads = [W_run (''a'', 1), W_sleep],
     jobs = [(''b'', 2)], notifying = 2, stopping = S_none, queued = [(''a'', 1), (''b'', 2)],
     started = [(''a'', 1)], finished = []\<rparr>"

lemma pool2_reach: "tp_reach returns pool2"
proof -
  let ?p0 = "TP_ctor 2 :: nat pool"
  let ?p1 = "?p0\<lparr>threads := [W_check, W_check]\<rparr>"
  let ?p2 = "?p0\<lparr>threads := [W_check, W_sleep]\<rparr>"
  let ?p3 = "QueueJob ''b'' 2 (QueueJob ''a'' 1 ?p2)"
  have "replicate 2 (W_check :: nat worker) = [W_check, W_check]" by (simp add: numeral_2_eq_2)
  then have "tstep returns ?p0 P_stopper ?p1"
    by (intro tstep.start) (simp_all add: pool_simps)
  with tp_init have "tp_reach returns ?p1" by (rule tp_next)
  moreover have "tstep returns ?p1 (P_worker 1) ?p2"
    by (rule tstep.turn) (simp_all add: pool_simps)
  ultimately have "tp_reach returns ?p2" by (rule tp_next)
  then have "tp_reach returns (QueueJob ''a'' 1 ?p2)" using tstep.queue_job by (rule tp_next)
  then have "tp_reach returns ?p3" using tstep.queue_job by (rule tp_next)
  moreover have "tstep returns ?p3 (P_worker 0) pool2"
    by (rule tstep.turn) (simp_all add: pool_simps pool2_def)
  ultimately show ?thesis by (rule tp_next)
qed

theorem TP_order_witness: "queued pool2 = [(''a'', 1)] @ [(''b'', 2)]"
  using TP_order [OF pool2_reach [of "\<lambda>_. True"]] by (simp add: pool2_def)

text \<open>
  C9: no lost wake-up. While the pool is not being stopped and a job waits in the queue,
  either a \<open>notify_one\<close> is still to come, or a worker is awake and about to look at the
  queue, or every worker is busy with a job: no job waits beside a worker that sleeps for good.
\<close>

theorem TP_no_lost_wakeup:
  assumes "tp_reach returns p" and "\<not> should_terminate p" and "jobs p \<noteq> []" and "threads p \<noteq> []"
  shows "notifying p > 0 \<or> W_check \<in> set (threads p)
    \<or> length (running p) = unat (m_nproc p)"
proof (cases "W_sleep \<in> set (threads p)")
  case True
  with tp_reach_inv [OF assms(1)] assms(2,3)
  have "length (jobs p) \<le> notifying p + count_list (threads p) W_check" by (simp add: wake_inv_def)
  with assms(3) have "0 < notifying p + count_list (threads p) W_check"
    by (metis length_greater_0_conv order_less_le_trans)
  then show ?thesis by (cases "W_check \<in> set (threads p)") auto
next
  case False
  show ?thesis
  proof (cases "W_check \<in> set (threads p)")
    case check: False
    have inv: "W_exit \<notin> set (threads p)" "length (threads p) = unat (m_nproc p)"
      using tp_reach_inv [OF assms(1)] assms(2,4) by (auto simp: wake_inv_def)
    have "length (concat (map running_of ws)) = length ws"
      if "W_sleep \<notin> set ws" "W_check \<notin> set ws" "W_exit \<notin> set ws" for ws :: "'a worker list"
      using that
    proof (induction ws)
      case (Cons w ws)
      then show ?case by (cases w) auto
    qed simp
    with False check inv show ?thesis by (simp add: running_def)
  qed simp
qed

theorem TP_no_lost_wakeup_witness:
  "notifying pool2 > 0 \<or> W_check \<in> set (threads pool2) \<or> length (running pool2) = 2"
  using TP_no_lost_wakeup [OF pool2_reach [of "\<lambda>_. True"]] by (simp add: pool2_def)

section \<open>Stopping\<close>

lemma tstep_terminate:
  "tstep returns p who p' \<Longrightarrow> should_terminate p \<Longrightarrow> should_terminate p' \<and> started p' = started p"
  by (induction rule: tstep.induct) (auto simp: pool_simps split: if_splits)

text \<open>
  C16: once \<open>stop\<close> has set the flag no job starts any more, for ever: whatever is queued, and
  even if the pool is started again, since nothing resets \<open>should_terminate\<close>. The jobs still
  in the queue are abandoned, along with every job queued later.
\<close>

theorem TP_stop_is_final:
  assumes "tsteps returns p p'" and "should_terminate p" and "tp_reach returns p"
  shows "started p' = started p \<and> (\<exists>later. jobs p' = jobs p @ later)"
proof -
  from assms(1,2) have run: "should_terminate p' \<and> started p' = started p"
    by (induction rule: tsteps.induct) (auto dest: tstep_terminate)
  have "tp_reach returns p'" using assms(1,3) by (rule tsteps_reach)
  with assms(3) have "queued p' = started p' @ jobs p'" "queued p = started p @ jobs p"
    using tp_reach_inv unfolding jobs_inv_def by blast+
  moreover have "\<exists>later. queued p' = queued p @ later" using tsteps_queued [OF assms(1)] by blast
  ultimately show ?thesis using run by auto
qed

lemma pool2_stopped:
  "tp_reach returns (TP_stop_flag pool2)"
  "tsteps returns (TP_stop_flag pool2) (QueueJob ''c'' 3 (TP_stop_flag pool2))"
proof -
  have "tstep returns pool2 P_stopper (TP_stop_flag pool2)"
    by (rule tstep.stop_flag) (simp add: pool2_def)
  with pool2_reach show "tp_reach returns (TP_stop_flag pool2)" by (rule tp_next)
  show "tsteps returns (TP_stop_flag pool2) (QueueJob ''c'' 3 (TP_stop_flag pool2))"
    by (rule ts_step [OF ts_refl tstep.queue_job])
qed

theorem TP_stop_is_final_witness:
  "started (QueueJob ''c'' 3 (TP_stop_flag pool2)) = [(''a'', 1)]
   \<and> (\<exists>later. [(''b'', 2), (''c'', 3)] = [(''b'', 2 :: nat)] @ later)"
  using TP_stop_is_final [OF pool2_stopped(2) [of "\<lambda>_. True"] _ pool2_stopped(1) [of "\<lambda>_. True"]]
  by (simp add: pool2_def pool_simps)

text \<open>How far the workers are from being joined.\<close>

fun exit_work :: "'j worker \<Rightarrow> nat" where
  "exit_work (W_run job) = 2"
| "exit_work W_check = 1"
| "exit_work W_sleep = 0"
| "exit_work W_exit = 0"

definition join_work :: "'j pool \<Rightarrow> nat" where
  "join_work p = sum_list (map exit_work (threads p))"

lemma sum_list_upd:
  fixes f :: "'a \<Rightarrow> nat"
  shows "i < length xs \<Longrightarrow> sum_list (map f (xs[i := y])) + f (xs ! i) = sum_list (map f xs) + f y"
proof (induction xs arbitrary: i)
  case (Cons z xs)
  show ?case
  proof (cases i)
    case (Suc k)
    with Cons.IH [of k] Cons.prems show ?thesis by simp
  qed simp
qed simp

lemma join_work_worker:
  assumes "tstep returns p (P_worker i) p'" and "should_terminate p" and "W_sleep \<notin> set (threads p)"
  shows "join_work p' < join_work p \<and> stopping p' = stopping p"
  using assms(1)
proof (cases rule: tstep.cases)
  case turn
  with assms(2) sum_list_upd [of i "threads p" exit_work W_exit] show ?thesis
    by (auto simp: join_work_def pool_simps)
next
  case spurious
  with assms(3) show ?thesis by (metis nth_mem)
next
  case (finish job)
  with sum_list_upd [of i "threads p" exit_work W_check] show ?thesis
    by (simp add: join_work_def pool_simps)
qed

lemma join_work_0:
  assumes "join_work p = 0" and "W_sleep \<notin> set (threads p)" shows "set (threads p) \<subseteq> {W_exit}"
proof
  fix w
  assume w: "w \<in> set (threads p)"
  with assms(1) have "exit_work w = 0" by (simp add: join_work_def)
  with assms(2) w show "w \<in> {W_exit}" by (cases w) auto
qed

lemma worker_can_move:
  assumes "0 < join_work p" and "should_terminate p" and "\<forall>job \<in> set (running p). returns job"
  shows "\<exists>i p'. tstep returns p (P_worker i) p' \<and> set (running p') \<subseteq> set (running p)"
proof -
  from assms(1) obtain w where "w \<in> set (threads p)" and pos: "0 < exit_work w"
    unfolding join_work_def by (metis (mono_tags, lifting) bot_nat_0.not_eq_extremum imageE list.set_map sum_list_eq_0_iff)
  then obtain i where i: "i < length (threads p)" "threads p ! i = w" by (auto simp: in_set_conv_nth)
  have sub: "set (concat (map running_of ((threads p)[i := v]))) \<subseteq> set (running p)"
    if "running_of v = []" for v
    using that by (auto simp: running_def dest!: set_update_subset_insert [THEN subsetD])
  show ?thesis
  proof (cases w)
    case (W_run job)
    with i have "job \<in> set (running p)" by (force simp: running_def in_set_conv_nth)
    with assms(3) i W_run have "tstep returns p (P_worker i) (TP_finish i job p)"
      by (intro tstep.finish) auto
    moreover have "set (running (TP_finish i job p)) \<subseteq> set (running p)"
      using sub [of W_check] by (simp add: pool_simps running_def)
    ultimately show ?thesis by blast
  next
    case W_check
    with i assms(2) have "tstep returns p (P_worker i) (set_worker i W_exit p)"
      by (intro tstep.turn) (simp_all add: pool_simps)
    moreover have "set (running (set_worker i W_exit p)) \<subseteq> set (running p)"
      using sub [of W_exit] by (simp add: pool_simps running_def)
    ultimately show ?thesis by blast
  qed (use pos in simp_all)
qed

lemma S_join_inv:
  assumes "tp_reach returns p" and "stopping p = S_join"
  shows "should_terminate p \<and> W_sleep \<notin> set (threads p)"
  using tp_reach_inv [OF assms(1)] assms(2) by (auto simp: wake_inv_def)

lemma join_completes:
  "tp_reach returns q \<Longrightarrow> stopping q = S_join \<Longrightarrow> \<forall>job \<in> set (running q). returns job \<Longrightarrow>
   tsteps returns p q \<Longrightarrow> \<exists>p'. tsteps returns p p' \<and> stopping p' = S_none \<and> threads p' = []"
proof (induction "join_work q" arbitrary: q rule: less_induct)
  case less
  note inv = S_join_inv [OF less.prems(1,2)]
  show ?case
  proof (cases "join_work q = 0")
    case True
    with inv less.prems(2) have "tstep returns q P_stopper (TP_joined q)"
      by (intro tstep.stop_join) (simp_all add: join_work_0)
    with less.prems(4) have "tsteps returns p (TP_joined q)" by (rule ts_step)
    then show ?thesis by (intro exI [of _ "TP_joined q"]) (simp add: TP_joined_def)
  next
    case False
    with inv less.prems(3) obtain i q' where q': "tstep returns q (P_worker i) q'"
      "set (running q') \<subseteq> set (running q)" using worker_can_move [of q returns] by auto
    note dec = join_work_worker [OF q'(1)]
    show ?thesis
    proof (rule less.hyps [of q'])
      show "join_work q' < join_work q" "stopping q' = S_join" using dec inv less.prems(2) by auto
      show "tp_reach returns q'" "tsteps returns p q'"
        using less.prems(1,4) q'(1) by (blast intro: tp_next ts_step)+
      show "\<forall>job \<in> set (running q'). returns job" using q'(2) less.prems(3) by blast
    qed
  qed
qed

lemma join_work_bound: "join_work p \<le> 2 * length (threads p)"
proof -
  have two: "exit_work w \<le> 2" for w :: "'a worker" by (cases w) simp_all
  have "sum_list (map exit_work ws) \<le> 2 * length ws" for ws :: "'a worker list"
  proof (induction ws)
    case (Cons w ws)
    with two [of w] show ?case by simp
  qed simp
  then show ?thesis by (simp add: join_work_def)
qed

text \<open>
  C15: \<open>stop\<close> returns. When it has notified the workers and every job that is running returns,
  then under any schedule each step of a worker brings the pool strictly closer to the end
  of the joins, and the end is reached, with no thread left; the number of steps it
  takes is at most twice the number of threads.
\<close>

theorem TP_stop_returns:
  assumes "tp_reach returns p" and "stopping p = S_join" and "\<forall>job \<in> set (running p). returns job"
  shows "(\<forall>i p'. tstep returns p (P_worker i) p' \<longrightarrow> join_work p' < join_work p)
    \<and> join_work p \<le> 2 * length (threads p)
    \<and> (\<exists>p'. tsteps returns p p' \<and> stopping p' = S_none \<and> threads p' = [])"
proof (intro conjI allI impI)
  show "join_work p' < join_work p" if "tstep returns p (P_worker i) p'" for i p'
    using join_work_worker [OF that] S_join_inv [OF assms(1,2)] by simp
  show "join_work p \<le> 2 * length (threads p)" by (rule join_work_bound)
  show "\<exists>p'. tsteps returns p p' \<and> stopping p' = S_none \<and> threads p' = []"
    using assms ts_refl by (rule join_completes)
qed

text \<open>The example stopped: the second worker was woken, the first still runs its job.\<close>

definition pool2_join :: "nat pool" where
  "pool2_join = TP_notify_all (TP_stop_flag pool2)"

lemma pool2_join_reach: "tp_reach returns pool2_join"
  unfolding pool2_join_def
  by (rule tp_next [OF pool2_stopped(1) tstep.stop_notify]) (simp add: TP_stop_flag_def)

lemma pool2_join_eq: "stopping pool2_join = S_join" "running pool2_join = [(''a'', 1)]"
  "threads pool2_join = [W_run (''a'', 1), W_check]"
  by (simp_all add: pool2_join_def pool2_def running_def pool_simps)

theorem TP_stop_returns_witness:
  "join_work pool2_join \<le> 4
   \<and> (\<exists>p'. tsteps (\<lambda>_. True) pool2_join p' \<and> stopping p' = S_none \<and> threads p' = [])"
  using TP_stop_returns [OF pool2_join_reach [of "\<lambda>_. True"]] by (simp add: pool2_join_eq)

section \<open>Jobs that do not return\<close>

fun never_ends :: "('j job \<Rightarrow> bool) \<Rightarrow> 'j worker \<Rightarrow> bool" where
  "never_ends returns (W_run job) = (\<not> returns job)"
| "never_ends returns _ = False"

definition stuck :: "('j job \<Rightarrow> bool) \<Rightarrow> nat \<Rightarrow> 'j pool \<Rightarrow> bool" where
  "stuck returns i p \<longleftrightarrow> i < length (threads p) \<and> never_ends returns (threads p ! i)"

lemma stuck_step:
  assumes "tstep returns p who p'" and "stuck returns i p"
  shows "stuck returns i p' \<and> (stopping p \<noteq> S_none \<longrightarrow> stopping p' \<noteq> S_none)
    \<and> length (threads p') = length (threads p)"
proof -
  from assms(2) have i: "i < length (threads p)" "never_ends returns (threads p ! i)"
    by (auto simp: stuck_def)
  with assms(1) show ?thesis
  proof (induction rule: tstep.induct)
    case (stop_join p)
    then show ?case by (metis singletonD never_ends.simps(4) nth_mem subsetD)
  qed (auto simp: stuck_def pool_simps nth_list_update split: if_splits list.splits)
qed

lemma stuck_steps:
  "tsteps returns p p' \<Longrightarrow> stuck returns i p \<Longrightarrow>
   stuck returns i p' \<and> (stopping p \<noteq> S_none \<longrightarrow> stopping p' \<noteq> S_none) \<and> length (threads p') = length (threads p)"
  by (induction rule: tsteps.induct) (use stuck_step in \<open>fastforce+\<close>)

text \<open>
  C35: \<open>stop\<close> does not return while a worker runs a job that never does: from then on no
  schedule leads to the end of \<open>stop\<close>.
\<close>

theorem TP_stop_hangs:
  assumes "tsteps returns p p'" and "stopping p \<noteq> S_none"
    and "i < length (threads p)" and "threads p ! i = W_run job" and "\<not> returns job"
  shows "stopping p' \<noteq> S_none \<and> threads p' \<noteq> []"
proof -
  have "stuck returns i p" using assms(3-5) by (auto simp: stuck_def)
  with stuck_steps [OF assms(1) this] assms(2,3) show ?thesis by auto
qed

theorem TP_stop_hangs_witness:
  "stopping (QueueJob ''c'' 3 pool2_join) \<noteq> S_none \<and> threads (QueueJob ''c'' 3 pool2_join) \<noteq> []"
  by (rule TP_stop_hangs [of "\<lambda>_. False" pool2_join _ 0 "(''a'', 1)"])
    (simp_all add: pool2_join_eq ts_step [OF ts_refl tstep.queue_job])

text \<open>
  Starvation. When every worker runs a job that never returns, no other job ever
  starts, under any schedule, whatever is queued.
\<close>

theorem TP_starvation:
  assumes "tsteps returns p p'" and "threads p \<noteq> []"
    and "\<forall>i < length (threads p). \<exists>job. threads p ! i = W_run job \<and> \<not> returns job"
  shows "started p' = started p"
  using assms
proof (induction rule: tsteps.induct)
  case (ts_step p p' who p'')
  have busy: "stuck returns k p" if "k < length (threads p)" for k
    using ts_step.prems(2) that by (auto simp: stuck_def)
  note kept = stuck_steps [OF ts_step.hyps(1) busy]
  have len: "length (threads p') = length (threads p)" using kept [of 0] ts_step.prems(1) by simp
  have stuck: "stuck returns i p'" if "i < length (threads p')" for i
    using kept [of i] that len by simp
  then have "W_check \<notin> set (threads p')" by (force simp: stuck_def in_set_conv_nth)
  with ts_step.hyps(2) have "started p'' = started p'"
  proof (induction rule: tstep.induct)
    case (turn i p p')
    then show ?case by (metis nth_mem)
  qed (auto simp: pool_simps split: if_splits)
  with ts_step show ?case by simp
qed simp

text \<open>A pool of one thread, which runs a job that does not return.\<close>

definition pool1_busy :: "nat pool" where
  "pool1_busy = (TP_ctor 1)\<lparr>threads := [W_run (''dm_run'', 0)],
     queued := [(''dm_run'', 0)], started := [(''dm_run'', 0)]\<rparr>"

theorem TP_starvation_witness: "started (QueueJob ''sink'' 1 pool1_busy) = [(''dm_run'', 0)]"
  using TP_starvation [of "\<lambda>_. False" pool1_busy "QueueJob ''sink'' 1 pool1_busy"]
  by (simp add: pool1_busy_def TP_ctor_def ts_step [OF ts_refl tstep.queue_job])

text \<open>
  Jobs that do not return block the pool when they come first: when none of the first \<open>n\<close>
  jobs ever queued returns, \<open>n\<close> being the number of threads, then no more than \<open>n\<close> jobs ever
  start, so that only these start, and none finishes, in any reachable state.
\<close>

lemma blocked_pool:
  assumes "tp_reach returns p"
    and "\<forall>job \<in> set (take (unat (m_nproc p)) (queued p)). \<not> returns job"
  shows "length (started p) \<le> unat (m_nproc p) \<and> finished p = []"
  using assms
proof (induction rule: tp_reach.induct)
  case (tp_next p who p')
  have grow: "\<exists>ys. queued p' = queued p @ ys" "m_nproc p' = m_nproc p"
    using tstep_queued [OF tp_next.hyps(2)] by blast+
  then have "set (take (unat (m_nproc p)) (queued p)) \<subseteq> set (take (unat (m_nproc p')) (queued p'))"
    by auto
  with tp_next.IH tp_next.prems have IH: "length (started p) \<le> unat (m_nproc p)" "finished p = []"
    and block: "\<forall>job \<in> set (take (unat (m_nproc p)) (queued p)). \<not> returns job" by blast+
  have inv: "jobs_inv p" using tp_next.hyps(1) tp_reach_inv by blast
  have reach': "tp_reach returns p'" using tp_next.hyps by (rule tp_reach.tp_next)
  have "set (running p) \<subseteq> set (started p)"
    using inv by (metis jobs_inv_def set_mset_mset set_mset_mono mset_subset_eq_add_right)
  moreover have "set (started p) \<subseteq> set (take (unat (m_nproc p)) (queued p))"
    using inv IH(1) by (auto simp: jobs_inv_def)
  ultimately have "\<forall>job \<in> set (running p). \<not> returns job" using block by blast
  with tp_next.hyps(2) have "finished p' = []"
    using IH(2)
  proof (induction rule: tstep.induct)
    case (finish i p job)
    then have "job \<in> set (running p)" by (force simp: running_def in_set_conv_nth)
    with finish show ?case by blast
  qed (auto simp: pool_simps split: if_splits list.splits)
  moreover have "length (started p') = length (finished p') + length (running p')"
    using tp_reach_inv [OF reach'] by (metis jobs_inv_def size_mset size_union)
  moreover have "length (running p') \<le> length (threads p')"
  proof -
    have one: "length (running_of w) \<le> 1" for w :: "'a worker" by (cases w) simp_all
    have "length (concat (map running_of ws)) \<le> length ws" for ws :: "'a worker list"
    proof (induction ws)
      case (Cons w ws)
      with one [of w] show ?case by simp
    qed simp
    then show ?thesis by (simp add: running_def)
  qed
  moreover have "length (threads p') \<le> unat (m_nproc p')"
    using tp_reach_inv [OF reach'] by (auto simp: wake_inv_def)
  ultimately show ?case by simp
qed (simp add: TP_ctor_def)

end
