(* ===== verification/Proxies.thy ===== *)
theory Proxies
  imports Tcp Udp Consumers Thread_Pool
begin

text \<open>
  The class \<open>Proxy\<close> of include/proxy.hpp and src/proxy.cpp: it creates nodes from their
  type, keeps them in a list, and queues one job per node to the thread pool each time it
  runs. A job is named after its node; what the pool stores with the name is the closure
  that runs the node, here the node's position in the list.
\<close>

section \<open>Types of nodes\<close>

datatype ProxyType = TCPS | TCPC | UDPRX | UDPTX | CONSUMER | CUSTOM | UNKNOWN

text \<open>The enumerators in order, with the values the language gives them.\<close>

fun enum_value :: "ProxyType \<Rightarrow> nat" where
  "enum_value TCPS = 0"
| "enum_value TCPC = 1"
| "enum_value UDPRX = 2"
| "enum_value UDPTX = 3"
| "enum_value CONSUMER = 4"
| "enum_value CUSTOM = 5"
| "enum_value UNKNOWN = 6"

lemma enum_value_inj: "enum_value s = enum_value t \<longleftrightarrow> s = t"
  by (cases s; cases t) simp_all

instantiation ProxyType :: linorder
begin

definition less_eq_ProxyType :: "ProxyType \<Rightarrow> ProxyType \<Rightarrow> bool" where
  "less_eq_ProxyType s t \<longleftrightarrow> enum_value s \<le> enum_value t"

definition less_ProxyType :: "ProxyType \<Rightarrow> ProxyType \<Rightarrow> bool" where
  "less_ProxyType s t \<longleftrightarrow> enum_value s < enum_value t"

instance
  by standard (auto simp: less_eq_ProxyType_def less_ProxyType_def enum_value_inj)

end

definition getProxyType :: "string \<Rightarrow> ProxyType res" where
  "getProxyType type =
     (if type = ''TCP_Server'' then Inr TCPS
      else if type = ''UDP_Rx'' then Inr UDPRX
      else if type = ''UDP_Tx'' then Inr UDPTX
      else if type = ''CUSTOM'' then Inr CUSTOM
      else if type = ''CONSUMER'' then Inr CONSUMER
      else Inl (Runtime_error (''Unknown type of proxy, '' @ type)))"

section \<open>Nodes and the proxy\<close>

text \<open>What a \<open>ProxyNode*\<close> may point to; the operations are chosen by the dynamic type.\<close>

datatype node =
    N_TcpServer TcpServer
  | N_UdpServer UdpServer
  | N_UdpClient UdpClient
  | N_Consumer Consumer

fun node_name :: "node \<Rightarrow> string" where
  "node_name (N_TcpServer s) = m_name s"
| "node_name (N_UdpServer s) = m_name s"
| "node_name (N_UdpClient c) = m_name c"
| "node_name (N_Consumer c) = m_name c"

fun node_stop :: "node \<Rightarrow> bool \<times> node" where
  "node_stop (N_TcpServer s) = (case Runnable_stop s of (b, s') \<Rightarrow> (b, N_TcpServer s'))"
| "node_stop (N_UdpServer s) = (case Runnable_stop s of (b, s') \<Rightarrow> (b, N_UdpServer s'))"
| "node_stop (N_UdpClient c) = (case Runnable_stop c of (b, c') \<Rightarrow> (b, N_UdpClient c'))"
| "node_stop (N_Consumer c) = (case Consumer_stop c of (b, c') \<Rightarrow> (b, N_Consumer c'))"

fun node_running :: "node \<Rightarrow> bool" where
  "node_running (N_TcpServer s) = m_isRunning s"
| "node_running (N_UdpServer s) = m_isRunning s"
| "node_running (N_UdpClient c) = m_isRunning c"
| "node_running (N_Consumer c) = m_isRunning c"

text \<open>
  \<open>has_handler\<close>: whether \<open>addHandler\<close> has been called, that is whether the pointer to the data
  manager, which the constructor leaves uninitialised, is valid.
\<close>

record Proxy = Runnable +
  m_proxyNodeList :: "node list"
  has_handler :: bool

definition Proxy_ctor :: Proxy where
  "Proxy_ctor = Runnable.extend Runnable_ctor (Proxy.fields [] False)"

lemma Proxy_ctor_eq [simp]:
  "Proxy_ctor = \<lparr>m_isRunning = False, m_proxyNodeList = [], has_handler = False\<rparr>"
  by (simp add: Proxy_ctor_def Runnable_ctor_def Runnable.extend_def Proxy.fields_def)

definition addHandler :: "Proxy \<Rightarrow> Proxy" where
  "addHandler p = p\<lparr>has_handler := True\<rparr>"

text \<open>
  The switch of \<open>addNode\<close>: the constructors of feeders and consumers register with the data
  manager, which keeps the registration when the constructor throws afterwards.
\<close>

definition new_node ::
  "os \<Rightarrow> ProxyType \<Rightarrow> 16 word \<Rightarrow> string \<Rightarrow> string DataManager \<Rightarrow> node res \<times> string DataManager"
where
  "new_node os type port name dm =
     (case type of
        TCPS \<Rightarrow> (case TcpServer_ctor os name port dm of (r, dm') \<Rightarrow> (map_sum (\<lambda>e. e) N_TcpServer r, dm'))
      | UDPRX \<Rightarrow> (case UdpServer_ctor os name port dm of (r, dm') \<Rightarrow> (map_sum (\<lambda>e. e) N_UdpServer r, dm'))
      | UDPTX \<Rightarrow> (map_sum (\<lambda>e. e) N_UdpClient (UdpClient_ctor os name port), dm)
      | CONSUMER \<Rightarrow> (case Consumer_ctor name port dm of (c, dm') \<Rightarrow> (Inr (N_Consumer c), dm'))
      | _ \<Rightarrow> (Inl (Runtime_error ''Unknown type of node''), dm))"

definition addNode ::
  "os \<Rightarrow> ProxyType \<Rightarrow> 16 word \<Rightarrow> string \<Rightarrow> Proxy \<Rightarrow> string DataManager
     \<Rightarrow> bool res \<times> Proxy \<times> string DataManager"
where
  "addNode os type port name p dm =
     (if \<not> has_handler p \<and> type \<in> {TCPS, UDPRX, CONSUMER} then (Inl (Undefined Null_dereference), p, dm)
      else
        (case new_node os type port name dm of
           (Inl e, dm') \<Rightarrow> (Inl e, p, dm')
         | (Inr n, dm') \<Rightarrow> (Inr True, p\<lparr>m_proxyNodeList := m_proxyNodeList p @ [n]\<rparr>, dm')))"

text \<open>
  \<open>run\<close> queues a job for every node, in the order of the list; \<open>job\<close> makes the closure from
  the node's position.
\<close>

fun queue_nodes :: "(nat \<Rightarrow> 'j) \<Rightarrow> nat \<Rightarrow> node list \<Rightarrow> 'j pool \<Rightarrow> 'j pool" where
  "queue_nodes job k [] tp = tp"
| "queue_nodes job k (it # ns) tp = queue_nodes job (Suc k) ns (QueueJob (node_name it) (job k) tp)"

definition Proxy_run :: "(nat \<Rightarrow> 'j) \<Rightarrow> Proxy \<Rightarrow> 'j pool \<Rightarrow> bool \<times> 'j pool" where
  "Proxy_run job p tp =
     (if length (m_proxyNodeList p) = 0 then (False, tp)
      else (True, queue_nodes job 0 (m_proxyNodeList p) tp))"

fun stop_nodes :: "node list \<Rightarrow> bool \<Rightarrow> bool \<times> node list" where
  "stop_nodes [] ret = (ret, [])"
| "stop_nodes (it # ns) ret =
     (case node_stop it of (b, it') \<Rightarrow>
       (case stop_nodes ns (if \<not> b then False else ret) of (ret', ns') \<Rightarrow> (ret', it' # ns')))"

definition Proxy_stop :: "Proxy \<Rightarrow> bool \<times> Proxy" where
  "Proxy_stop p = (case stop_nodes (m_proxyNodeList p) True of (ret, ns) \<Rightarrow> (ret, p\<lparr>m_proxyNodeList := ns\<rparr>))"

section \<open>Lemmas\<close>

lemma node_stop_spec: "fst (node_stop n)" "node_name (snd (node_stop n)) = node_name n"
  "\<not> node_running (snd (node_stop n))"
  by (cases n; simp add: Runnable_stop_def Consumer_stop_def)+

lemma stop_nodes_eq: "stop_nodes ns ret = (ret, map (snd \<circ> node_stop) ns)"
  by (induction ns arbitrary: ret) (simp_all add: node_stop_spec split: prod.split, metis node_stop_spec(1) fst_conv)

lemma queue_nodes_eq:
  "queue_nodes job k ns tp = tp\<lparr>jobs := jobs tp @ map (\<lambda>(i, n). (node_name n, job i)) (enumerate k ns),
     queued := queued tp @ map (\<lambda>(i, n). (node_name n, job i)) (enumerate k ns),
     notifying := notifying tp + length ns\<rparr>"
  by (induction ns arbitrary: k tp) (simp_all add: QueueJob_def TP_push_def Let_def)

section \<open>Properties\<close>

text \<open>
  The types a topology can name. \<open>getProxyType\<close> accepts exactly the five texts of
  \<open>type_text\<close>, each for its own enumerator; any other text is the exception, with the
  text in its message. No text gives \<open>TCPC\<close> or \<open>UNKNOWN\<close>.
\<close>

fun type_text :: "ProxyType \<Rightarrow> string option" where
  "type_text TCPS = Some ''TCP_Server''"
| "type_text UDPRX = Some ''UDP_Rx''"
| "type_text UDPTX = Some ''UDP_Tx''"
| "type_text CONSUMER = Some ''CONSUMER''"
| "type_text CUSTOM = Some ''CUSTOM''"
| "type_text TCPC = None"
| "type_text UNKNOWN = None"

theorem getProxyType_texts:
  "(getProxyType text = Inr type \<longleftrightarrow> type_text type = Some text)
   \<and> (getProxyType text = Inl (Runtime_error (''Unknown type of proxy, '' @ text))
        \<longleftrightarrow> (\<forall>t. type_text t \<noteq> Some text))"
proof
  show "getProxyType text = Inr type \<longleftrightarrow> type_text type = Some text"
    by (cases type) (auto simp: getProxyType_def)
  have "getProxyType text = Inr t \<Longrightarrow> type_text t = Some text" for t
    by (cases t) (auto simp: getProxyType_def split: if_splits)
  moreover have "type_text t = Some text \<Longrightarrow> getProxyType text = Inr t" for t
    by (cases t) (auto simp: getProxyType_def)
  moreover have "getProxyType text = Inl (Runtime_error (''Unknown type of proxy, '' @ text))
      \<or> (\<exists>t. getProxyType text = Inr t)" by (simp add: getProxyType_def)
  ultimately show "getProxyType text = Inl (Runtime_error (''Unknown type of proxy, '' @ text))
      \<longleftrightarrow> (\<forall>t. type_text t \<noteq> Some text)" by (metis sum.distinct(1))
qed

lemma createListenSocket_ok:
  "is_ok (createListenSocket os port) \<longleftrightarrow> 0 \<le> os_socket os \<and> 0 \<le> os_bind os (local_addr port)"
  "is_ok (createRxSocket os port) \<longleftrightarrow> 0 \<le> os_socket os \<and> 0 \<le> os_bind os (local_addr port)"
  by (simp_all add: createListenSocket_def createRxSocket_def bound_socket_ok_iff)

text \<open>What a node's constructor needs from the operating system, by type of node.\<close>

definition node_ok :: "os \<Rightarrow> ProxyType \<Rightarrow> 16 word \<Rightarrow> bool" where
  "node_ok os type port \<longleftrightarrow> type = CONSUMER \<or> (type = UDPTX \<and> 0 \<le> os_socket os)
     \<or> (type \<in> {TCPS, UDPRX} \<and> 0 \<le> os_socket os \<and> 0 \<le> os_bind os (local_addr port))"

definition registers :: "ProxyType \<Rightarrow> string \<Rightarrow> string DataManager \<Rightarrow> string DataManager" where
  "registers type name dm =
     (if type \<in> {TCPS, UDPRX} then snd (setFeeder name dm)
      else if type = CONSUMER then snd (setConsumer name dm) else dm)"

lemma new_node_spec:
  "snd (new_node os type port name dm) = registers type name dm"
  "is_ok (fst (new_node os type port name dm)) \<longleftrightarrow> node_ok os type port"
  "fst (new_node os type port name dm) = Inr n \<Longrightarrow> node_name n = name"
  by (cases type; auto simp: new_node_def TcpServer_ctor_def UdpServer_ctor_def UdpClient_ctor_def
      Consumer_ctor_def createListenSocket_def createRxSocket_def createTxSocket_def bound_socket_def
      registers_def node_ok_def ProxyNode.extend_def TcpServer.fields_def UdpServer.fields_def
      UdpClient.fields_def Consumer.fields_def Let_def split: if_splits)+

text \<open>
  C26: what adding a node does, for every type and whatever the system calls answer. It
  succeeds exactly for a consumer, a UDP sender whose socket can be made, or a server whose
  socket can be made and bound; then the node is appended to the list. The data manager
  gets a feeder for a server, a consumer for a consumer, nothing for a sender, and it gets
  them also when the node cannot be made and the call throws.
\<close>

theorem addNode_spec:
  assumes "has_handler p" and "addNode os type port name p dm = (r, p', dm')"
  shows "dm' = registers type name dm \<and> (is_ok r \<longleftrightarrow> node_ok os type port)
    \<and> map node_name (m_proxyNodeList p') = map node_name (m_proxyNodeList p)
        @ (if node_ok os type port then [name] else [])"
proof (cases "fst (new_node os type port name dm)")
  case (Inl e)
  with new_node_spec(1,2) [of os type port name dm] assms show ?thesis
    by (cases "new_node os type port name dm") (auto simp: addNode_def)
next
  case (Inr n)
  with new_node_spec(1,2) [of os type port name dm] new_node_spec(3) [OF Inr] assms show ?thesis
    by (cases "new_node os type port name dm") (auto simp: addNode_def)
qed

text \<open>Port taken: the node is not added, its name is.\<close>

theorem addNode_spec_witness:
  "(case addNode os_busy TCPS 8080 ''Feeder0'' (addHandler Proxy_ctor) (DataManager_ctor False conf22) of
      (r, p', dm') \<Rightarrow> \<not> is_ok r \<and> m_proxyNodeList p' = [] \<and> dm_pending dm' ''Feeder0'' = Some [])"
proof -
  obtain r p' dm' where r: "addNode os_busy TCPS 8080 ''Feeder0'' (addHandler Proxy_ctor)
      (DataManager_ctor False conf22) = (r, p', dm')" by (metis prod_cases3)
  have "has_handler (addHandler Proxy_ctor)" by (simp add: addHandler_def)
  from addNode_spec [OF this r] show ?thesis
    unfolding r by (simp add: addHandler_def node_ok_def registers_def os_busy_def)
      (simp add: dm_pending_def setFeeder_def DataManager_ctor_def conf22_def om_count_def Q_new_def)
qed

text \<open>
  Queueing a proxy's jobs is nothing but calls of \<open>QueueJob\<close>: \<open>run\<close> is true exactly when
  there is a node, and it takes the pool by steps of the pool to one with the nodes' jobs at
  the end of its queue, in the order of the list.
\<close>

theorem Proxy_run_queues:
  "case Proxy_run job p tp of (b, tp') \<Rightarrow> (b \<longleftrightarrow> m_proxyNodeList p \<noteq> []) \<and> tsteps returns tp tp'
     \<and> jobs tp' = jobs tp @ map (\<lambda>(i, n). (node_name n, job i)) (enumerate 0 (m_proxyNodeList p))"
proof -
  have "tsteps returns tp tp1 \<Longrightarrow> tsteps returns tp (queue_nodes job k ns tp1)" for k ns tp1
  proof (induction ns arbitrary: k tp1)
    case (Cons n ns)
    from Cons.IH [OF ts_step [OF Cons.prems tstep.queue_job]] show ?case by simp
  qed simp
  from this [OF ts_refl] show ?thesis by (auto simp: Proxy_run_def queue_nodes_eq ts_refl)
qed

fun addServers ::
  "os \<Rightarrow> (16 word \<times> string) list \<Rightarrow> Proxy \<Rightarrow> string DataManager \<Rightarrow> bool res list \<times> Proxy \<times> string DataManager"
where
  "addServers os [] p dm = ([], p, dm)"
| "addServers os ((port, name) # ps) p dm =
     (case addNode os TCPS port name p dm of
        (r, p1, dm1) \<Rightarrow> (case addServers os ps p1 dm1 of (rs, p2, dm2) \<Rightarrow> (r # rs, p2, dm2)))"

lemma addServers_eq:
  "has_handler p \<Longrightarrow> 0 \<le> os_socket os \<Longrightarrow> (\<And>a. 0 \<le> os_bind os a) \<Longrightarrow>
   \<exists>p'. addServers os ps p dm = (replicate (length ps) (Inr True), p', snd (setFeeders (map snd ps) dm))
     \<and> length (m_proxyNodeList p') = length (m_proxyNodeList p) + length ps"
proof (induction ps arbitrary: p dm)
  case (Cons q ps)
  obtain port name where q: "q = (port, name)" by force
  have "\<exists>n. addNode os TCPS port name p dm =
      (Inr True, p\<lparr>m_proxyNodeList := m_proxyNodeList p @ [n]\<rparr>, snd (setFeeder name dm))"
    using Cons.prems by (simp add: addNode_def new_node_def TcpServer_ctor_def createListenSocket_def
        bound_socket_def not_less [symmetric] Let_def) blast
  then obtain n where n: "addNode os TCPS port name p dm =
      (Inr True, p\<lparr>m_proxyNodeList := m_proxyNodeList p @ [n]\<rparr>, snd (setFeeder name dm))" by blast
  from Cons.IH [of "p\<lparr>m_proxyNodeList := m_proxyNodeList p @ [n]\<rparr>" "snd (setFeeder name dm)"] Cons.prems
  show ?case by (auto simp: q n split: prod.split)
qed simp

text \<open>
  C27: servers without a queue. Any number of TCP servers with distinct names is added to a
  proxy and reported as added, but only the first \<open>maxFeeders\<close> of them get an input queue.
  The rest run and receive as usual, and leave the data manager as it is: whatever is sent
  to them is dropped.
\<close>

theorem Proxy_mute_servers:
  assumes "distinct (map snd ps)" and "''empty'' \<notin> snd ` set ps" and "has_handler p"
    and "0 \<le> os_socket os" and "\<forall>a. 0 \<le> os_bind os a"
    and "addServers os ps p (DataManager_ctor junk conf) = (rs, p', dm)"
  shows "rs = replicate (length ps) (Inr True)
    \<and> length (m_proxyNodeList p') = length (m_proxyNodeList p) + length ps
    \<and> (\<forall>j < length ps. dm_pending dm (snd (ps ! j)) = (if j < unat (conf_maxFeeders conf) then Some [] else None))"
proof -
  let ?ns = "map snd ps"
  define dm0 :: "string DataManager" where "dm0 = DataManager_ctor junk conf"
  have dm0: "m_inQueuesIds dm0 = []" "m_inQueues dm0 = []" "m_maxNbInQueues dm0 = conf_maxFeeders conf"
    by (simp_all add: dm0_def DataManager_ctor_def)
  obtain p1 where add: "addServers os ps p dm0 = (replicate (length ps) (Inr True), p1, snd (setFeeders ?ns dm0))"
      "length (m_proxyNodeList p1) = length (m_proxyNodeList p) + length ps"
    using addServers_eq [OF assms(3,4)] assms(5) by blast
  with assms(6) have res: "rs = replicate (length ps) (Inr True)" "p' = p1" "dm = snd (setFeeders ?ns dm0)"
    by (simp_all add: dm0_def)
  define k where "k = min (unat (m_maxNbInQueues dm0) - length (m_inQueuesIds dm0)) (length ?ns)"
  have ids: "map_of (m_inQueuesIds dm) = map_of (zip (take k ?ns) (map int [0..<k]))"
    and ins: "m_inQueues dm = replicate k Q_new"
    using setFeeders_fresh [of dm0 ?ns k] assms(1,2) unfolding res(3)
    by (auto simp: dm0 k_def)
  have "dm_pending dm (?ns ! j) = (if j < k then Some [] else None)" if "j < length ?ns" for j
  proof (cases "j < k")
    case True
    have "k \<le> length ?ns" by (simp add: k_def)
    then have "map_of (zip (take k ?ns) (map int [0..<k])) (take k ?ns ! j) = Some (map int [0..<k] ! j)"
      using assms(1) True by (intro map_of_zip_nth) (auto simp: distinct_take)
    with True ids ins show ?thesis by (simp add: dm_pending_def Q_new_def)
  next
    case False
    have "?ns ! i \<noteq> ?ns ! j" if "i < k" for i
      using False \<open>j < length ?ns\<close> that assms(1) by (simp add: nth_eq_iff_index_eq del: nth_map)
    then have "?ns ! j \<notin> set (take k ?ns)"
      by (auto simp: in_set_conv_nth simp del: nth_map)
    then have "map_of (zip (take k ?ns) (map int [0..<k])) (?ns ! j) = None"
      by (metis map_of_eq_None_iff map_fst_zip_take in_set_takeD image_set)
    with False ids show ?thesis by (simp add: dm_pending_def)
  qed
  moreover have "j < k \<longleftrightarrow> j < unat (conf_maxFeeders conf)" if "j < length ps" for j
    using that by (auto simp: k_def dm0)
  ultimately show ?thesis using res add(2) by simp
qed

text \<open>The witness: a limit of two feeders and three servers, the third without a queue.\<close>

theorem Proxy_mute_servers_witness:
  "case addServers os_good [(50000, ''A''), (50001, ''B''), (50002, ''C'')] (addHandler Proxy_ctor)
      (DataManager_ctor False conf22) of (rs, p', dm) \<Rightarrow>
     rs = [Inr True, Inr True, Inr True] \<and> length (m_proxyNodeList p') = 3
     \<and> dm_pending dm ''B'' = Some [] \<and> dm_pending dm ''C'' = None"
proof -
  let ?ps = "[(50000 :: 16 word, ''A''), (50001, ''B''), (50002, ''C'')]"
  obtain rs p' dm where r: "addServers os_good ?ps (addHandler Proxy_ctor) (DataManager_ctor False conf22)
      = (rs, p', dm)" by (metis prod_cases3)
  have "distinct (map snd ?ps)" "''empty'' \<notin> snd ` set ?ps" "has_handler (addHandler Proxy_ctor)"
    "0 \<le> os_socket os_good" "\<forall>a. 0 \<le> os_bind os_good a"
    by (simp_all add: addHandler_def os_good_def)
  note all = Proxy_mute_servers [OF this r]
  have "dm_pending dm (snd (?ps ! 1)) = Some []" "dm_pending dm (snd (?ps ! 2)) = None"
    using all [THEN conjunct2, THEN conjunct2, THEN spec, of 1]
      all [THEN conjunct2, THEN conjunct2, THEN spec, of 2] by (simp_all add: conf22_def)
  with all show ?thesis unfolding r by (simp add: addHandler_def numeral_3_eq_3)
qed

text \<open>A mute server at work: it accepts and reads, and the data manager stays as it was.\<close>

lemma mute_server_drops:
  assumes "env_ok te" and "te_poll te \<noteq> 0" and "distinct (clients te s)"
    and "length (clients te s) \<le> BACKLOG"
    and "dm_inv dm" and "dm_pending dm (m_name s) = None" and "TcpServer_run te s dm = Inr (b, s', dm')"
  shows "dm' = dm"
  using TcpServer_unregistered [OF assms(1-6)] assms(7) by auto

text \<open>
  \<open>stop\<close> of a proxy always reports success; it keeps the nodes and leaves none of them
  running.
\<close>

theorem Proxy_stop_spec:
  "case Proxy_stop p of (b, p') \<Rightarrow> b \<and> map node_name (m_proxyNodeList p') = map node_name (m_proxyNodeList p)
     \<and> list_all (\<lambda>n. \<not> node_running n) (m_proxyNodeList p')"
  by (simp add: Proxy_stop_def stop_nodes_eq node_stop_spec comp_def list_all_iff)

end
