(* ===== verification/Frameworks.thy ===== *)
theory Frameworks
  imports Proxies
begin

text \<open>
  The class \<open>DataFramework\<close> of include/dataFramework.hpp and src/dataFramework.cpp: it reads a
  topology file, builds the thread pool, the data manager and the two proxies from it, and
  runs and stops them.

  The property tree of boost is third-party code. It appears as the record \<open>topology\<close>, one
  field per path that the sources look up, \<open>None\<close> where the lookup finds nothing (or nothing
  of the type asked for); reading the file is the parameter \<open>read_json\<close>.
\<close>

section \<open>Topologies\<close>

record proxy_conf =
  p_type :: "string option"
  p_name :: "string option"
  p_port :: "int option"

record topology =
  t_name :: "string option"
  t_mode :: "string option"
  t_threadCount :: "int option"
  t_proxies :: "string \<Rightarrow> proxy_conf list option"

text \<open>\<open>get<T>(path)\<close> throws where \<open>get_optional<T>(path)\<close> returns nothing.\<close>

definition ptree_get :: "string \<Rightarrow> 'a option \<Rightarrow> 'a res" where
  "ptree_get path v = (case v of None \<Rightarrow> Inl (Ptree_error path) | Some x \<Rightarrow> Inr x)"

definition empty_topology :: topology where
  "empty_topology = \<lparr>t_name = None, t_mode = None, t_threadCount = None, t_proxies = (\<lambda>_. None)\<rparr>"

section \<open>State\<close>

text \<open>The closures the framework and its proxies hand to the pool.\<close>

datatype job_id = J_dm_run | J_out nat | J_in nat

text \<open>
  \<open>m_dataManager\<close>: whether the pointer has been set; the object it points to is the static
  instance \<open>m_Pinstance\<close>. \<open>m_mainThread\<close>: whether the thread is joinable. The smart pointers
  start out null.
\<close>

record DataFramework = Runnable +
  m_pt :: topology
  m_config :: string
  m_threadCount :: int
  m_mainThread :: bool
  m_dataManagerConf :: DataManagerConf
  m_threadPoolPtr :: "job_id pool option"
  m_inProxyPtr :: "Proxy option"
  m_outProxyPtr :: "Proxy option"
  m_dataManager :: bool
  m_Pinstance :: "string DataManager option"

section \<open>Building the pipeline\<close>

definition instantiateThreadPool :: "DataFramework \<Rightarrow> bool \<times> DataFramework" where
  "instantiateThreadPool fw =
     (let n = (case t_threadCount (m_pt fw) of Some threadCount \<Rightarrow> threadCount | None \<Rightarrow> 1) in
      (True, fw\<lparr>m_threadCount := n, m_threadPoolPtr := Some (TP_ctor (word_of_int n))\<rparr>))"

definition setDataManagerConf :: "DataFramework \<Rightarrow> bool res \<times> DataFramework" where
  "setDataManagerConf fw =
     (case t_name (m_pt fw) of
        None \<Rightarrow> (Inl (Runtime_error ''Specify dataManager.name parameter in topology file''), fw)
      | Some dmName \<Rightarrow>
          (case t_mode (m_pt fw) of
             None \<Rightarrow> (Inl (Runtime_error ''Specify dataManager.mode parameter in topology file''), fw)
           | Some dmMode \<Rightarrow>
               (let fw1 = fw\<lparr>m_dataManagerConf := (m_dataManagerConf fw)\<lparr>conf_name := dmName\<rparr>\<rparr> in
                case STRING_TO_CONF dmMode of
                  Inl e \<Rightarrow> (Inl e, fw1)
                | Inr mode \<Rightarrow> (Inr True, fw1\<lparr>m_dataManagerConf := (m_dataManagerConf fw1)
                    \<lparr>conf_mode := mode, conf_maxFeeders := 8, conf_maxConsumers := 8\<rparr>\<rparr>))))"

definition instantiateDataManager :: "bool \<Rightarrow> DataFramework \<Rightarrow> bool res \<times> DataFramework" where
  "instantiateDataManager junk fw =
     (case setDataManagerConf fw of
        (Inl e, fw1) \<Rightarrow> (Inl e, fw1)
      | (Inr _, fw1) \<Rightarrow>
          (case getInstance junk (m_dataManagerConf fw1) (m_Pinstance fw1) of
             (_, inst) \<Rightarrow> (Inr True, fw1\<lparr>m_Pinstance := inst, m_dataManager := True\<rparr>)))"

text \<open>
  The loop over the children of a proxy. \<open>osk k\<close> is what the operating system answers while
  the \<open>k\<close>-th child is being built.
\<close>

fun add_nodes ::
  "(nat \<Rightarrow> os) \<Rightarrow> nat \<Rightarrow> proxy_conf list \<Rightarrow> bool \<Rightarrow> Proxy \<Rightarrow> string DataManager
     \<Rightarrow> bool res \<times> Proxy \<times> string DataManager"
where
  "add_nodes osk k [] ret p dm = (Inr ret, p, dm)"
| "add_nodes osk k (c # cs) ret p dm =
     (case ptree_get ''type'' (p_type c) of Inl e \<Rightarrow> (Inl e, p, dm) | Inr text \<Rightarrow>
      (case getProxyType text of Inl e \<Rightarrow> (Inl e, p, dm) | Inr type \<Rightarrow>
      (case ptree_get ''name'' (p_name c) of Inl e \<Rightarrow> (Inl e, p, dm) | Inr name \<Rightarrow>
      (case ptree_get ''port'' (p_port c) of Inl e \<Rightarrow> (Inl e, p, dm) | Inr port \<Rightarrow>
      (case addNode (osk k) type (word_of_int port) name p dm of
         (Inl e, p', dm') \<Rightarrow> (Inl e, p', dm')
       | (Inr b, p', dm') \<Rightarrow> add_nodes osk (Suc k) cs (if \<not> b then False else ret) p' dm')))))"

text \<open>
  \<open>instantiateProxy\<close>; the data manager pointer has been set by then, and the null instance is
  the case of a pointer that was never set.
\<close>

definition instantiateProxy :: "(nat \<Rightarrow> os) \<Rightarrow> string \<Rightarrow> DataFramework \<Rightarrow> bool res \<times> DataFramework" where
  "instantiateProxy osk direction fw =
     (if direction \<noteq> ''in'' \<and> direction \<noteq> ''out'' then (Inr False, fw)
      else
        (case m_Pinstance fw of
           None \<Rightarrow> (Inl (Undefined Null_dereference), fw)
         | Some dm \<Rightarrow>
             (case t_proxies (m_pt fw) (direction @ ''Proxy'') of
                None \<Rightarrow> (Inr False, fw)
              | Some children \<Rightarrow>
                  (case add_nodes osk 0 children True (addHandler Proxy_ctor) dm of
                     (r, p, dm') \<Rightarrow>
                       (r, if direction = ''in'' then fw\<lparr>m_inProxyPtr := Some p, m_Pinstance := Some dm'\<rparr>
                           else fw\<lparr>m_outProxyPtr := Some p, m_Pinstance := Some dm'\<rparr>)))))"

text \<open>\<open>catch (std::exception const &)\<close> catches every exception the program throws.\<close>

fun caught :: "cpp_error \<Rightarrow> bool" where
  "caught (Undefined u) = False"
| "caught Terminate = False"
| "caught _ = True"

definition parseConf ::
  "(string \<Rightarrow> topology res) \<Rightarrow> (string \<Rightarrow> nat \<Rightarrow> os) \<Rightarrow> bool \<Rightarrow> DataFramework \<Rightarrow> bool res \<times> DataFramework"
where
  "parseConf read_json env junk fw =
     (let handle = (\<lambda>e fw. (if caught e then Inr False else Inl e, fw)) in
      case read_json (m_config fw) of
        Inl e \<Rightarrow> handle e fw
      | Inr pt \<Rightarrow>
          (let fw1 = snd (instantiateThreadPool (fw\<lparr>m_pt := pt\<rparr>)) in
           case instantiateDataManager junk fw1 of
             (Inl e, fw2) \<Rightarrow> handle e fw2
           | (Inr b, fw2) \<Rightarrow>
               if \<not> b then handle (Runtime_error ''No Data Manager instantiated!'') fw2
               else
                 (case instantiateProxy (env ''out'') ''out'' fw2 of
                    (Inl e, fw3) \<Rightarrow> handle e fw3
                  | (Inr b, fw3) \<Rightarrow>
                      if \<not> b then handle (Runtime_error ''No Output Proxy instantiated!'') fw3
                      else
                        (case instantiateProxy (env ''in'') ''in'' fw3 of
                           (Inl e, fw4) \<Rightarrow> handle e fw4
                         | (Inr b, fw4) \<Rightarrow>
                             if \<not> b then handle (Runtime_error ''No Input Proxy instantiated!'') fw4
                             else (Inr True, fw4)))))"

text \<open>\<open>exists\<close> stands for the test with \<open>stat\<close>.\<close>

definition setConf ::
  "(string \<Rightarrow> bool) \<Rightarrow> (string \<Rightarrow> topology res) \<Rightarrow> (string \<Rightarrow> nat \<Rightarrow> os) \<Rightarrow> bool \<Rightarrow> string
     \<Rightarrow> DataFramework \<Rightarrow> bool res \<times> DataFramework"
where
  "setConf exists read_json env junk conf fw =
     (if \<not> exists conf then (Inl (Runtime_error (''Configuration file '' @ conf @ '' does not exist'')), fw)
      else parseConf read_json env junk (fw\<lparr>m_config := conf\<rparr>))"

text \<open>The constructor ignores the result of \<open>setConf\<close>, save for a log message.\<close>

definition DataFramework_ctor ::
  "(string \<Rightarrow> bool) \<Rightarrow> (string \<Rightarrow> topology res) \<Rightarrow> (string \<Rightarrow> nat \<Rightarrow> os) \<Rightarrow> bool \<Rightarrow> DataManagerConf
     \<Rightarrow> string DataManager option \<Rightarrow> string \<Rightarrow> DataFramework res"
where
  "DataFramework_ctor exists read_json env junk junk_conf inst conf =
     (case setConf exists read_json env junk conf
         \<lparr>m_isRunning = False, m_pt = empty_topology, m_config = '''', m_threadCount = 0, m_mainThread = False,
          m_dataManagerConf = junk_conf, m_threadPoolPtr = None, m_inProxyPtr = None,
          m_outProxyPtr = None, m_dataManager = False, m_Pinstance = inst\<rparr> of
        (Inl e, fw) \<Rightarrow> Inl e
      | (Inr b, fw) \<Rightarrow> Inr fw)"

definition DataFramework_dtor :: "DataFramework \<Rightarrow> string DataManager option" where
  "DataFramework_dtor fw = deleteInstance (m_Pinstance fw)"

section \<open>Running and stopping\<close>

text \<open>One turn of the loop of the main thread, and the loop, with what happens before each test of the flag.\<close>

definition runJobs_turn :: "DataFramework \<Rightarrow> DataFramework res" where
  "runJobs_turn fw =
     (case (m_inProxyPtr fw, m_threadPoolPtr fw) of
        (Some p, Some tp) \<Rightarrow> Inr (fw\<lparr>m_threadPoolPtr := Some (snd (Proxy_run J_in p tp))\<rparr>)
      | _ \<Rightarrow> Inl (Undefined Null_dereference))"

fun runJobs :: "(DataFramework \<Rightarrow> DataFramework) list \<Rightarrow> DataFramework \<Rightarrow> DataFramework res option" where
  "runJobs [] fw = None"
| "runJobs (env # envs) fw =
     (let fw' = env fw in
      if m_isRunning fw' then
        (case runJobs_turn fw' of Inl e \<Rightarrow> Some (Inl e) | Inr fw'' \<Rightarrow> runJobs envs fw'')
      else Some (Inr fw'))"

definition DataFramework_run :: "DataFramework \<Rightarrow> (bool \<times> DataFramework) res" where
  "DataFramework_run fw =
     (case m_threadPoolPtr fw of
        None \<Rightarrow> Inl (Undefined Null_dereference)
      | Some tp \<Rightarrow>
          (case TP_start tp of
             None \<Rightarrow> Inl Terminate
           | Some tp1 \<Rightarrow>
               (let tp2 = QueueJob ''dm_run'' J_dm_run tp1 in
                case m_outProxyPtr fw of
                  None \<Rightarrow> Inl (Undefined Null_dereference)
                | Some out \<Rightarrow>
                    if m_mainThread fw then Inl Terminate
                    else Inr (True, fw\<lparr>m_isRunning := True, m_mainThread := True,
                      m_threadPoolPtr := Some (snd (Proxy_run J_out out tp2))\<rparr>))))"

text \<open>
  \<open>stop\<close> up to the point where \<open>ThreadPool::stop\<close> has set its flag; what follows are steps of
  the pool. The conjunction is short-circuited, so a proxy is stopped, and its pointer
  followed, only if what comes before returned true. Joining a thread that is not joinable
  throws, before the pointer to the pool is followed.
\<close>

definition stop_proxy_ptr :: "bool \<Rightarrow> Proxy option \<Rightarrow> (bool \<times> Proxy option) res" where
  "stop_proxy_ptr b ptr =
     (if \<not> b then Inr (False, ptr)
      else
        (case ptr of
           None \<Rightarrow> Inl (Undefined Null_dereference)
         | Some p \<Rightarrow> (let (b', p') = Proxy_stop p in Inr (b', Some p'))))"

definition DataFramework_stop :: "DataFramework \<Rightarrow> (bool \<times> DataFramework) res" where
  "DataFramework_stop fw =
     (case (if m_dataManager fw then m_Pinstance fw else None) of
        None \<Rightarrow> Inl (Undefined Null_dereference)
      | Some dm \<Rightarrow>
          (let (b1, dm') = DM_stop dm in
           case stop_proxy_ptr b1 (m_inProxyPtr fw) of
             Inl e \<Rightarrow> Inl e
           | Inr (b2, inp') \<Rightarrow>
               (case stop_proxy_ptr b2 (m_outProxyPtr fw) of
                  Inl e \<Rightarrow> Inl e
                | Inr (ret, outp') \<Rightarrow>
                    (if \<not> m_mainThread fw then Inl (System_error ''Invalid argument'')
                     else
                       (case m_threadPoolPtr fw of
                          None \<Rightarrow> Inl (Undefined Null_dereference)
                        | Some tp \<Rightarrow> Inr (ret, fw\<lparr>m_isRunning := False, m_mainThread := False,
                            m_Pinstance := Some dm', m_inProxyPtr := inp', m_outProxyPtr := outp',
                            m_threadPoolPtr := Some (TP_stop_flag tp)\<rparr>))))))"

fun consumer_names :: "proxy_conf list \<Rightarrow> string list \<Rightarrow> string list res" where
  "consumer_names [] names = Inr names"
| "consumer_names (c # cs) names =
     (case ptree_get ''type'' (p_type c) of Inl e \<Rightarrow> Inl e | Inr text \<Rightarrow>
      (case getProxyType text of Inl e \<Rightarrow> Inl e | Inr type \<Rightarrow>
        (if type = CONSUMER then
           (case ptree_get ''name'' (p_name c) of
              Inl e \<Rightarrow> Inl e
            | Inr name \<Rightarrow> consumer_names cs (names @ [name]))
         else consumer_names cs names)))"

definition getConsumerNames :: "string list \<Rightarrow> DataFramework \<Rightarrow> string list res" where
  "getConsumerNames names fw =
     (case t_proxies (m_pt fw) ''outProxy'' of
        None \<Rightarrow> Inr names
      | Some children \<Rightarrow> consumer_names children names)"

section \<open>Which topologies are accepted\<close>

definition child_ok :: "os \<Rightarrow> proxy_conf \<Rightarrow> bool" where
  "child_ok os c =
     (case (p_type c, p_name c, p_port c) of
        (Some text, Some name, Some port) \<Rightarrow>
          (case getProxyType text of Inl _ \<Rightarrow> False | Inr type \<Rightarrow> node_ok os type (word_of_int port))
      | _ \<Rightarrow> False)"

fun children_ok :: "(nat \<Rightarrow> os) \<Rightarrow> nat \<Rightarrow> proxy_conf list \<Rightarrow> bool" where
  "children_ok osk k [] = True"
| "children_ok osk k (c # cs) = (child_ok (osk k) c \<and> children_ok osk (Suc k) cs)"

definition proxy_ok :: "(string \<Rightarrow> nat \<Rightarrow> os) \<Rightarrow> string \<Rightarrow> topology \<Rightarrow> bool" where
  "proxy_ok env direction pt =
     (case t_proxies pt (direction @ ''Proxy'') of None \<Rightarrow> False | Some cs \<Rightarrow> children_ok (env direction) 0 cs)"

definition topology_ok :: "(string \<Rightarrow> nat \<Rightarrow> os) \<Rightarrow> topology \<Rightarrow> bool" where
  "topology_ok env pt \<longleftrightarrow> t_name pt \<noteq> None
     \<and> (case t_mode pt of None \<Rightarrow> False | Some mode \<Rightarrow> is_ok (STRING_TO_CONF mode))
     \<and> proxy_ok env ''out'' pt \<and> proxy_ok env ''in'' pt"

text \<open>What the children of a proxy register with the data manager.\<close>

fun register_children :: "proxy_conf list \<Rightarrow> string DataManager \<Rightarrow> string DataManager" where
  "register_children [] dm = dm"
| "register_children (c # cs) dm =
     register_children cs (registers (projr (getProxyType (the (p_type c)))) (the (p_name c)) dm)"

lemma new_node_error: "fst (new_node os type port name dm) = Inl e \<Longrightarrow> caught e"
  by (cases type; auto simp: new_node_def TcpServer_ctor_def UdpServer_ctor_def UdpClient_ctor_def
      Consumer_ctor_def createListenSocket_def createRxSocket_def createTxSocket_def bound_socket_def
      Let_def split: if_splits)

lemma addNode_cases:
  assumes "has_handler p"
  shows "if node_ok os type port
    then \<exists>n. node_name n = name \<and> addNode os type port name p dm =
      (Inr True, p\<lparr>m_proxyNodeList := m_proxyNodeList p @ [n]\<rparr>, registers type name dm)
    else \<exists>e. caught e \<and> addNode os type port name p dm = (Inl e, p, registers type name dm)"
proof (cases "new_node os type port name dm")
  case (Pair r dm')
  with new_node_spec [of os type port name dm] new_node_error [of os type port name dm] assms
  show ?thesis by (cases r) (auto simp: addNode_def)
qed

lemma getProxyType_error: "getProxyType text = Inl e \<Longrightarrow> caught e"
  by (auto simp: getProxyType_def split: if_splits)

lemma add_nodes_bad:
  assumes "has_handler p" and "\<not> child_ok (osk k) c"
  shows "\<exists>e p' dm'. caught e \<and> add_nodes osk k (c # cs) ret p dm = (Inl e, p', dm')"
proof -
  consider "p_type c = None" | ty where "p_type c = Some ty" "\<not> is_ok (getProxyType ty)"
    | ty type where "p_type c = Some ty" "getProxyType ty = Inr type" "p_name c = None"
    | ty type name where "p_type c = Some ty" "getProxyType ty = Inr type" "p_name c = Some name"
        "p_port c = None"
    | ty type name port where "p_type c = Some ty" "getProxyType ty = Inr type"
        "p_name c = Some name" "p_port c = Some port"
    by (metis is_ok_simps(2) not_None_eq old.sum.exhaust is_ok_def sum.case(1))
  then show ?thesis
  proof cases
    case 2
    then show ?thesis by (cases "getProxyType ty") (auto simp: ptree_get_def getProxyType_error)
  next
    case 5
    with assms(2) have "\<not> node_ok (osk k) type (word_of_int port)" by (simp add: child_ok_def)
    with addNode_cases [OF assms(1), of "osk k" type "word_of_int port" name dm] 5 show ?thesis
      by (auto simp: ptree_get_def)
  qed (auto simp: ptree_get_def)
qed

lemma add_nodes_spec:
  "has_handler p \<Longrightarrow>
   if children_ok osk k cs
   then \<exists>ns. map node_name ns = map (the \<circ> p_name) cs \<and> add_nodes osk k cs True p dm =
     (Inr True, p\<lparr>m_proxyNodeList := m_proxyNodeList p @ ns\<rparr>, register_children cs dm)
   else \<exists>e p' dm'. caught e \<and> add_nodes osk k cs True p dm = (Inl e, p', dm')"
proof (induction cs arbitrary: k p dm)
  case (Cons c cs)
  show ?case
  proof (cases "child_ok (osk k) c")
    case False
    with add_nodes_bad [OF Cons.prems, of osk k c cs True dm] show ?thesis by simp
  next
    case True
    then obtain ty type name port where c: "p_type c = Some ty" "p_name c = Some name"
      "p_port c = Some port" "getProxyType ty = Inr type" "node_ok (osk k) type (word_of_int port)"
      by (auto simp: child_ok_def split: option.splits sum.splits)
    with addNode_cases [OF Cons.prems, of "osk k" type "word_of_int port" name dm] obtain n where
      n: "node_name n = name" "addNode (osk k) type (word_of_int port) name p dm =
        (Inr True, p\<lparr>m_proxyNodeList := m_proxyNodeList p @ [n]\<rparr>, registers type name dm)" by auto
    have step: "add_nodes osk k (c # cs) True p dm = add_nodes osk (Suc k) cs True
        (p\<lparr>m_proxyNodeList := m_proxyNodeList p @ [n]\<rparr>) (registers type name dm)"
      by (simp add: c n ptree_get_def)
    show ?thesis
    proof (cases "children_ok osk (Suc k) cs")
      case rest: True
      with Cons.IH [of "p\<lparr>m_proxyNodeList := m_proxyNodeList p @ [n]\<rparr>" "Suc k" "registers type name dm"]
        Cons.prems obtain ns where "map node_name ns = map (the \<circ> p_name) cs"
          "add_nodes osk k (c # cs) True p dm = (Inr True, p\<lparr>m_proxyNodeList := m_proxyNodeList p @ n # ns\<rparr>,
             register_children cs (registers type name dm))" unfolding step by auto
      with True rest c n show ?thesis by (simp add: exI [of _ "n # ns"])
    next
      case False
      with Cons.IH [of "p\<lparr>m_proxyNodeList := m_proxyNodeList p @ [n]\<rparr>" "Suc k" "registers type name dm"]
        Cons.prems show ?thesis unfolding step by auto
    qed
  qed
qed simp

lemma instantiateProxy_spec:
  assumes "direction = ''in'' \<or> direction = ''out''" and "m_Pinstance fw = Some dm"
  shows "case t_proxies (m_pt fw) (direction @ ''Proxy'') of
      None \<Rightarrow> instantiateProxy osk direction fw = (Inr False, fw)
    | Some cs \<Rightarrow>
        if children_ok osk 0 cs
        then \<exists>ns. map node_name ns = map (the \<circ> p_name) cs \<and> instantiateProxy osk direction fw =
          (Inr True, if direction = ''in''
             then fw\<lparr>m_inProxyPtr := Some ((addHandler Proxy_ctor)\<lparr>m_proxyNodeList := ns\<rparr>),
                     m_Pinstance := Some (register_children cs dm)\<rparr>
             else fw\<lparr>m_outProxyPtr := Some ((addHandler Proxy_ctor)\<lparr>m_proxyNodeList := ns\<rparr>),
                     m_Pinstance := Some (register_children cs dm)\<rparr>)
        else \<exists>e fw'. caught e \<and> instantiateProxy osk direction fw = (Inl e, fw')"
proof (cases "t_proxies (m_pt fw) (direction @ ''Proxy'')")
  case None
  with assms show ?thesis by (auto simp: instantiateProxy_def)
next
  case (Some cs)
  have "has_handler (addHandler Proxy_ctor)" by (simp add: addHandler_def)
  from add_nodes_spec [OF this, of osk 0 cs dm] assms Some show ?thesis
    by (auto simp: instantiateProxy_def addHandler_def split: if_splits)
qed

definition built_conf :: "topology \<Rightarrow> DataManagerConf" where
  "built_conf pt = \<lparr>conf_name = the (t_name pt), conf_maxFeeders = 8, conf_maxConsumers = 8,
     conf_mode = projr (STRING_TO_CONF (the (t_mode pt)))\<rparr>"

lemma STRING_TO_CONF_error: "STRING_TO_CONF mode = Inl e \<Longrightarrow> caught e"
  by (auto simp: STRING_TO_CONF_def Let_def split: if_splits)

lemma conf_overwritten:
  "c\<lparr>conf_name := n, conf_mode := m, conf_maxFeeders := i, conf_maxConsumers := j\<rparr> =
     \<lparr>conf_name = n, conf_maxFeeders = i, conf_maxConsumers = j, conf_mode = m\<rparr>"
  for c :: DataManagerConf
  by (cases c) simp

lemma instantiateDataManager_spec:
  "if t_name (m_pt fw) \<noteq> None \<and> (case t_mode (m_pt fw) of None \<Rightarrow> False | Some mode \<Rightarrow> is_ok (STRING_TO_CONF mode))
   then instantiateDataManager junk fw = (Inr True, fw\<lparr>m_dataManagerConf := built_conf (m_pt fw),
       m_Pinstance := snd (getInstance junk (built_conf (m_pt fw)) (m_Pinstance fw)), m_dataManager := True\<rparr>)
   else \<exists>e fw'. caught e \<and> instantiateDataManager junk fw = (Inl e, fw')"
proof (cases "t_name (m_pt fw)")
  case None
  then show ?thesis by (simp add: instantiateDataManager_def setDataManagerConf_def)
next
  case name: (Some n)
  show ?thesis
  proof (cases "t_mode (m_pt fw)")
    case None
    with name show ?thesis by (simp add: instantiateDataManager_def setDataManagerConf_def)
  next
    case (Some m)
    with name show ?thesis
      by (cases "STRING_TO_CONF m")
        (auto simp: instantiateDataManager_def setDataManagerConf_def built_conf_def Let_def
          conf_overwritten STRING_TO_CONF_error split: prod.split)
  qed
qed

text \<open>The stages of \<open>parseConf\<close>.\<close>

abbreviation header_ok :: "topology \<Rightarrow> bool" where
  "header_ok pt \<equiv> t_name pt \<noteq> None \<and>
     (case t_mode pt of None \<Rightarrow> False | Some mode \<Rightarrow> is_ok (STRING_TO_CONF mode))"

lemma build_manager:
  assumes "header_ok pt"
  shows "\<exists>fw2. instantiateDataManager junk (snd (instantiateThreadPool (fw\<lparr>m_pt := pt\<rparr>))) = (Inr True, fw2)
    \<and> m_pt fw2 = pt \<and> m_Pinstance fw2 = Some (fst (getInstance junk (built_conf pt) (m_Pinstance fw)))
    \<and> m_threadPoolPtr fw2 = Some (TP_ctor (word_of_int (case t_threadCount pt of None \<Rightarrow> 1 | Some n \<Rightarrow> n)))
    \<and> m_inProxyPtr fw2 = m_inProxyPtr fw \<and> m_outProxyPtr fw2 = m_outProxyPtr fw
    \<and> m_mainThread fw2 = m_mainThread fw"
proof -
  have "snd (getInstance junk c inst) = Some (fst (getInstance junk c inst))"
    for c and inst :: "string DataManager option"
    by (cases inst) (simp_all add: getInstance_def Let_def)
  with instantiateDataManager_spec [of "snd (instantiateThreadPool (fw\<lparr>m_pt := pt\<rparr>))" junk] assms
  show ?thesis by (simp add: instantiateThreadPool_def Let_def)
qed

lemma build_out:
  assumes "m_pt fw = pt" and "m_Pinstance fw = Some dm" and "t_proxies pt ''outProxy'' = Some cs"
    and "children_ok osk 0 cs"
  shows "\<exists>p. map node_name (m_proxyNodeList p) = map (the \<circ> p_name) cs \<and>
    instantiateProxy osk ''out'' fw =
      (Inr True, fw\<lparr>m_outProxyPtr := Some p, m_Pinstance := Some (register_children cs dm)\<rparr>)"
proof -
  from instantiateProxy_spec [of "''out''" fw dm osk] assms obtain ns where
    "map node_name ns = map (the \<circ> p_name) cs" "instantiateProxy osk ''out'' fw = (Inr True,
       fw\<lparr>m_outProxyPtr := Some ((addHandler Proxy_ctor)\<lparr>m_proxyNodeList := ns\<rparr>),
          m_Pinstance := Some (register_children cs dm)\<rparr>)" by auto
  then show ?thesis by (intro exI [of _ "(addHandler Proxy_ctor)\<lparr>m_proxyNodeList := ns\<rparr>"]) simp
qed

lemma build_in:
  assumes "m_pt fw = pt" and "m_Pinstance fw = Some dm" and "t_proxies pt ''inProxy'' = Some cs"
    and "children_ok osk 0 cs"
  shows "\<exists>p. map node_name (m_proxyNodeList p) = map (the \<circ> p_name) cs \<and>
    instantiateProxy osk ''in'' fw =
      (Inr True, fw\<lparr>m_inProxyPtr := Some p, m_Pinstance := Some (register_children cs dm)\<rparr>)"
proof -
  from instantiateProxy_spec [of "''in''" fw dm osk] assms obtain ns where
    "map node_name ns = map (the \<circ> p_name) cs" "instantiateProxy osk ''in'' fw = (Inr True,
       fw\<lparr>m_inProxyPtr := Some ((addHandler Proxy_ctor)\<lparr>m_proxyNodeList := ns\<rparr>),
          m_Pinstance := Some (register_children cs dm)\<rparr>)" by auto
  then show ?thesis by (intro exI [of _ "(addHandler Proxy_ctor)\<lparr>m_proxyNodeList := ns\<rparr>"]) simp
qed

lemma build_fails:
  assumes "direction = ''in'' \<or> direction = ''out''" and "m_pt fw = pt" and "m_Pinstance fw = Some dm"
    and "\<not> proxy_ok env direction pt"
  shows "(\<exists>fw'. instantiateProxy (env direction) direction fw = (Inr False, fw'))
    \<or> (\<exists>e fw'. caught e \<and> instantiateProxy (env direction) direction fw = (Inl e, fw'))"
  using instantiateProxy_spec [OF assms(1,3), of "env direction"] assms(2,4)
  by (auto simp: proxy_ok_def split: option.splits)

text \<open>
  C13: which topologies are accepted. \<open>parseConf\<close> never lets an exception out and never runs
  into undefined behaviour; its result is true exactly when the file can be read, names the
  data manager and one of the two modes, has both proxies, and each node of these has a
  type that can be built, a name and a port, and gets its sockets.
\<close>

theorem parseConf_accepts:
  assumes "\<forall>e. read_json (m_config fw) = Inl e \<longrightarrow> caught e"
  shows "fst (parseConf read_json env junk fw) = Inr (case read_json (m_config fw) of
      Inl _ \<Rightarrow> False | Inr pt \<Rightarrow> topology_ok env pt)"
proof (cases "read_json (m_config fw)")
  case (Inl e)
  with assms show ?thesis by (simp add: parseConf_def)
next
  case (Inr pt)
  let ?fw1 = "snd (instantiateThreadPool (fw\<lparr>m_pt := pt\<rparr>))"
  have pt: "m_pt ?fw1 = pt" by (simp add: instantiateThreadPool_def Let_def)
  show ?thesis
  proof (cases "header_ok pt")
    case False
    with instantiateDataManager_spec [of ?fw1 junk] obtain e fw' where
      "caught e" "instantiateDataManager junk ?fw1 = (Inl e, fw')" unfolding pt by auto
    moreover have "\<not> topology_ok env pt" using False unfolding topology_ok_def by blast
    ultimately show ?thesis using Inr by (simp add: parseConf_def Let_def)
  next
    case head: True
    then have ok: "topology_ok env pt \<longleftrightarrow> proxy_ok env ''out'' pt \<and> proxy_ok env ''in'' pt"
      unfolding topology_ok_def by blast
    from build_manager [OF head, of junk fw] obtain fw2 dm where
      fw2: "instantiateDataManager junk ?fw1 = (Inr True, fw2)" "m_pt fw2 = pt" "m_Pinstance fw2 = Some dm"
      by blast
    show ?thesis
    proof (cases "proxy_ok env ''out'' pt")
      case False
      with build_fails [OF _ fw2(2,3), of "''out''" env] Inr fw2(1) ok show ?thesis
        by (auto simp: parseConf_def Let_def)
    next
      case True
      with build_out [OF fw2(2,3), of _ "env ''out''"] obtain fw3 dm3 where
        fw3: "instantiateProxy (env ''out'') ''out'' fw2 = (Inr True, fw3)"
          "m_pt fw3 = pt" "m_Pinstance fw3 = Some dm3"
        using fw2(2) by (force simp: proxy_ok_def split: option.splits)
      have "proxy_ok env ''in'' pt \<Longrightarrow> \<exists>fw4. instantiateProxy (env ''in'') ''in'' fw3 = (Inr True, fw4)"
        using build_in [OF fw3(2,3), of _ "env ''in''"] by (force simp: proxy_ok_def split: option.splits)
      with build_fails [OF _ fw3(2,3), of "''in''" env] Inr fw2(1) fw3(1) ok True show ?thesis
        by (cases "proxy_ok env ''in'' pt") (auto simp: parseConf_def Let_def)
    qed
  qed
qed

text \<open>A small topology in the style of test/topology.json.\<close>

definition child :: "string \<Rightarrow> int \<Rightarrow> string \<Rightarrow> proxy_conf" where
  "child type port name = \<lparr>p_type = Some type, p_name = Some name, p_port = Some port\<rparr>"

definition topo :: topology where
  "topo = \<lparr>t_name = Some ''dm'', t_mode = Some ''broadcast'', t_threadCount = Some 3,
     t_proxies = (\<lambda>path. if path = ''inProxy'' then Some [child ''TCP_Server'' 50000 ''TcpServer1'',
         child ''UDP_Rx'' 50002 ''UdpServer'']
       else if path = ''outProxy'' then Some [child ''CONSUMER'' 0 ''Consumer1'', child ''CONSUMER'' 1 ''Consumer2'']
       else None)\<rparr>"

definition fw_new :: DataFramework where
  "fw_new = \<lparr>m_isRunning = False, m_pt = empty_topology, m_config = ''topology.json'', m_threadCount = 0,
     m_mainThread = False, m_dataManagerConf = conf22, m_threadPoolPtr = None, m_inProxyPtr = None,
     m_outProxyPtr = None, m_dataManager = False, m_Pinstance = None\<rparr>"

lemma tolower_broadcast: "map tolower ''broadcast'' = ''broadcast''"
  by (simp add: tolower_def Let_def)

lemma topo_ok: "topology_ok (\<lambda>_ _. os_good) topo"
proof -
  have "getProxyType ''CONSUMER'' = Inr CONSUMER" "getProxyType ''TCP_Server'' = Inr TCPS"
    "getProxyType ''UDP_Rx'' = Inr UDPRX" by (simp_all add: getProxyType_def)
  moreover have "STRING_TO_CONF ''broadcast'' = Inr BROADCAST"
    unfolding STRING_TO_CONF_def tolower_broadcast by simp
  ultimately show ?thesis
    by (simp add: topology_ok_def topo_def proxy_ok_def child_ok_def child_def node_ok_def os_good_def)
qed

theorem parseConf_accepts_witness:
  "fst (parseConf (\<lambda>_. Inr topo) (\<lambda>_ _. os_good) False fw_new) = Inr True
   \<and> fst (parseConf (\<lambda>_. Inl (Ptree_error ''no such file'')) (\<lambda>_ _. os_good) False fw_new) = Inr False"
  using parseConf_accepts [of "\<lambda>_. Inr topo" fw_new "\<lambda>_ _. os_good" False]
    parseConf_accepts [of "\<lambda>_. Inl (Ptree_error ''no such file'')" fw_new "\<lambda>_ _. os_good" False]
  by (simp add: topo_ok)

section \<open>What an accepted topology builds\<close>

text \<open>
  C12: the pipeline that an accepted topology builds, when no data manager exists yet. The
  pool has the number of threads in the file, as an unsigned 32-bit number, or one; each
  proxy has one node per child, in order and under its name; the data manager is the new one
  with the name and mode of the file and places for eight feeders and eight consumers, in
  which the children of the output proxy and then those of the input proxy are registered.
\<close>

theorem parseConf_builds:
  assumes "read_json (m_config fw) = Inr pt" and "topology_ok env pt" and "m_Pinstance fw = None"
    and "t_proxies pt ''outProxy'' = Some outs" and "t_proxies pt ''inProxy'' = Some ins"
  shows "\<exists>fw' inp outp. parseConf read_json env junk fw = (Inr True, fw')
    \<and> m_threadPoolPtr fw' = Some (TP_ctor (word_of_int (case t_threadCount pt of None \<Rightarrow> 1 | Some n \<Rightarrow> n)))
    \<and> m_inProxyPtr fw' = Some inp \<and> map node_name (m_proxyNodeList inp) = map (the \<circ> p_name) ins
    \<and> m_outProxyPtr fw' = Some outp \<and> map node_name (m_proxyNodeList outp) = map (the \<circ> p_name) outs
    \<and> m_Pinstance fw' = Some (register_children ins (register_children outs (DataManager_ctor junk (built_conf pt))))"
proof -
  have head: "header_ok pt" and ok: "children_ok (env ''out'') 0 outs" "children_ok (env ''in'') 0 ins"
    using assms(2,4,5) by (simp_all add: topology_ok_def proxy_ok_def)
  from build_manager [OF head, of junk fw] assms(3) obtain fw2 where
    fw2: "instantiateDataManager junk (snd (instantiateThreadPool (fw\<lparr>m_pt := pt\<rparr>))) = (Inr True, fw2)"
      "m_pt fw2 = pt" "m_Pinstance fw2 = Some (DataManager_ctor junk (built_conf pt))"
      "m_threadPoolPtr fw2 = Some (TP_ctor (word_of_int (case t_threadCount pt of None \<Rightarrow> 1 | Some n \<Rightarrow> n)))"
    by (auto simp: getInstance_def Let_def)
  let ?dm = "register_children outs (DataManager_ctor junk (built_conf pt))"
  from build_out [OF fw2(2,3) assms(4) ok(1)] obtain outp where
    outp: "map node_name (m_proxyNodeList outp) = map (the \<circ> p_name) outs" "instantiateProxy (env ''out'') ''out'' fw2 =
      (Inr True, fw2\<lparr>m_outProxyPtr := Some outp, m_Pinstance := Some ?dm\<rparr>)" by blast
  from build_in [of "fw2\<lparr>m_outProxyPtr := Some outp, m_Pinstance := Some ?dm\<rparr>" pt ?dm ins "env ''in''"]
    fw2(2) assms(5) ok(2) obtain inp where
    "map node_name (m_proxyNodeList inp) = map (the \<circ> p_name) ins"
    "instantiateProxy (env ''in'') ''in'' (fw2\<lparr>m_outProxyPtr := Some outp, m_Pinstance := Some ?dm\<rparr>) =
      (Inr True, fw2\<lparr>m_outProxyPtr := Some outp, m_inProxyPtr := Some inp,
        m_Pinstance := Some (register_children ins ?dm)\<rparr>)" by auto
  with outp assms(1) fw2(1,4) show ?thesis by (simp add: parseConf_def Let_def)
qed

theorem parseConf_builds_witness:
  "\<exists>fw' inp. parseConf (\<lambda>_. Inr topo) (\<lambda>_ _. os_good) False fw_new = (Inr True, fw')
     \<and> m_threadPoolPtr fw' = Some (TP_ctor 3) \<and> m_inProxyPtr fw' = Some inp
     \<and> map node_name (m_proxyNodeList inp) = [''TcpServer1'', ''UdpServer'']"
proof -
  have pre: "m_Pinstance fw_new = None"
    "t_proxies topo ''outProxy'' = Some [child ''CONSUMER'' 0 ''Consumer1'', child ''CONSUMER'' 1 ''Consumer2'']"
    "t_proxies topo ''inProxy'' = Some [child ''TCP_Server'' 50000 ''TcpServer1'', child ''UDP_Rx'' 50002 ''UdpServer'']"
    "t_threadCount topo = Some 3"
    by (simp_all add: fw_new_def topo_def)
  from parseConf_builds [where read_json = "\<lambda>_. Inr topo", OF refl topo_ok pre(1-3), of False] pre(4)
  show ?thesis by (auto simp: child_def)
qed

text \<open>
  The names of the consumers. For a framework whose output proxy could be built,
  \<open>getConsumerNames\<close> appends the names of the children of type CONSUMER, in order, and
  does not fail.
\<close>

theorem getConsumerNames_spec:
  assumes "t_proxies (m_pt fw) ''outProxy'' = Some outs" and "children_ok osk 0 outs"
  shows "getConsumerNames names fw =
    Inr (names @ map (the \<circ> p_name) (filter (\<lambda>c. p_type c = Some ''CONSUMER'') outs))"
proof -
  have "children_ok osk k cs \<Longrightarrow> consumer_names cs names =
      Inr (names @ map (the \<circ> p_name) (filter (\<lambda>c. p_type c = Some ''CONSUMER'') cs))" for k cs
  proof (induction cs arbitrary: k names)
    case (Cons c cs)
    then obtain ty type name where c: "p_type c = Some ty" "p_name c = Some name" "getProxyType ty = Inr type"
      by (auto simp: child_ok_def split: option.splits sum.splits)
    then have "type = CONSUMER \<longleftrightarrow> ty = ''CONSUMER''" by (auto simp: getProxyType_def split: if_splits)
    with Cons c show ?case by (auto simp: ptree_get_def)
  qed simp
  with assms show ?thesis by (simp add: getConsumerNames_def)
qed

theorem getConsumerNames_spec_witness:
  "getConsumerNames [] (fw_new\<lparr>m_pt := topo\<rparr>) = Inr [''Consumer1'', ''Consumer2'']"
proof -
  have pre: "t_proxies (m_pt (fw_new\<lparr>m_pt := topo\<rparr>)) ''outProxy'' =
      Some [child ''CONSUMER'' 0 ''Consumer1'', child ''CONSUMER'' 1 ''Consumer2'']"
    by (simp add: topo_def)
  have "children_ok (\<lambda>_. os_good) 0 [child ''CONSUMER'' 0 ''Consumer1'', child ''CONSUMER'' 1 ''Consumer2'']"
    by (simp add: child_ok_def child_def node_ok_def getProxyType_def)
  from getConsumerNames_spec [OF pre this, of "[]"] show ?thesis by (simp add: child_def)
qed

section \<open>Running\<close>

text \<open>The pool right after \<open>run\<close>: the data manager's job first, then one job per output node.\<close>

definition first_jobs :: "Proxy \<Rightarrow> job_id job list" where
  "first_jobs outp = (''dm_run'', J_dm_run) #
     map (\<lambda>(i, n). (node_name n, J_out i)) (enumerate 0 (m_proxyNodeList outp))"

lemma Proxy_run_pool: "snd (Proxy_run job p tp) = queue_nodes job 0 (m_proxyNodeList p) tp"
  by (simp add: Proxy_run_def)

lemma queue_nodes_steps: "tsteps returns tp (queue_nodes job k ns tp)"
proof -
  have "tsteps returns tp tp1 \<Longrightarrow> tsteps returns tp (queue_nodes job k ns tp1)" for tp1
  proof (induction ns arbitrary: k tp1)
    case (Cons n ns)
    from Cons.IH [OF ts_step [OF Cons.prems tstep.queue_job]] show ?case by simp
  qed simp
  from this [OF ts_refl] show ?thesis .
qed

lemma DataFramework_run_pool:
  assumes "m_threadPoolPtr fw = Some (TP_ctor n)" and "m_outProxyPtr fw = Some outp" and "\<not> m_mainThread fw"
  shows "\<exists>tp. DataFramework_run fw = Inr (True, fw\<lparr>m_isRunning := True, m_mainThread := True, m_threadPoolPtr := Some tp\<rparr>)
    \<and> tp_reach returns tp \<and> queued tp = first_jobs outp \<and> m_nproc tp = n
    \<and> threads tp = replicate (unat n) W_check"
proof -
  let ?tp1 = "TP_ctor n\<lparr>threads := replicate (unat n) W_check\<rparr> :: job_id pool"
  let ?tp = "queue_nodes J_out 0 (m_proxyNodeList outp) (QueueJob ''dm_run'' J_dm_run ?tp1)"
  have "TP_start (TP_ctor n :: job_id pool) = Some ?tp1" by (simp add: TP_start_def TP_ctor_def)
  then have "tstep returns (TP_ctor n) P_stopper ?tp1" by (intro tstep.start) (simp_all add: TP_ctor_def)
  with tp_init have "tp_reach returns ?tp1" by (rule tp_next)
  then have "tp_reach returns (QueueJob ''dm_run'' J_dm_run ?tp1)" using tstep.queue_job by (rule tp_next)
  with queue_nodes_steps have "tp_reach returns ?tp" by (rule tsteps_reach)
  moreover have "queued ?tp = first_jobs outp" "m_nproc ?tp = n" "threads ?tp = replicate (unat n) W_check"
    by (simp_all add: queue_nodes_eq first_jobs_def QueueJob_def TP_push_def TP_ctor_def Let_def)
  ultimately show ?thesis
    using assms by (intro exI [of _ ?tp]) (simp add: DataFramework_run_def TP_start_def TP_ctor_def Proxy_run_pool Let_def)
qed

text \<open>
  C14: too few threads. The data manager's job and the consumers' jobs do not return before the
  framework is stopped, and they are queued first. When the pool has no more threads than
  there are such jobs, then whatever is queued afterwards and under any schedule, no node of
  the input proxy ever runs: nothing is received.
\<close>

theorem Framework_too_few_threads:
  assumes "m_threadPoolPtr fw = Some (TP_ctor n)" and "m_outProxyPtr fw = Some outp"
    and "DataFramework_run fw = Inr (b, fw')" and "m_threadPoolPtr fw' = Some tp"
    and "unat n \<le> 1 + length (m_proxyNodeList outp)"
    and "\<forall>job \<in> set (first_jobs outp). \<not> returns job"
    and "tsteps returns tp tp'"
  shows "set (started tp') \<subseteq> set (first_jobs outp) \<and> finished tp' = []"
proof -
  have "\<not> m_mainThread fw"
    using assms(1-3) by (auto simp: DataFramework_run_def TP_start_def TP_ctor_def Let_def)
  from DataFramework_run_pool [OF assms(1,2) this, of returns] assms(3,4)
  have tp: "tp_reach returns tp" "queued tp = first_jobs outp" "m_nproc tp = n" by auto
  have reach: "tp_reach returns tp'" using assms(7) tp(1) by (rule tsteps_reach)
  from tsteps_queued [OF assms(7)] tp obtain ys where
    q: "queued tp' = first_jobs outp @ ys" "m_nproc tp' = n" by auto
  have "length (first_jobs outp) = 1 + length (m_proxyNodeList outp)" by (simp add: first_jobs_def)
  with assms(5) q have prefix: "take (unat n) (queued tp') = take (unat n) (first_jobs outp)" by simp
  with assms(6) q(2) have "\<forall>job \<in> set (take (unat (m_nproc tp')) (queued tp')). \<not> returns job"
    by (metis in_set_takeD)
  from blocked_pool [OF reach this] q(2) have few: "length (started tp') \<le> unat n" "finished tp' = []"
    by auto
  have "queued tp' = started tp' @ jobs tp'" using tp_reach_inv [OF reach] by (simp add: jobs_inv_def)
  then have "started tp' = take (length (started tp')) (queued tp')" by simp
  with few(1) have "set (started tp') \<subseteq> set (take (unat n) (queued tp'))"
    by (metis set_take_subset_set_take)
  with prefix few(2) show ?thesis by (metis order_trans set_take_subset)
qed

text \<open>The pipeline of \<open>topo\<close>: three threads, and three jobs that stay.\<close>

definition proxy_of :: "node list \<Rightarrow> Proxy" where
  "proxy_of ns = \<lparr>m_isRunning = False, m_proxyNodeList = ns, has_handler = True\<rparr>"

definition fw_built :: DataFramework where
  "fw_built = fw_new\<lparr>m_threadPoolPtr := Some (TP_ctor 3), m_inProxyPtr := Some (proxy_of [N_TcpServer server0]),
     m_outProxyPtr := Some (proxy_of [N_Consumer consumer0, N_Consumer (consumer0\<lparr>m_name := ''Consumer2''\<rparr>)]),
     m_dataManager := True, m_Pinstance := Some dm_example\<rparr>"

theorem Framework_too_few_threads_witness:
  "\<exists>fw' tp. DataFramework_run fw_built = Inr (True, fw') \<and> m_threadPoolPtr fw' = Some tp
     \<and> (\<forall>tp'. tsteps (\<lambda>job. \<exists>k. snd job = J_in k) tp tp' \<longrightarrow> (''Feeder0'', J_in 0) \<notin> set (started tp'))"
proof -
  let ?outp = "proxy_of [N_Consumer consumer0, N_Consumer (consumer0\<lparr>m_name := ''Consumer2''\<rparr>)]"
  have b: "m_threadPoolPtr fw_built = Some (TP_ctor 3)" "m_outProxyPtr fw_built = Some ?outp" "\<not> m_mainThread fw_built"
    by (simp_all add: fw_built_def fw_new_def)
  have few: "unat (3 :: 32 word) \<le> 1 + length (m_proxyNodeList ?outp)" by (simp add: proxy_of_def)
  have stay: "\<forall>job \<in> set (first_jobs ?outp). \<not> (\<exists>k. snd job = J_in k)"
    by (auto simp: first_jobs_def)
  from DataFramework_run_pool [OF b] obtain tp where run: "DataFramework_run fw_built =
      Inr (True, fw_built\<lparr>m_isRunning := True, m_mainThread := True, m_threadPoolPtr := Some tp\<rparr>)" by blast
  have "(''Feeder0'', J_in 0) \<notin> set (started tp')" if "tsteps (\<lambda>job. \<exists>k. snd job = J_in k) tp tp'" for tp'
    using Framework_too_few_threads [OF b(1,2) run _ few stay that] by (auto simp: first_jobs_def)
  with run show ?thesis by (intro exI [of _ tp] exI) auto
qed

text \<open>
  C33: the main thread floods the pool. While the framework runs, each turn of its loop queues
  one job for every node of the input proxy, whether or not the jobs of earlier turns have
  started: after \<open>k\<close> turns in which no worker moves, the queue is longer by \<open>k\<close> times the
  number of nodes, the same list of jobs each time. Nothing bounds it.
\<close>

theorem runJobs_floods:
  assumes "m_isRunning fw" and "m_inProxyPtr fw = Some inp" and "m_threadPoolPtr fw = Some tp"
  shows "\<exists>fw' tp'. runJobs (replicate k (\<lambda>fw. fw) @ [\<lambda>fw. fw\<lparr>m_isRunning := False\<rparr>]) fw = Some (Inr fw')
    \<and> m_threadPoolPtr fw' = Some tp' \<and> tsteps returns tp tp'
    \<and> jobs tp' = jobs tp @ concat (replicate k
        (map (\<lambda>(i, n). (node_name n, J_in i)) (enumerate 0 (m_proxyNodeList inp))))"
  using assms
proof (induction k arbitrary: fw tp)
  case 0
  then show ?case by (simp add: ts_refl)
next
  case (Suc k)
  let ?tp = "queue_nodes J_in 0 (m_proxyNodeList inp) tp"
  let ?fw = "fw\<lparr>m_threadPoolPtr := Some ?tp\<rparr>"
  have turn: "runJobs_turn fw = Inr ?fw" using Suc.prems by (simp add: runJobs_turn_def Proxy_run_pool)
  from Suc.IH [of ?fw ?tp] Suc.prems obtain fw' tp' where
    IH: "runJobs (replicate k (\<lambda>fw. fw) @ [\<lambda>fw. fw\<lparr>m_isRunning := False\<rparr>]) ?fw = Some (Inr fw')"
      "m_threadPoolPtr fw' = Some tp'" "tsteps returns ?tp tp'"
      "jobs tp' = jobs ?tp @ concat (replicate k
        (map (\<lambda>(i, n). (node_name n, J_in i)) (enumerate 0 (m_proxyNodeList inp))))" by auto
  have "tsteps returns tp tp'" using IH(3) queue_nodes_steps by (rule tsteps_trans)
  with IH turn Suc.prems(1) show ?case by (simp add: queue_nodes_eq)
qed

theorem runJobs_floods_witness:
  "\<exists>fw' tp'. runJobs (replicate 100 (\<lambda>fw. fw) @ [\<lambda>fw. fw\<lparr>m_isRunning := False\<rparr>])
       (fw_built\<lparr>m_isRunning := True\<rparr>) = Some (Inr fw')
     \<and> m_threadPoolPtr fw' = Some tp' \<and> jobs tp' = concat (replicate 100 [(''Feeder0'', J_in 0)])"
  using runJobs_floods [of "fw_built\<lparr>m_isRunning := True\<rparr>" "proxy_of [N_TcpServer server0]" "TP_ctor 3" 100]
  by (simp add: fw_built_def proxy_of_def server0_def TP_ctor_def) blast

section \<open>Starting and stopping\<close>

text \<open>
  C32: the order of calls. On a framework that has been built and not been run, \<open>stop\<close> throws
  (the main thread is not joinable); \<open>run\<close> succeeds once, and a second \<open>run\<close> ends the
  program; \<open>stop\<close> after \<open>run\<close> reports success, with the flags of the framework, of the data
  manager, of every node and of the pool cleared or set so that each loop ends.
\<close>

theorem Framework_lifecycle:
  assumes "m_dataManager fw" and "m_Pinstance fw = Some dm" and "m_inProxyPtr fw = Some inp"
    and "m_outProxyPtr fw = Some outp" and "m_threadPoolPtr fw = Some (TP_ctor n)" and "\<not> m_mainThread fw"
  shows "DataFramework_stop fw = Inl (System_error ''Invalid argument'')
    \<and> (\<exists>fw1. DataFramework_run fw = Inr (True, fw1) \<and> DataFramework_run fw1 = Inl Terminate
      \<and> (\<exists>fw2 dm2 inp2 outp2 tp2. DataFramework_stop fw1 = Inr (True, fw2)
          \<and> \<not> m_isRunning fw2 \<and> m_Pinstance fw2 = Some dm2 \<and> \<not> isRunning dm2
          \<and> m_inProxyPtr fw2 = Some inp2 \<and> list_all (\<lambda>n. \<not> node_running n) (m_proxyNodeList inp2)
          \<and> m_outProxyPtr fw2 = Some outp2 \<and> list_all (\<lambda>n. \<not> node_running n) (m_proxyNodeList outp2)
          \<and> m_threadPoolPtr fw2 = Some tp2 \<and> should_terminate tp2))"
proof -
  from DataFramework_run_pool [OF assms(5,4,6)] obtain tp where
    run: "DataFramework_run fw = Inr (True, fw\<lparr>m_isRunning := True, m_mainThread := True, m_threadPoolPtr := Some tp\<rparr>)"
      "threads tp = replicate (unat n) W_check" by blast
  have stopped: "list_all (\<lambda>n. \<not> node_running n) (map (snd \<circ> node_stop) ns)" for ns
    by (simp add: list_all_iff node_stop_spec)
  show ?thesis
    using assms run stopped
    by (simp add: DataFramework_stop_def stop_proxy_ptr_def DataFramework_run_def DM_stop_def Proxy_stop_def stop_nodes_eq
        TP_stop_flag_def TP_start_def Let_def split: option.split)
qed

theorem Framework_lifecycle_witness:
  "DataFramework_stop fw_built = Inl (System_error ''Invalid argument'')
   \<and> (\<exists>fw1. DataFramework_run fw_built = Inr (True, fw1) \<and> DataFramework_run fw1 = Inl Terminate)"
  using Framework_lifecycle [of fw_built dm_example "proxy_of [N_TcpServer server0]"
      "proxy_of [N_Consumer consumer0, N_Consumer (consumer0\<lparr>m_name := ''Consumer2''\<rparr>)]" 3]
  by (simp add: fw_built_def fw_new_def) blast

text \<open>
  C34: a framework without an input proxy. When the file has everything but the input proxy, the
  constructor returns as if all were well, and so does \<open>run\<close>; but the first turn of the main
  thread's loop uses a null pointer.
\<close>

theorem Framework_half_built:
  assumes "exists conf" and "read_json conf = Inr pt" and "t_name pt \<noteq> None"
    and "t_mode pt = Some mode" and "is_ok (STRING_TO_CONF mode)"
    and "proxy_ok env ''out'' pt" and "t_proxies pt ''inProxy'' = None"
  shows "\<exists>fw fw'. DataFramework_ctor exists read_json env junk junk_conf inst conf = Inr fw
    \<and> DataFramework_run fw = Inr (True, fw')
    \<and> runJobs ((\<lambda>fw. fw) # envs) fw' = Some (Inl (Undefined Null_dereference))"
proof -
  define fw0 where "fw0 = \<lparr>m_isRunning = False, m_pt = empty_topology, m_config = conf, m_threadCount = 0,
    m_mainThread = False, m_dataManagerConf = junk_conf, m_threadPoolPtr = None, m_inProxyPtr = None,
    m_outProxyPtr = None, m_dataManager = False, m_Pinstance = inst\<rparr>"
  have "header_ok pt" using assms(3-5) by simp
  from build_manager [OF this, of junk fw0] obtain fw2 dm n where
    fw2: "instantiateDataManager junk (snd (instantiateThreadPool (fw0\<lparr>m_pt := pt\<rparr>))) = (Inr True, fw2)"
      "m_pt fw2 = pt" "m_Pinstance fw2 = Some dm" "m_threadPoolPtr fw2 = Some (TP_ctor n)"
      "m_inProxyPtr fw2 = None" "\<not> m_mainThread fw2"
    by (auto simp: fw0_def)
  from assms(6) obtain outs where "t_proxies pt ''outProxy'' = Some outs" "children_ok (env ''out'') 0 outs"
    by (auto simp: proxy_ok_def split: option.splits)
  from build_out [OF fw2(2,3) this] obtain outp where outp: "instantiateProxy (env ''out'') ''out'' fw2 =
      (Inr True, fw2\<lparr>m_outProxyPtr := Some outp, m_Pinstance := Some (register_children outs dm)\<rparr>)" by blast
  define fw3 where "fw3 = fw2\<lparr>m_outProxyPtr := Some outp, m_Pinstance := Some (register_children outs dm)\<rparr>"
  have "instantiateProxy (env ''in'') ''in'' fw3 = (Inr False, fw3)"
    using instantiateProxy_spec [of "''in''" fw3 "register_children outs dm" "env ''in''"] assms(7) fw2
    by (simp add: fw3_def)
  moreover have "m_config fw0 = conf" by (simp add: fw0_def)
  ultimately have "parseConf read_json env junk fw0 = (Inr False, fw3)"
    unfolding parseConf_def using assms(2) fw2(1) outp [folded fw3_def] by (simp add: Let_def)
  then have ctor: "DataFramework_ctor exists read_json env junk junk_conf inst conf = Inr fw3"
    using assms(1) by (simp add: DataFramework_ctor_def setConf_def fw0_def)
  have fw3: "m_threadPoolPtr fw3 = Some (TP_ctor n)" "m_inProxyPtr fw3 = None" "\<not> m_mainThread fw3"
    "m_outProxyPtr fw3 = Some outp" using fw2 by (simp_all add: fw3_def)
  from DataFramework_run_pool [OF fw3(1,4,3)] obtain tp where "DataFramework_run fw3 =
      Inr (True, fw3\<lparr>m_isRunning := True, m_mainThread := True, m_threadPoolPtr := Some tp\<rparr>)" by blast
  with ctor fw3(2) show ?thesis by (simp add: runJobs_turn_def)
qed

theorem Framework_half_built_witness:
  "\<exists>fw fw'. DataFramework_ctor (\<lambda>_. True)
        (\<lambda>_. Inr (topo\<lparr>t_proxies := (t_proxies topo)(''inProxy'' := None)\<rparr>)) (\<lambda>_ _. os_good) False conf22 None
        ''topology.json'' = Inr fw
     \<and> DataFramework_run fw = Inr (True, fw')
     \<and> runJobs [\<lambda>fw. fw] fw' = Some (Inl (Undefined Null_dereference))"
proof (rule Framework_half_built [where mode = "''broadcast''" and pt = "topo\<lparr>t_proxies := (t_proxies topo)(''inProxy'' := None)\<rparr>"])
  show "is_ok (STRING_TO_CONF ''broadcast'')"
    unfolding STRING_TO_CONF_def tolower_broadcast by simp
  show "proxy_ok (\<lambda>_ _. os_good) ''out'' (topo\<lparr>t_proxies := (t_proxies topo)(''inProxy'' := None)\<rparr>)"
    using topo_ok by (simp add: topology_ok_def proxy_ok_def)
qed (simp_all add: topo_def)

end
