(* ===== verification/Spec2Isabelle.thy ===== *)
theory Spec2Isabelle
  imports Queue_Threads Broadcast_Steps Frameworks
begin

text \<open>
  A verification of the data pipeline in src/: feeders (TCP and UDP servers) push messages
  into a data manager, which broadcasts them to consumers (file writers, UDP senders); nodes
  run as jobs of a thread pool; a framework builds all this from a topology file.

  \<^bold>\<open>Parts of the program and theories.\<close> Each theory models one part, one definition per
  member function, under the function's name (with a prefix of the class where names clash).

  \<^item> \<open>Prelude\<close>: exceptions and undefined behaviour as values (\<open>cpp_error\<close>), results
    (\<open>res\<close>), checked vector access, bytes.
  \<^item> \<open>Ordered_Map\<close>: what the sources use of \<open>std::map\<close>, behind the locale \<open>finite_map\<close>.
  \<^item> \<open>Queue\<close>: the contents of \<open>Q<T>\<close> (include/queue.hpp, src/queue.cpp); the locales \<open>fifo\<close>
    and \<open>drain_fifo\<close> are the interface of a queue, interpreted on \<open>Q<T>\<close> (\<open>qf\<close>) and, in
    theory Thread_Pool, on the queue of jobs (\<open>tp\<close>).
  \<^item> \<open>Queue_Threads\<close>: the same operations with their mutex and condition variable, as a step
    relation of any number of threads on any number of queues (\<open>qstep\<close>). A thread reads a
    deque in one step and writes it in a later one; the calls leave a log of what they were
    given and returned (\<open>qevent\<close>), and \<open>seq_run\<close> replays such a log on plain lists.
  \<^item> \<open>Data_Manager\<close>: the class \<open>DataManager<T>\<close> (include/dataManager.hpp,
    src/dataManager.cpp). The locale \<open>data_handler\<close> is what nodes rely on: what a push adds to
    what is pending for a feeder, what a pop takes from what is ready for a consumer.
  \<^item> \<open>Data_Manager_Spec\<close>: the abstract hub and the refinement; registration, stopping,
    modes.
  \<^item> \<open>Broadcast_Steps\<close>: feeders, consumers and the broadcasting thread interleaved at the
    granularity of critical sections (\<open>bstep\<close>).
  \<^item> \<open>Thread_Pool\<close>: the class \<open>ThreadPool\<close> (include/threadPool.hpp, src/threadPool.cpp) as a
    step relation (\<open>tstep\<close>) over clients, workers and the thread that stops the pool.
  \<^item> \<open>Nodes\<close>: \<open>Runnable\<close> and \<open>ProxyNode\<close>, addresses and byte order, and the record \<open>os\<close> of
    what socket calls answer.
  \<^item> \<open>Tcp\<close>, \<open>Udp\<close>, \<open>Consumers\<close>: the nodes (include/tcp.hpp, src/tcp.cpp, include/udp.hpp,
    src/udp.cpp, include/consumer.hpp).
  \<^item> \<open>Proxies\<close>: the class \<open>Proxy\<close> (include/proxy.hpp, src/proxy.cpp).
  \<^item> \<open>Frameworks\<close>: the class \<open>DataFramework\<close> (include/dataFramework.hpp,
    src/dataFramework.cpp).
  \<^item> This theory: properties that span parts.

  \<^bold>\<open>How parts interact.\<close> Nodes hold a pointer to the one data manager: their operations
  take the data manager and return it. Proxies and the framework hand closures to the pool:
  here a job is a name with an identification of the closure, and what it does when it runs
  is the node's operation. Flags that other threads write while a loop runs (\<open>isRunning\<close>,
  \<open>m_isRunning\<close>) are read after an arbitrary action of the environment: \<open>DM_run\<close>,
  \<open>Consumer_run\<close> and \<open>runJobs\<close> take the list of these actions, and \<open>None\<close> means that the loop
  has not ended when the list is used up. There is no other fuel; all other recursions are
  structural.

  \<^bold>\<open>What the lemmas show.\<close>

  \<^item> Queues: first-in first-out, the complete behaviour of copying to several queues; under
    any interleaving mutual exclusion, and that the log of the calls replays, one call after
    the other, to the contents of the deques; and where the locking fails: a deadlock of two copies, a blocking pop that waits beside an element, a
    stop that makes a waiting pop read an empty deque.
  \<^item> Data manager: every call sequence keeps the tables of names and queues well formed and
    reaches no undefined behaviour; push, pass and pop refine the hub; delivery is exactly
    once and in order also under interleaving; registration up to the limit, and the queue
    that two feeders share after one left; when \<open>run\<close> ends.
  \<^item> Thread pool: order, no lost wake-up, stopping (bounded when jobs return, never when one
    does not), nothing starts after a stop, jobs that block the pool.
  \<^item> Nodes: what one run of a server pushes, and the bounds of its buffers and arrays; the
    calls that a client makes and what arrives of them; what a consumer writes.
  \<^item> Proxy and framework: which topologies are accepted and what they build; the order of
    calls; how many threads are needed; growth of the queue of jobs.

  \<^bold>\<open>Assumptions about code outside src/.\<close> \<open>read\<close> returns no more than the count it
  is given (\<open>env_ok\<close>) and \<open>recvfrom\<close> cuts a datagram to the buffer (\<open>udp_env_ok\<close>); a network
  may lose, duplicate and reorder UDP datagrams but not alter them; \<open>accept\<close> returns descriptors that are not in use;
  reading a topology file fails only with an exception derived from \<open>std::exception\<close>;
  creating a thread succeeds; the host is little-endian and a \<open>std::string\<close> object has 32
  bytes (64-bit libstdc++).

  \<^bold>\<open>Not modelled.\<close> Logging; the pause of a consumer between passes; data races on fields that
  the sources read without a lock (the list of clients in \<open>pollFds\<close>, say), since a call of a
  node's \<open>run\<close> is one step here, and two workers in the same node are not interleaved;
  registration while \<open>run\<close> broadcasts; the tests and build files; member functions that the headers
  declare and no file defines (\<open>setConf\<close> and \<open>remConsumer\<close> of the data manager, \<open>remNode\<close>,
  \<open>ProxyNode::addHandler\<close>).
\<close>

section \<open>From the network to the file\<close>

text \<open>Doing nothing to the data manager delivers nothing.\<close>

lemma delivers_nothing: "delivers c (\<lambda>dm. dm) []"
  by (simp add: delivers_def)

lemma concat_single: "i < length zs \<Longrightarrow> list_all Q_empty zs \<Longrightarrow>
  concat (map queue (zs[i := \<lparr>queue = xs\<rparr>])) = xs"
proof (induction zs arbitrary: i)
  case (Cons q zs)
  then show ?case by (cases i) (auto simp: list_all_iff)
qed simp

text \<open>
  C3: the whole way. In an idle pipeline in mode BROADCAST, let a registered TCP server run
  once, with at most \<open>BACKLOG\<close> clients, then the data manager make one pass, then a consumer
  make one pass before it is stopped. Every registered consumer then has a file with one
  line per message the server read, NULs removed, in the order of the server's clients.
\<close>

theorem pipeline_tcp_to_file:
  assumes "env_ok te" and "te_poll te \<noteq> 0" and "distinct (clients te s)"
    and "length (clients te s) \<le> BACKLOG"
    and "dm_inv dm" and "m_mode dm = BROADCAST" and "list_all Q_empty (m_inQueues dm)"
    and "dm_pending dm (m_name s) = Some []"
  shows "\<exists>s' dm1 dm2. TcpServer_run te s dm = Inr (True, s', dm1) \<and> DM_pass dm1 = Inr dm2
    \<and> (\<forall>c opens. dm_ready dm (m_name c) = Some [] \<and> m_data c = [] \<and> opens (m_name c @ ''.txt'') \<longrightarrow>
        (\<exists>dm3. Consumer_run opens [(False, \<lambda>dm. dm), (True, \<lambda>dm. dm)] c dm2 =
          Some (Inr (True, c\<lparr>m_isRunning := False\<rparr>, lines_of (rx_messages te (served te s)), dm3))))"
proof -
  let ?msgs = "rx_messages te (served te s)"
  from assms(8) obtain i where i: "map_of (m_inQueuesIds dm) (m_name s) = Some i"
    "queue (m_inQueues dm ! nat i) = []" by (auto simp: dm_pending_def)
  have slot: "nat i < length (m_inQueues dm)" using in_slot [OF assms(5) i(1)] by (rule in_range_nat)
  define dm1 where "dm1 = dm\<lparr>m_inQueues := (m_inQueues dm)[nat i := \<lparr>queue = ?msgs\<rparr>]\<rparr>"
  have push: "push_all DM_push ?msgs (m_name s) dm = Inr dm1"
    using push_all_inQueues [OF assms(5) i(1), of ?msgs] i(2) by (simp add: dm1_def)
  have inv1: "dm_inv dm1" using dm_inv_queues [OF assms(5), of "m_inQueues dm1" "m_outQueues dm"]
    by (simp add: dm1_def)
  have all: "concat (map queue (m_inQueues dm1)) = ?msgs"
    using concat_single [OF slot assms(7)] by (simp add: dm1_def)
  obtain dm2 where pass: "DM_pass dm1 = Inr dm2" "manageBroadcast dm1 = Inr dm2"
    using assms(6) by (auto simp: DM_pass_def dm1_def manageBroadcast_eq)
  have "\<exists>dm3. Consumer_run opens [(False, \<lambda>dm. dm), (True, \<lambda>dm. dm)] c dm2 =
      Some (Inr (True, c\<lparr>m_isRunning := False\<rparr>, lines_of ?msgs, dm3))"
    if c: "dm_ready dm (m_name c) = Some []" "m_data c = []" "opens (m_name c @ ''.txt'')" for c opens
  proof -
    have ready1: "dm_ready dm1 (m_name c) = Some []" using c(1) by (simp add: dm1_def)
    then have "m_outQueues dm1 \<noteq> []" using no_consumers_iff [OF inv1] by auto
    from dm_ready_broadcast [OF inv1 pass(2) this] ready1 all
    have "dm_ready dm2 (m_name c) = Some ?msgs" by simp
    from Consumer_loop_running [OF dm_inv_pass [OF inv1 pass(1)], of "c\<lparr>m_isRunning := True\<rparr>" ?msgs
        "[\<lambda>dm. dm]" "[[]]" "[(True, \<lambda>dm. dm)]" "''''"] this c(2,3)
    show ?thesis by (auto simp: Consumer_run_def Consumer_stop_def delivers_nothing)
  qed
  with push pass(1) show ?thesis by (auto simp: TcpServer_run_eq [OF assms(1-4)])
qed

theorem pipeline_tcp_to_file_witness:
  "\<exists>s' dm1 dm2 dm3. TcpServer_run te_three server0 dm_example = Inr (True, s', dm1)
     \<and> DM_pass dm1 = Inr dm2
     \<and> Consumer_run (\<lambda>_. True) [(False, \<lambda>dm. dm), (True, \<lambda>dm. dm)] consumer0 dm2 =
         Some (Inr (True, consumer0, ''Hello'' @ [newline], dm3))"
proof -
  have ok: "te_poll te_three \<noteq> 0" "distinct (clients te_three server0)"
    "length (clients te_three server0) \<le> BACKLOG" "dm_inv dm_example" "m_mode dm_example = BROADCAST"
    "list_all Q_empty (m_inQueues dm_example)" "dm_pending dm_example (m_name server0) = Some []"
    using dm_reachable_inv [OF dm_example_reachable]
    by (simp_all add: te_three_served) (simp_all add: te_three_def BACKLOG_def server0_def dm_example_eq dm_pending_def)
  have c: "dm_ready dm_example (m_name consumer0) = Some [] \<and> m_data consumer0 = [] \<and> True"
    "consumer0\<lparr>m_isRunning := False\<rparr> = consumer0"
    by (simp_all add: dm_example_eq dm_ready_def consumer0_def)
  from pipeline_tcp_to_file [OF te_three_ok ok] obtain s' dm1 dm2 where
    run: "TcpServer_run te_three server0 dm_example = Inr (True, s', dm1)" "DM_pass dm1 = Inr dm2"
    "\<forall>c opens. dm_ready dm_example (m_name c) = Some [] \<and> m_data c = [] \<and> opens (m_name c @ ''.txt'') \<longrightarrow>
        (\<exists>dm3. Consumer_run opens [(False, \<lambda>dm. dm), (True, \<lambda>dm. dm)] c dm2 =
          Some (Inr (True, c\<lparr>m_isRunning := False\<rparr>, lines_of [''Hello''], dm3)))"
    unfolding te_three_served(4) by blast
  from run(3) [THEN spec, THEN spec, of consumer0 "\<lambda>_. True"] c obtain dm3 where
    "Consumer_run (\<lambda>_. True) [(False, \<lambda>dm. dm), (True, \<lambda>dm. dm)] consumer0 dm2 =
      Some (Inr (True, consumer0, lines_of [''Hello''], dm3))" by auto
  with run(1,2) show ?thesis by (auto simp: lines_of_def)
qed

end
